(* ===== verification/PR_Prelude.thy ===== *)
theory PR_Prelude
  imports Main "HOL-Library.Word" "HOL-Library.Monad_Syntax"
begin

text \<open>
  Shared vocabulary of the development: the machine types of \<^verbatim>\<open>pr_tree.c\<close>
  (addresses, nullable pointers, \<^verbatim>\<open>weight_t\<close>, \<^verbatim>\<open>unsigned\<close>), the contract of
  the caller-supplied comparator, the sorted association lists that serve as the
  abstract specification of the dictionary, and the generic lemmas on options,
  maps, lists and words used by every component.

  Pointer-valued C expressions are modelled in the option monad: \<open>None\<close> is
  "no defined result" (a dereference of \<^verbatim>\<open>NULL\<close> or of a freed node, a failed
  \<^verbatim>\<open>ASSERT\<close>, or a loop that does not end), \<open>Some x\<close> is normal return.
\<close>

section \<open>Collections of facts\<close>

named_theorems pr_prims \<open>definitions of the heap primitives, unfolded when a C statement is executed\<close>
named_theorems cmp_rules \<open>consequences of the comparator contract\<close>

section \<open>Machine types\<close>

text \<open>
  \<^verbatim>\<open>weight_t\<close> is \<^verbatim>\<open>unsigned long\<close> and the count of a tree is \<^verbatim>\<open>unsigned\<close>. The
  widths are those of an LP64 target, 64 and 32 bits. Where \<^verbatim>\<open>unsigned long\<close> has
  32 bits the bound \<open>2 ^ 64\<close> on the number of nodes in the weight invariant and in
  the theorems about insertion reads \<open>2 ^ 32\<close>.
\<close>

type_synonym addr = nat
type_synonym ptr = "addr option"
type_synonym weight_t = "64 word"
type_synonym count_t = "32 word"

section \<open>The comparator contract\<close>

text \<open>
  \<^verbatim>\<open>dict_compare_func\<close> returns a negative, zero or positive \<^verbatim>\<open>int\<close>. Only the
  sign is used by the tree. A comparator is acceptable when it is a strict weak
  order: antisymmetric in sign, transitive, and compatible with its own
  equivalence (keys that compare equal are interchangeable).
\<close>

abbreviation cmp_lt :: "('k \<Rightarrow> 'k \<Rightarrow> int) \<Rightarrow> 'k \<Rightarrow> 'k \<Rightarrow> bool" where
  "cmp_lt c \<equiv> (\<lambda>a b. c a b < 0)"

definition total_cmp :: "('k \<Rightarrow> 'k \<Rightarrow> int) \<Rightarrow> bool" where
  "total_cmp c \<longleftrightarrow>
     (\<forall>a b. (c a b < 0) = (0 < c b a)) \<and>
     (\<forall>a b d. c a b < 0 \<longrightarrow> c b d < 0 \<longrightarrow> c a d < 0) \<and>
     (\<forall>a b d. c a b = 0 \<longrightarrow> c b d < 0 \<longrightarrow> c a d < 0) \<and>
     (\<forall>a b d. c a b < 0 \<longrightarrow> c b d = 0 \<longrightarrow> c a d < 0)"

definition int_cmp :: "int \<Rightarrow> int \<Rightarrow> int" where
  "int_cmp a b = a - b"

section \<open>Sorted association lists: the abstract dictionary\<close>

abbreviation sorted_by :: "('k \<Rightarrow> 'k \<Rightarrow> int) \<Rightarrow> ('k \<times> 'v) list \<Rightarrow> bool" where
  "sorted_by c ps \<equiv> sorted_wrt (cmp_lt c) (map fst ps)"

fun lookup_by :: "('k \<Rightarrow> 'k \<Rightarrow> int) \<Rightarrow> 'k \<Rightarrow> ('k \<times> 'v) list \<Rightarrow> 'v option" where
  "lookup_by c k [] = None"
| "lookup_by c k ((a, b) # ps) = (if c k a = 0 then Some b else lookup_by c k ps)"

fun upd_by :: "('k \<Rightarrow> 'k \<Rightarrow> int) \<Rightarrow> 'k \<Rightarrow> 'v \<Rightarrow> ('k \<times> 'v) list \<Rightarrow> ('k \<times> 'v) list" where
  "upd_by c k v [] = [(k, v)]"
| "upd_by c k v ((a, b) # ps) =
     (if c k a < 0 then (k, v) # (a, b) # ps
      else if c k a = 0 then (k, v) # ps
      else (a, b) # upd_by c k v ps)"

fun del_by :: "('k \<Rightarrow> 'k \<Rightarrow> int) \<Rightarrow> 'k \<Rightarrow> ('k \<times> 'v) list \<Rightarrow> ('k \<times> 'v) list" where
  "del_by c k [] = []"
| "del_by c k ((a, b) # ps) = (if c k a = 0 then ps else (a, b) # del_by c k ps)"

section \<open>Lemmas: the comparator\<close>

lemma total_cmp_int_cmp [simp, intro]: "total_cmp int_cmp"
  by (auto simp: total_cmp_def int_cmp_def)

lemma cmp_antisym [cmp_rules]: "total_cmp c \<Longrightarrow> (0 < c b a) = (c a b < 0)"
  by (simp add: total_cmp_def)

lemma cmp_refl [cmp_rules, simp]: "total_cmp c \<Longrightarrow> c a a = 0"
  using cmp_antisym [of c a a] by force

lemma cmp_sym [cmp_rules]: "total_cmp c \<Longrightarrow> (c b a = 0) = (c a b = 0)"
  using cmp_antisym [of c a b] cmp_antisym [of c b a]
  by (metis less_int_code(1) linorder_neqE_linordered_idom)

lemma cmp_trans [cmp_rules]: "total_cmp c \<Longrightarrow> c a b < 0 \<Longrightarrow> c b d < 0 \<Longrightarrow> c a d < 0"
  unfolding total_cmp_def by blast

lemma cmp_eq_lt [cmp_rules]: "total_cmp c \<Longrightarrow> c a b = 0 \<Longrightarrow> c b d < 0 \<Longrightarrow> c a d < 0"
  unfolding total_cmp_def by blast

lemma cmp_lt_eq [cmp_rules]: "total_cmp c \<Longrightarrow> c a b < 0 \<Longrightarrow> c b d = 0 \<Longrightarrow> c a d < 0"
  unfolding total_cmp_def by blast

lemma cmp_lt_irrefl [cmp_rules]: "total_cmp c \<Longrightarrow> \<not> c a a < 0"
  by simp

lemma cmp_gt_iff [cmp_rules]: "total_cmp c \<Longrightarrow> (\<not> c a b < 0 \<and> c a b \<noteq> 0) = (c b a < 0)"
  using cmp_antisym [of c a b] cmp_antisym [of c b a] by force

lemma transp_cmp_lt [simp]: "total_cmp c \<Longrightarrow> transp (cmp_lt c)"
  by (auto simp: transp_def intro: cmp_trans)

lemma cmp_lt_gt [cmp_rules]: "total_cmp c \<Longrightarrow> cmp_lt c a b \<Longrightarrow> c k a < 0 \<Longrightarrow> c k b < 0"
  by (auto intro: cmp_trans)

lemma cmp_gt_lt [cmp_rules]: "total_cmp c \<Longrightarrow> cmp_lt c a b \<Longrightarrow> c b k < 0 \<Longrightarrow> c a k < 0"
  by (auto intro: cmp_trans)

lemma cmp_eq_right [cmp_rules]: "total_cmp c \<Longrightarrow> c k a = 0 \<Longrightarrow> cmp_lt c a b \<Longrightarrow> c k b < 0"
  by (auto intro: cmp_eq_lt)

lemma cmp_eq_left [cmp_rules]: "total_cmp c \<Longrightarrow> c k b = 0 \<Longrightarrow> cmp_lt c a b \<Longrightarrow> c a k < 0"
  by (auto simp: cmp_sym [of c k b] intro: cmp_lt_eq)

section \<open>Lemmas: sorted association lists\<close>

lemma lookup_by_append:
  "lookup_by c k (ps @ qs) = (case lookup_by c k ps of None \<Rightarrow> lookup_by c k qs | Some v \<Rightarrow> Some v)"
  by (induction ps) auto

lemma lookup_by_below:
  "total_cmp c \<Longrightarrow> \<forall>x \<in> set ps. c k (fst x) < 0 \<Longrightarrow> lookup_by c k ps = None"
  by (induction ps) auto

lemma lookup_by_above:
  "total_cmp c \<Longrightarrow> \<forall>x \<in> set ps. c (fst x) k < 0 \<Longrightarrow> lookup_by c k ps = None"
proof (induction ps)
  case (Cons p ps)
  obtain a b where p: "p = (a, b)" by (cases p)
  from Cons.prems p have "c a k < 0" by simp
  with Cons.prems(1) have "c k a \<noteq> 0"
    using cmp_sym [of c k a] by auto
  with Cons p show ?case by simp
qed simp

lemma sorted_by_append:
  "sorted_by c (ps @ qs) =
     (sorted_by c ps \<and> sorted_by c qs \<and> (\<forall>x \<in> set ps. \<forall>y \<in> set qs. c (fst x) (fst y) < 0))"
  by (auto simp: sorted_wrt_append)

lemma set_upd_by: "set (upd_by c k v ps) \<subseteq> insert (k, v) (set ps)"
  by (induction ps) (auto split: if_splits)

lemma set_del_by: "set (del_by c k ps) \<subseteq> set ps"
  by (induction ps) (auto split: if_splits)

lemma upd_by_append_lt:
  "total_cmp c \<Longrightarrow> \<forall>x \<in> set ps. c (fst x) k < 0 \<Longrightarrow> upd_by c k v (ps @ qs) = ps @ upd_by c k v qs"
proof (induction ps)
  case (Cons p ps)
  obtain a b where p: "p = (a, b)" by (cases p)
  from Cons.prems p have lt: "c a k < 0" by simp
  with Cons.prems(1) have "\<not> c k a < 0" "c k a \<noteq> 0"
    using cmp_antisym [of c a k] cmp_antisym [of c k a] cmp_sym [of c k a] by auto
  with Cons p show ?case by simp
qed simp

lemma upd_by_append_ge:
  "total_cmp c \<Longrightarrow> \<forall>x \<in> set ps. c (fst x) a < 0 \<Longrightarrow> c k a < 0 \<or> c k a = 0 \<Longrightarrow>
   upd_by c k v (ps @ (a, b) # qs) = upd_by c k v (ps @ [(a, b)]) @ qs"
  by (induction ps) auto

lemma upd_by_above:
  "\<forall>p \<in> set ps. c k (fst p) < 0 \<Longrightarrow> upd_by c k v ps = (k, v) # ps"
  by (cases ps) auto

lemma cmp_eq_cong:
  "total_cmp c \<Longrightarrow> c k a = 0 \<Longrightarrow> (c k' a = 0) = (c k' k = 0)"
  by (metis cmp_gt_iff cmp_lt_eq cmp_sym)

lemma cmp_neq_cong:
  "total_cmp c \<Longrightarrow> c k a \<noteq> 0 \<Longrightarrow> c k' k = 0 \<Longrightarrow> c k' a \<noteq> 0"
  by (metis cmp_gt_iff cmp_lt_eq cmp_sym)

lemma lookup_by_eq_head:
  assumes "total_cmp c" and "\<forall>x \<in> set ps. c a (fst x) < 0" and "c k a = 0"
  shows "lookup_by c k ps = None"
proof -
  from assms have "\<forall>x \<in> set ps. c k (fst x) < 0"
    by (auto intro: cmp_eq_lt)
  with assms(1) show ?thesis by (rule lookup_by_below)
qed

lemma sorted_by_upd_by:
  "total_cmp c \<Longrightarrow> sorted_by c ps \<Longrightarrow> sorted_by c (upd_by c k v ps)"
proof (induction ps)
  case (Cons p ps)
  obtain a b where p: "p = (a, b)" by (cases p)
  from Cons.prems p have above: "\<forall>x \<in> set ps. c a (fst x) < 0" and srt: "sorted_by c ps"
    by auto
  consider (lt) "c k a < 0" | (eq) "c k a = 0" | (gt) "\<not> c k a < 0" "c k a \<noteq> 0"
    by blast
  then show ?case
  proof cases
    case lt
    with Cons.prems(1) above have "\<forall>x \<in> set ps. c k (fst x) < 0"
      by (auto intro: cmp_trans)
    with lt Cons.prems p show ?thesis by simp
  next
    case eq
    with Cons.prems(1) above have "\<forall>x \<in> set ps. c k (fst x) < 0"
      by (auto intro: cmp_eq_lt)
    with eq srt p show ?thesis by simp
  next
    case gt
    with Cons.prems(1) have "c a k < 0"
      using cmp_gt_iff [of c k a] by simp
    with above set_upd_by [of c k v ps] have "\<forall>x \<in> set (upd_by c k v ps). c a (fst x) < 0"
      by auto
    with gt p Cons.IH [OF Cons.prems(1) srt] show ?thesis by simp
  qed
qed simp

lemma lookup_by_upd_by:
  "total_cmp c \<Longrightarrow> sorted_by c ps \<Longrightarrow>
   lookup_by c k' (upd_by c k v ps) = (if c k' k = 0 then Some v else lookup_by c k' ps)"
proof (induction ps)
  case Nil
  then show ?case by simp
next
  case (Cons p ps)
  obtain a b where p: "p = (a, b)" by (cases p)
  from Cons.prems p have above: "\<forall>x \<in> set ps. c a (fst x) < 0" and srt: "sorted_by c ps"
    by auto
  consider (lt) "c k a < 0" | (eq) "c k a = 0" | (gt) "\<not> c k a < 0" "c k a \<noteq> 0"
    by blast
  then show ?case
  proof cases
    case lt
    then show ?thesis using p by simp
  next
    case eq
    note cong = cmp_eq_cong [OF Cons.prems(1) eq, of k']
    have "c k' a = 0 \<Longrightarrow> lookup_by c k' ps = None"
      by (rule lookup_by_eq_head [OF Cons.prems(1) above])
    with eq p cong show ?thesis by auto
  next
    case gt
    have "c k' k = 0 \<Longrightarrow> c k' a \<noteq> 0"
      by (rule cmp_neq_cong [OF Cons.prems(1) gt(2)])
    with gt p Cons.IH [OF Cons.prems(1) srt] show ?thesis by auto
  qed
qed

lemma sorted_by_del_by:
  "total_cmp c \<Longrightarrow> sorted_by c ps \<Longrightarrow> sorted_by c (del_by c k ps)"
proof (induction ps)
  case (Cons p ps)
  with set_del_by [of c k ps] show ?case by (cases p) auto
qed simp

lemma del_by_append_lt:
  "total_cmp c \<Longrightarrow> \<forall>x \<in> set ps. c (fst x) k < 0 \<Longrightarrow> del_by c k (ps @ qs) = ps @ del_by c k qs"
proof (induction ps)
  case (Cons p ps)
  obtain a b where p: "p = (a, b)" by (cases p)
  from Cons.prems p have "c a k < 0" by simp
  with cmp_antisym [OF Cons.prems(1), of k a] have "c k a \<noteq> 0" by auto
  with Cons p show ?case by simp
qed simp

lemma del_by_mid:
  assumes c: "total_cmp c" and s: "sorted_by c (ps @ (x, v) # qs)" and k: "c k x = 0"
  shows "del_by c k (ps @ (x, v) # qs) = ps @ qs"
proof -
  from s have "\<forall>p \<in> set ps. c (fst p) x < 0" by (auto simp: sorted_wrt_append)
  then have "\<forall>p \<in> set ps. c (fst p) k < 0"
    using k by (auto intro: cmp_lt_eq [OF c] simp: cmp_sym [OF c, of k x])
  from del_by_append_lt [OF c this] k show ?thesis by simp
qed

lemma lookup_by_del_by:
  "total_cmp c \<Longrightarrow> sorted_by c ps \<Longrightarrow>
   lookup_by c k' (del_by c k ps) = (if c k' k = 0 then None else lookup_by c k' ps)"
proof (induction ps)
  case Nil
  then show ?case by simp
next
  case (Cons p ps)
  obtain a b where p: "p = (a, b)" by (cases p)
  from Cons.prems p have above: "\<forall>x \<in> set ps. c a (fst x) < 0" and srt: "sorted_by c ps"
    by auto
  show ?case
  proof (cases "c k a = 0")
    case True
    note cong = cmp_eq_cong [OF Cons.prems(1) True, of k']
    have "c k' a = 0 \<Longrightarrow> lookup_by c k' ps = None"
      by (rule lookup_by_eq_head [OF Cons.prems(1) above])
    with True p cong show ?thesis by auto
  next
    case False
    have "c k' k = 0 \<Longrightarrow> c k' a \<noteq> 0"
      by (rule cmp_neq_cong [OF Cons.prems(1) False])
    with False p Cons.IH [OF Cons.prems(1) srt] show ?thesis by auto
  qed
qed

section \<open>Lemmas: the option monad\<close>

lemma bind_Some_iff: "(Option.bind m f = Some y) = (\<exists>x. m = Some x \<and> f x = Some y)"
  by (cases m) auto

lemma case_option_Some_iff:
  "((case p of None \<Rightarrow> a | Some x \<Rightarrow> f x) = Some y) = ((p = None \<and> a = Some y) \<or> (\<exists>x. p = Some x \<and> f x = Some y))"
  by (cases p) auto

lemma Some_image_iff [simp]: "(Some a \<in> Some ` S) = (a \<in> S)"
  by auto

text \<open>
  Monotonicity of the option monad in its continuations: the rules that carry a
  fixpoint induction through a \<open>do\<close> block.
\<close>

lemma bind_mono_Some:
  "Option.bind m f = Some y \<Longrightarrow> (\<And>x. m = Some x \<Longrightarrow> m' = Some x)
    \<Longrightarrow> (\<And>x. m = Some x \<Longrightarrow> f x = Some y \<Longrightarrow> g x = Some y)
    \<Longrightarrow> Option.bind m' g = Some y"
  by (cases m) auto

lemma if_mono_Some:
  "(if b then A else B) = Some y \<Longrightarrow> (b \<Longrightarrow> A = Some y \<Longrightarrow> A' = Some y)
    \<Longrightarrow> (\<not> b \<Longrightarrow> B = Some y \<Longrightarrow> B' = Some y) \<Longrightarrow> (if b then A' else B') = Some y"
  by (cases b) auto

lemma case_option_mono_Some:
  "(case p of None \<Rightarrow> A | Some x \<Rightarrow> B x) = Some y \<Longrightarrow> (p = None \<Longrightarrow> A = Some y \<Longrightarrow> A' = Some y)
    \<Longrightarrow> (\<And>x. p = Some x \<Longrightarrow> B x = Some y \<Longrightarrow> B' x = Some y)
    \<Longrightarrow> (case p of None \<Rightarrow> A' | Some x \<Rightarrow> B' x) = Some y"
  by (cases p) auto

lemmas mono_Some = bind_mono_Some if_mono_Some case_option_mono_Some

section \<open>Lemmas: words\<close>

lemma unat_of_nat_weight: "n < 2 ^ 64 \<Longrightarrow> unat (of_nat n :: weight_t) = n"
  by (simp add: unat_of_nat)

lemma weight_less_iff:
  "m < 2 ^ 64 \<Longrightarrow> n < 2 ^ 64 \<Longrightarrow> ((of_nat m :: weight_t) < of_nat n) = (m < n)"
  by (simp add: word_less_nat_alt unat_of_nat)

lemma unat_of_nat_count: "n < 2 ^ 32 \<Longrightarrow> unat (of_nat n :: count_t) = n"
  by (simp add: unat_of_nat)

lemma unat_pred_less: "c \<noteq> 0 \<Longrightarrow> unat (c - 1) < unat (c :: 'a::len word)"
  using unat_gt_0 [of c] by (simp add: unat_minus_one)

lemma unat_pred: "c \<noteq> 0 \<Longrightarrow> unat (c - 1) = unat (c :: 'a::len word) - 1"
  by (simp add: unat_minus_one)

end
