(* ===== verification/PR_Heap.thy ===== *)
theory PR_Heap
  imports PR_Prelude
begin

text \<open>
  The data model of \<^verbatim>\<open>src/src/pr_tree.c\<close> and the primitive statements on it.

  \<^item> \<open>pr_node\<close> is \<^verbatim>\<open>struct pr_node\<close>, field by field; a pointer is an
    \<open>addr option\<close> with \<open>None\<close> for \<^verbatim>\<open>NULL\<close>; \<^verbatim>\<open>weight_t\<close> is a 64-bit word.
  \<^item> \<open>pr_tree\<close> is \<^verbatim>\<open>struct pr_tree\<close>. The comparator is a function into \<open>int\<close>;
    \<open>del_func\<close> records whether a deleter was supplied.
  \<^item> \<open>pr_state\<close> extends the tree object with the memory it points into: the
    \<open>heap\<close> of allocated nodes and \<open>freed\<close>, the sequence of key/datum pairs that
    were handed to the deleter (the only observable effect of that callback).
  \<^item> \<open>WEIGHT\<close>, \<open>REWEIGH\<close> are the two macros; \<open>node_upd\<close> is an assignment through
    a node pointer; \<open>node_new\<close>, \<open>node_free\<close> are \<^verbatim>\<open>MALLOC\<close>/\<^verbatim>\<open>FREE\<close> of a node.
    The address \<^verbatim>\<open>MALLOC\<close> returns is an argument of the model (\<open>None\<close> when the
    allocation fails); an address that is already allocated would break the
    allocator's contract and has no defined result.
  \<^item> \<open>link_parent\<close> and \<open>replace_child\<close> are the two guarded assignments that
    \<^verbatim>\<open>rot_left\<close>, \<^verbatim>\<open>rot_right\<close> and \<^verbatim>\<open>pr_tree_remove\<close> repeat verbatim:
    \<^verbatim>\<open>if (x) x->parent = p;\<close> and the replacement of a node in its parent's
    child slot, or in \<^verbatim>\<open>tree->root\<close> when it has no parent.

  The functions \<open>wgt\<close>, \<open>reparent\<close> and \<open>relink\<close> describe the effect of these
  primitives on the heap alone; the lemmas reduce the primitives to them.
\<close>

section \<open>Structures\<close>

record ('k, 'v) pr_node =
  key :: 'k
  datum :: 'v
  parent :: ptr
  llink :: ptr
  rlink :: ptr
  weight :: weight_t

record ('k, 'v) pr_tree =
  root :: ptr
  count :: count_t
  key_cmp :: "'k \<Rightarrow> 'k \<Rightarrow> int"
  del_func :: bool

record ('k, 'v) pr_state = "('k, 'v) pr_tree" +
  heap :: "addr \<rightharpoonup> ('k, 'v) pr_node"
  freed :: "('k \<times> 'v) list"

section \<open>Macros and primitive statements\<close>

definition WEIGHT :: "('k, 'v) pr_state \<Rightarrow> ptr \<Rightarrow> weight_t option" where
  "WEIGHT s p = (case p of None \<Rightarrow> Some 1 | Some a \<Rightarrow> map_option weight (heap s a))"

definition node_upd ::
  "addr \<Rightarrow> (('k, 'v) pr_node \<Rightarrow> ('k, 'v) pr_node) \<Rightarrow> ('k, 'v) pr_state \<Rightarrow> ('k, 'v) pr_state option" where
  "node_upd a f s =
     (case heap s a of None \<Rightarrow> None | Some n \<Rightarrow> Some (s\<lparr>heap := (heap s)(a \<mapsto> f n)\<rparr>))"

definition REWEIGH :: "addr \<Rightarrow> ('k, 'v) pr_state \<Rightarrow> ('k, 'v) pr_state option" where
  "REWEIGH a s = do {
     n \<leftarrow> heap s a;
     wl \<leftarrow> WEIGHT s (llink n);
     wr \<leftarrow> WEIGHT s (rlink n);
     node_upd a (\<lambda>n. n\<lparr>weight := wl + wr\<rparr>) s
   }"

definition node_new ::
  "'k \<Rightarrow> 'v \<Rightarrow> ptr \<Rightarrow> ('k, 'v) pr_state \<Rightarrow> (ptr \<times> ('k, 'v) pr_state) option" where
  "node_new k v m s =
     (case m of
        None \<Rightarrow> Some (None, s)
      | Some a \<Rightarrow>
          if a \<in> dom (heap s) then None
          else Some (Some a, s\<lparr>heap := (heap s)(a \<mapsto>
                 \<lparr>key = k, datum = v, parent = None, llink = None, rlink = None, weight = 2\<rparr>)\<rparr>))"

definition node_free :: "addr \<Rightarrow> ('k, 'v) pr_state \<Rightarrow> ('k, 'v) pr_state option" where
  "node_free a s =
     (case heap s a of None \<Rightarrow> None | Some n \<Rightarrow> Some (s\<lparr>heap := (heap s)(a := None)\<rparr>))"

definition link_parent :: "ptr \<Rightarrow> ptr \<Rightarrow> ('k, 'v) pr_state \<Rightarrow> ('k, 'v) pr_state option" where
  "link_parent x p s =
     (case x of None \<Rightarrow> Some s | Some a \<Rightarrow> node_upd a (\<lambda>n. n\<lparr>parent := p\<rparr>) s)"

definition replace_child ::
  "ptr \<Rightarrow> addr \<Rightarrow> ptr \<Rightarrow> ('k, 'v) pr_state \<Rightarrow> ('k, 'v) pr_state option" where
  "replace_child par node x s =
     (case par of
        Some p \<Rightarrow> do {
          pn \<leftarrow> heap s p;
          if llink pn = Some node
          then node_upd p (\<lambda>n. n\<lparr>llink := x\<rparr>) s
          else node_upd p (\<lambda>n. n\<lparr>rlink := x\<rparr>) s }
      | None \<Rightarrow> Some (s\<lparr>root := x\<rparr>))"

definition call_del :: "'k \<Rightarrow> 'v \<Rightarrow> ('k, 'v) pr_state \<Rightarrow> ('k, 'v) pr_state" where
  "call_del k v s = (if del_func s then s\<lparr>freed := freed s @ [(k, v)]\<rparr> else s)"

lemmas [pr_prims] = WEIGHT_def node_upd_def REWEIGH_def node_new_def node_free_def call_del_def
  link_parent_def replace_child_def

section \<open>Heap transformers\<close>

definition wgt :: "(addr \<rightharpoonup> ('k, 'v) pr_node) \<Rightarrow> ptr \<Rightarrow> weight_t option" where
  "wgt h p = (case p of None \<Rightarrow> Some 1 | Some a \<Rightarrow> map_option weight (h a))"

definition reparent ::
  "(addr \<rightharpoonup> ('k, 'v) pr_node) \<Rightarrow> ptr \<Rightarrow> ptr \<Rightarrow> (addr \<rightharpoonup> ('k, 'v) pr_node)" where
  "reparent h x p = (\<lambda>a. if x = Some a then map_option (\<lambda>n. n\<lparr>parent := p\<rparr>) (h a) else h a)"

definition relink ::
  "(addr \<rightharpoonup> ('k, 'v) pr_node) \<Rightarrow> ptr \<Rightarrow> addr \<Rightarrow> ptr \<Rightarrow> (addr \<rightharpoonup> ('k, 'v) pr_node)" where
  "relink h par node x =
     (\<lambda>a. if par = Some a
          then map_option (\<lambda>n. if llink n = Some node then n\<lparr>llink := x\<rparr> else n\<lparr>rlink := x\<rparr>) (h a)
          else h a)"

section \<open>Lemmas: the primitives on a known heap\<close>

lemma WEIGHT_wgt [simp]: "WEIGHT s p = wgt (heap s) p"
  by (simp add: WEIGHT_def wgt_def)

lemma wgt_None [simp]: "wgt h None = Some 1"
  by (simp add: wgt_def)

lemma wgt_Some [simp]: "h a = Some n \<Longrightarrow> wgt h (Some a) = Some (weight n)"
  by (simp add: wgt_def)

lemma wgt_upd_other [simp]: "p \<noteq> Some a \<Longrightarrow> wgt (h(a := x)) p = wgt h p"
  by (cases p) (auto simp: wgt_def)

lemma wgt_reparent [simp]: "wgt (reparent h x q) p = wgt h p"
  by (cases p) (auto simp: wgt_def reparent_def map_option.compositionality comp_def)

lemma wgt_relink [simp]: "wgt (relink h par node x) p = wgt h p"
  by (cases p) (auto simp: wgt_def relink_def map_option.compositionality comp_def
      intro!: map_option_cong)

lemma reparent_None [simp]: "reparent h None p = h"
  by (simp add: reparent_def fun_eq_iff)

lemma relink_None [simp]: "relink h None node x = h"
  by (simp add: relink_def fun_eq_iff)

lemma reparent_other [simp]: "x \<noteq> Some a \<Longrightarrow> reparent h x p a = h a"
  by (simp add: reparent_def)

lemma reparent_same [simp]: "reparent h (Some a) p a = map_option (\<lambda>n. n\<lparr>parent := p\<rparr>) (h a)"
  by (simp add: reparent_def)

lemma relink_other [simp]: "par \<noteq> Some a \<Longrightarrow> relink h par node x a = h a"
  by (simp add: relink_def)

lemma relink_same:
  "relink h (Some a) node x a =
     map_option (\<lambda>n. if llink n = Some node then n\<lparr>llink := x\<rparr> else n\<lparr>rlink := x\<rparr>) (h a)"
  by (simp add: relink_def)

lemma dom_reparent [simp]: "dom (reparent h x p) = dom h"
  by (auto simp: reparent_def dom_def)

lemma dom_relink [simp]: "dom (relink h par node x) = dom h"
  by (auto simp: relink_def dom_def)

lemma link_parent_eq:
  "x = None \<or> x \<in> Some ` dom (heap s) \<Longrightarrow>
   link_parent x p s = Some (s\<lparr>heap := reparent (heap s) x p\<rparr>)"
  by (cases x) (auto simp: link_parent_def node_upd_def reparent_def fun_eq_iff
      intro!: pr_state.equality)

lemma replace_child_eq:
  "par = None \<or> par \<in> Some ` dom (heap s) \<Longrightarrow>
   replace_child par node x s =
     Some (s\<lparr>root := (if par = None then x else root s), heap := relink (heap s) par node x\<rparr>)"
  by (cases par) (auto simp: replace_child_def node_upd_def relink_def fun_eq_iff
      intro!: pr_state.equality)

lemma node_upd_Some [simp]:
  "heap s a = Some n \<Longrightarrow> node_upd a f s = Some (s\<lparr>heap := (heap s)(a \<mapsto> f n)\<rparr>)"
  by (simp add: node_upd_def)

lemma node_upd_None [simp]: "heap s a = None \<Longrightarrow> node_upd a f s = None"
  by (simp add: node_upd_def)

lemma node_upd_fields:
  assumes "node_upd a f s = Some s'"
  shows "root s' = root s" and "count s' = count s" and "key_cmp s' = key_cmp s"
    and "del_func s' = del_func s" and "freed s' = freed s" and "dom (heap s') = dom (heap s)"
  using assms by (auto simp: node_upd_def split: option.splits if_splits)

lemma REWEIGH_Some:
  assumes "heap s a = Some n" and "wgt (heap s) (llink n) = Some wl"
    and "wgt (heap s) (rlink n) = Some wr"
  shows "REWEIGH a s = Some (s\<lparr>heap := (heap s)(a \<mapsto> n\<lparr>weight := wl + wr\<rparr>)\<rparr>)"
  using assms by (simp add: REWEIGH_def)

lemma node_new_fail [simp]: "node_new k v None s = Some (None, s)"
  by (simp add: node_new_def)

lemma node_new_fresh:
  "a \<notin> dom (heap s) \<Longrightarrow>
   node_new k v (Some a) s = Some (Some a, s\<lparr>heap := (heap s)(a \<mapsto>
     \<lparr>key = k, datum = v, parent = None, llink = None, rlink = None, weight = 2\<rparr>)\<rparr>)"
  by (simp add: node_new_def)

lemma node_free_Some [simp]:
  "heap s a = Some n \<Longrightarrow> node_free a s = Some (s\<lparr>heap := (heap s)(a := None)\<rparr>)"
  by (simp add: node_free_def)

lemma call_del_fields [simp]:
  "root (call_del k v s) = root s" "count (call_del k v s) = count s"
  "key_cmp (call_del k v s) = key_cmp s" "del_func (call_del k v s) = del_func s"
  "heap (call_del k v s) = heap s"
  by (simp_all add: call_del_def)

lemma freed_call_del:
  "freed (call_del k v s) = (if del_func s then freed s @ [(k, v)] else freed s)"
  by (simp add: call_del_def)

end
