(* ===== verification/PR_Tree.thy ===== *)
theory PR_Tree
  imports PR_Heap
begin

text \<open>
  The abstraction of the node graph: a binary tree whose nodes carry the address
  they live at, together with the key, the datum and the stored weight
  (\<open>ltree\<close>). \<open>tree_at h par t\<close> says that heap \<open>h\<close> holds exactly the linked
  structure \<open>t\<close> describes, hanging below parent \<open>par\<close>: every node of \<open>t\<close> is
  allocated with the fields of \<^verbatim>\<open>struct pr_node\<close> that \<open>t\<close> prescribes,
  including the \<^verbatim>\<open>parent\<close> back-reference (the linkage symmetry of the
  specification). \<open>repr s t\<close> lifts this to a state: \<^verbatim>\<open>tree->root\<close> points at
  the root of \<open>t\<close> and no address occurs twice.

  Operations that walk upwards through \<^verbatim>\<open>parent\<close> pointers are described with
  one-hole contexts (\<open>frame list\<close>, innermost frame first): \<open>plug c t\<close> is the
  whole tree with \<open>t\<close> in the hole, and \<open>ctx_at\<close> is the part of \<open>tree_at\<close> that
  speaks about the context.

  \<open>yields m s t\<close> is the shape of every refinement lemma on heap operations:
  the operation returns, it changed nothing but \<^verbatim>\<open>tree->root\<close> and the heap,
  it allocated and freed nothing, and the new heap represents \<open>t\<close>.
\<close>

section \<open>Trees labelled with addresses\<close>

datatype ('k, 'v) ltree =
  Tip
| Nd "('k, 'v) ltree" addr 'k 'v weight_t "('k, 'v) ltree"

fun rootp :: "('k, 'v) ltree \<Rightarrow> ptr" where
  "rootp Tip = None"
| "rootp (Nd l a k v w r) = Some a"

fun addrs :: "('k, 'v) ltree \<Rightarrow> addr list" where
  "addrs Tip = []"
| "addrs (Nd l a k v w r) = addrs l @ a # addrs r"

fun entries :: "('k, 'v) ltree \<Rightarrow> ('k \<times> 'v) list" where
  "entries Tip = []"
| "entries (Nd l a k v w r) = entries l @ (k, v) # entries r"

fun wt :: "('k, 'v) ltree \<Rightarrow> weight_t" where
  "wt Tip = 1"
| "wt (Nd l a k v w r) = w"

fun wt_ok :: "('k, 'v) ltree \<Rightarrow> bool" where
  "wt_ok Tip = True"
| "wt_ok (Nd l a k v w r) = (w = wt l + wt r \<and> wt_ok l \<and> wt_ok r)"

definition wt_inv :: "('k, 'v) ltree \<Rightarrow> bool" where
  "wt_inv t \<longleftrightarrow> wt_ok t \<and> size t + 1 < 2 ^ 64"

text \<open>
  The path-reduction balance condition of the specification: at no node would a
  single or double rotation towards the lighter side be due.
\<close>

fun balanced :: "('k, 'v) ltree \<Rightarrow> bool" where
  "balanced Tip = True"
| "balanced (Nd l a k v w r) =
     (balanced l \<and> balanced r \<and>
      (if wt l < wt r then
         (case r of Tip \<Rightarrow> True | Nd rl d kd vd wd rr \<Rightarrow> wt rr \<le> wt l \<and> wt rl \<le> wt l)
       else if wt r < wt l then
         (case l of Tip \<Rightarrow> True | Nd ll b kb vb wb lr \<Rightarrow> wt ll \<le> wt r \<and> wt lr \<le> wt r)
       else True))"

fun tree_at :: "(addr \<rightharpoonup> ('k, 'v) pr_node) \<Rightarrow> ptr \<Rightarrow> ('k, 'v) ltree \<Rightarrow> bool" where
  "tree_at h par Tip = True"
| "tree_at h par (Nd l a k v w r) =
     (h a = Some \<lparr>key = k, datum = v, parent = par, llink = rootp l, rlink = rootp r, weight = w\<rparr>
      \<and> tree_at h (Some a) l \<and> tree_at h (Some a) r)"

section \<open>One-hole contexts\<close>

datatype ('k, 'v) frame =
  LF addr 'k 'v weight_t "('k, 'v) ltree"
| RF "('k, 'v) ltree" addr 'k 'v weight_t

fun faddr :: "('k, 'v) frame \<Rightarrow> addr" where
  "faddr (LF a k v w r) = a"
| "faddr (RF l a k v w) = a"

fun plug :: "('k, 'v) frame list \<Rightarrow> ('k, 'v) ltree \<Rightarrow> ('k, 'v) ltree" where
  "plug [] t = t"
| "plug (LF a k v w r # c) t = plug c (Nd t a k v w r)"
| "plug (RF l a k v w # c) t = plug c (Nd l a k v w t)"

fun ctxp :: "('k, 'v) frame list \<Rightarrow> ptr" where
  "ctxp [] = None"
| "ctxp (f # c) = Some (faddr f)"

fun cpre :: "('k, 'v) frame list \<Rightarrow> addr list" where
  "cpre [] = []"
| "cpre (LF a k v w r # c) = cpre c"
| "cpre (RF l a k v w # c) = cpre c @ addrs l @ [a]"

fun cpost :: "('k, 'v) frame list \<Rightarrow> addr list" where
  "cpost [] = []"
| "cpost (LF a k v w r # c) = a # addrs r @ cpost c"
| "cpost (RF l a k v w # c) = cpost c"

fun epre :: "('k, 'v) frame list \<Rightarrow> ('k \<times> 'v) list" where
  "epre [] = []"
| "epre (LF a k v w r # c) = epre c"
| "epre (RF l a k v w # c) = epre c @ entries l @ [(k, v)]"

fun epost :: "('k, 'v) frame list \<Rightarrow> ('k \<times> 'v) list" where
  "epost [] = []"
| "epost (LF a k v w r # c) = (k, v) # entries r @ epost c"
| "epost (RF l a k v w # c) = epost c"

fun ctx_at :: "(addr \<rightharpoonup> ('k, 'v) pr_node) \<Rightarrow> ('k, 'v) frame list \<Rightarrow> ptr \<Rightarrow> bool" where
  "ctx_at h [] p = True"
| "ctx_at h (LF a k v w r # c) p =
     (h a = Some \<lparr>key = k, datum = v, parent = ctxp c, llink = p, rlink = rootp r, weight = w\<rparr>
      \<and> tree_at h (Some a) r \<and> ctx_at h c (Some a))"
| "ctx_at h (RF l a k v w # c) p =
     (h a = Some \<lparr>key = k, datum = v, parent = ctxp c, llink = rootp l, rlink = p, weight = w\<rparr>
      \<and> tree_at h (Some a) l \<and> ctx_at h c (Some a))"

fun ctx_wt :: "('k, 'v) frame list \<Rightarrow> weight_t \<Rightarrow> bool" where
  "ctx_wt [] x = True"
| "ctx_wt (LF a k v w r # c) x = (w = x + wt r \<and> wt_ok r \<and> ctx_wt c w)"
| "ctx_wt (RF l a k v w # c) x = (w = wt l + x \<and> wt_ok l \<and> ctx_wt c w)"

section \<open>Representation of a state\<close>

definition repr :: "('k, 'v) pr_state \<Rightarrow> ('k, 'v) ltree \<Rightarrow> bool" where
  "repr s t \<longleftrightarrow> root s = rootp t \<and> tree_at (heap s) None t \<and> distinct (addrs t)"

definition yields :: "('k, 'v) pr_state option \<Rightarrow> ('k, 'v) pr_state \<Rightarrow> ('k, 'v) ltree \<Rightarrow> bool" where
  "yields m s t \<longleftrightarrow>
     (\<exists>h. m = Some (s\<lparr>root := rootp t, heap := h\<rparr>) \<and> tree_at h None t \<and> distinct (addrs t)
        \<and> dom h = dom (heap s))"

text \<open>
  The invariant of the tree object. \<open>pr_inv s t\<close> holds when state \<open>s\<close> is the
  dictionary with in-order entries \<open>entries t\<close>: the heap holds exactly the
  nodes of \<open>t\<close> (nothing else is allocated), the weights are those of the
  definition, the comparator is a strict weak order and sorts the entries, and
  \<^verbatim>\<open>count\<close> is the number of nodes modulo \<open>2 ^ 32\<close>.
\<close>

definition pr_inv :: "('k, 'v) pr_state \<Rightarrow> ('k, 'v) ltree \<Rightarrow> bool" where
  "pr_inv s t \<longleftrightarrow>
     repr s t \<and> wt_inv t \<and> total_cmp (key_cmp s) \<and> sorted_by (key_cmp s) (entries t)
     \<and> count s = of_nat (size t) \<and> dom (heap s) = set (addrs t)"

section \<open>Writing a tree into a heap\<close>

text \<open>
  \<open>heap_of par t\<close> is the heap that holds exactly the nodes of \<open>t\<close>, linked as
  \<open>t\<close> prescribes; \<open>state_of\<close> wraps it into a tree object. They are the
  inverse of the abstraction and provide the concrete states the properties are
  instantiated at.
\<close>

fun heap_of :: "ptr \<Rightarrow> ('k, 'v) ltree \<Rightarrow> (addr \<rightharpoonup> ('k, 'v) pr_node)" where
  "heap_of par Tip = Map.empty"
| "heap_of par (Nd l a k v w r) =
     (heap_of (Some a) l ++ heap_of (Some a) r)
       (a \<mapsto> \<lparr>key = k, datum = v, parent = par, llink = rootp l, rlink = rootp r, weight = w\<rparr>)"

definition state_of :: "('k \<Rightarrow> 'k \<Rightarrow> int) \<Rightarrow> bool \<Rightarrow> ('k, 'v) ltree \<Rightarrow> ('k, 'v) pr_state" where
  "state_of c d t =
     \<lparr>root = rootp t, count = of_nat (size t), key_cmp = c, del_func = d,
      heap = heap_of None t, freed = []\<rparr>"

section \<open>Lemmas: labelled trees\<close>

lemma rootp_None_iff [simp]: "(rootp t = None) = (t = Tip)"
  by (cases t) auto

lemma rootp_Some_iff: "(rootp t = Some a) = (\<exists>l k v w r. t = Nd l a k v w r)"
  by (cases t) auto

lemma rootp_in_addrs: "rootp t = Some a \<Longrightarrow> a \<in> set (addrs t)"
  by (cases t) auto

lemma length_addrs [simp]: "length (addrs t) = size t"
  by (induction t) auto

lemma length_entries [simp]: "length (entries t) = size t"
  by (induction t) auto

lemma addrs_Nil_iff [simp]: "(addrs t = []) = (t = Tip)"
  by (cases t) auto

lemma entries_Nil_iff [simp]: "(entries t = []) = (t = Tip)"
  by (cases t) auto

lemma rootp_neq [simp]: "a \<notin> set (addrs t) \<Longrightarrow> rootp t \<noteq> Some a"
  by (cases t) auto

lemma wt_ok_size: "wt_ok t \<Longrightarrow> wt t = of_nat (size t + 1)"
  by (induction t) auto

lemma wt_ok_unat: "wt_ok t \<Longrightarrow> size t + 1 < 2 ^ 64 \<Longrightarrow> unat (wt t) = size t + 1"
  by (simp add: wt_ok_size unat_of_nat_weight del: of_nat_add of_nat_Suc)

lemma wt_inv_Tip [simp]: "wt_inv Tip"
  by (simp add: wt_inv_def)

lemma wt_inv_NdD:
  assumes "wt_inv (Nd l a k v w r)"
  shows "wt_inv l" and "wt_inv r" and "w = wt l + wt r"
  using assms by (auto simp: wt_inv_def)

lemma wt_inv_NdI:
  "wt_inv l \<Longrightarrow> wt_inv r \<Longrightarrow> size l + size r + 2 < 2 ^ 64 \<Longrightarrow> wt_inv (Nd l a k v (wt l + wt r) r)"
  by (auto simp: wt_inv_def)

lemma wt_inv_unat: "wt_inv t \<Longrightarrow> unat (wt t) = size t + 1"
  by (simp add: wt_inv_def wt_ok_unat)

lemma wt_inv_less: "wt_inv l \<Longrightarrow> wt_inv r \<Longrightarrow> (wt l < wt r) = (size l < size r)"
  by (simp add: word_less_nat_alt wt_inv_unat)

lemma wt_inv_nonzero [simp]: "wt_inv t \<Longrightarrow> wt t \<noteq> 0"
  using wt_inv_unat [of t] by auto

lemma wt_inv_not_less_one [simp]: "wt_inv t \<Longrightarrow> \<not> wt t < 1"
  by (simp add: word_less_nat_alt wt_inv_unat)

section \<open>Lemmas: the frame rule for \<open>tree_at\<close>\<close>

lemma tree_at_upd_other [simp]:
  "a \<notin> set (addrs t) \<Longrightarrow> tree_at (h(a := x)) par t = tree_at h par t"
  by (induction t arbitrary: par) auto

lemma tree_at_cong:
  "(\<And>a. a \<in> set (addrs t) \<Longrightarrow> h a = h' a) \<Longrightarrow> tree_at h par t = tree_at h' par t"
  by (induction t arbitrary: par) auto

lemma tree_at_dom: "tree_at h par t \<Longrightarrow> set (addrs t) \<subseteq> dom h"
  by (induction t arbitrary: par) (auto, blast+)

lemma tree_at_root:
  "tree_at h par t \<Longrightarrow> rootp t = Some a \<Longrightarrow> \<exists>n. h a = Some n \<and> parent n = par"
  by (cases t) auto

lemma tree_at_rootp_dom: "tree_at h par t \<Longrightarrow> rootp t = None \<or> rootp t \<in> Some ` dom h"
  by (cases t) auto

lemma wgt_tree_at [simp]: "tree_at h par t \<Longrightarrow> wgt h (rootp t) = Some (wt t)"
  by (cases t) auto

lemma tree_at_reparent_root:
  "tree_at h par t \<Longrightarrow> distinct (addrs t) \<Longrightarrow> tree_at (reparent h (rootp t) q) q t"
proof (cases t)
  case (Nd l a k v w r)
  assume t: "tree_at h par t" and dist: "distinct (addrs t)"
  have "tree_at (reparent h (Some a) q) (Some a) l = tree_at h (Some a) l"
    using dist Nd by (intro tree_at_cong) (auto simp: reparent_def)
  moreover have "tree_at (reparent h (Some a) q) (Some a) r = tree_at h (Some a) r"
    using dist Nd by (intro tree_at_cong) (auto simp: reparent_def)
  ultimately show ?thesis using t Nd by simp
qed simp

lemma tree_at_reparent_other [simp]:
  "x \<notin> Some ` set (addrs t) \<Longrightarrow> tree_at (reparent h x q) par t = tree_at h par t"
  by (rule tree_at_cong) (auto simp: reparent_def)

lemma tree_at_relink_other [simp]:
  "x \<notin> Some ` set (addrs t) \<Longrightarrow> tree_at (relink h x n y) par t = tree_at h par t"
  by (rule tree_at_cong) (auto simp: relink_def)

section \<open>Lemmas: contexts\<close>

lemma addrs_plug [simp]: "addrs (plug c t) = cpre c @ addrs t @ cpost c"
  by (induction c t rule: plug.induct) auto

lemma entries_plug [simp]: "entries (plug c t) = epre c @ entries t @ epost c"
  by (induction c t rule: plug.induct) auto

lemma size_plug_mono: "size t \<le> size t' \<Longrightarrow> size (plug c t) \<le> size (plug c t')"
  by (induction c arbitrary: t t' rule: cpre.induct) auto

lemma rootp_plug: "rootp (plug c t) = (case c of [] \<Rightarrow> rootp t | _ \<Rightarrow> Some (faddr (last c)))"
  by (induction c t rule: plug.induct) (auto split: list.splits)

lemma rootp_plug_same: "c \<noteq> [] \<Longrightarrow> rootp (plug c t) = rootp (plug c t')"
  by (simp add: rootp_plug split: list.splits)

lemma ctxp_in_cpre_cpost: "ctxp c = Some p \<Longrightarrow> p \<in> set (cpre c) \<union> set (cpost c)"
  by (cases c rule: cpre.cases) auto

lemma ctx_at_upd_other [simp]:
  "a \<notin> set (cpre c) \<Longrightarrow> a \<notin> set (cpost c) \<Longrightarrow> ctx_at (h(a := x)) c p = ctx_at h c p"
  by (induction c arbitrary: p rule: cpre.induct) auto

lemma tree_at_plug:
  "tree_at h None (plug c t) = (ctx_at h c (rootp t) \<and> tree_at h (ctxp c) t)"
  by (induction c t rule: plug.induct) auto

lemma ctxp_neq [simp]: "a \<notin> set (cpre c) \<Longrightarrow> a \<notin> set (cpost c) \<Longrightarrow> ctxp c \<noteq> Some a"
  by (cases c rule: cpre.cases) auto

lemma ctx_at_cong:
  "(\<And>a. a \<in> set (cpre c) \<union> set (cpost c) \<Longrightarrow> h a = h' a) \<Longrightarrow> ctx_at h c p = ctx_at h' c p"
proof (induction c arbitrary: p rule: cpre.induct)
  case (2 a k v w r c)
  have "tree_at h (Some a) r = tree_at h' (Some a) r"
    by (rule tree_at_cong) (simp add: 2)
  moreover have "ctx_at h c (Some a) = ctx_at h' c (Some a)"
    by (rule "2.IH") (auto simp: 2)
  ultimately show ?case using 2(2) [of a] by simp
next
  case (3 l a k v w c)
  have "tree_at h (Some a) l = tree_at h' (Some a) l"
    by (rule tree_at_cong) (simp add: 3)
  moreover have "ctx_at h c (Some a) = ctx_at h' c (Some a)"
    by (rule "3.IH") (auto simp: 3)
  ultimately show ?case using 3(2) [of a] by simp
qed simp

lemma ctx_at_ctxp_dom: "ctx_at h c p \<Longrightarrow> ctxp c = None \<or> ctxp c \<in> Some ` dom h"
  by (cases c rule: cpre.cases) auto

lemma ctx_at_reparent_other [simp]:
  "x \<notin> Some ` (set (cpre c) \<union> set (cpost c)) \<Longrightarrow> ctx_at (reparent h x q) c p = ctx_at h c p"
  by (rule ctx_at_cong) (auto simp: reparent_def)

lemma ctx_at_relink:
  assumes "ctx_at h c (Some b)" and "distinct (cpre c @ cpost c)"
    and "b \<notin> set (cpre c)" and "b \<notin> set (cpost c)"
  shows "ctx_at (relink h (ctxp c) b x) c x"
proof (cases c rule: cpre.cases)
  case (2 a k v w r c')
  have "ctx_at (relink h (Some a) b x) c' (Some a) = ctx_at h c' (Some a)"
    using assms 2 by (intro ctx_at_cong) (auto simp: relink_def)
  with assms 2 show ?thesis by (simp add: relink_same)
next
  case (3 l a k v w c')
  have "ctx_at (relink h (Some a) b x) c' (Some a) = ctx_at h c' (Some a)"
    using assms 3 by (intro ctx_at_cong) (auto simp: relink_def)
  with assms 3 show ?thesis by (simp add: relink_same)
qed simp

lemma root_plug_replace:
  "root s = rootp (plug c t) \<Longrightarrow> rootp t' = x \<Longrightarrow>
   rootp (plug c t') = (if ctxp c = None then x else root s)"
  by (cases c) (auto simp: rootp_plug)

lemma ctx_at_top:
  "ctx_at h c p \<Longrightarrow> ctxp c = Some a \<Longrightarrow>
   \<exists>n. h a = Some n \<and> (llink n = p \<or> rlink n = p) \<and> parent n = ctxp (tl c)"
  by (cases c rule: cpre.cases) auto

section \<open>Lemmas: \<open>repr\<close> and \<open>yields\<close>\<close>

lemma reprI: "root s = rootp t \<Longrightarrow> tree_at (heap s) None t \<Longrightarrow> distinct (addrs t) \<Longrightarrow> repr s t"
  by (simp add: repr_def)

lemma reprD:
  assumes "repr s t"
  shows "root s = rootp t" and "tree_at (heap s) None t" and "distinct (addrs t)"
  using assms by (simp_all add: repr_def)

lemma repr_Tip [simp]: "repr s Tip = (root s = None)"
  by (simp add: repr_def)

lemma repr_upd [simp]:
  "repr (s\<lparr>root := rootp t, heap := h\<rparr>) t = (tree_at h None t \<and> distinct (addrs t))"
  by (simp add: repr_def)

lemma repr_count_upd [simp]: "repr (s\<lparr>count := n\<rparr>) t = repr s t"
  by (simp add: repr_def)

lemma repr_call_del [simp]: "repr (call_del k v s) t = repr s t"
  by (simp add: repr_def)

lemma repr_plugD:
  assumes "repr s (plug c t)"
  shows "ctx_at (heap s) c (rootp t)" and "tree_at (heap s) (ctxp c) t"
    and "distinct (cpre c @ addrs t @ cpost c)" and "root s = rootp (plug c t)"
  using assms by (simp_all add: repr_def tree_at_plug)

lemma repr_dom: "repr s t \<Longrightarrow> set (addrs t) \<subseteq> dom (heap s)"
  by (auto simp: repr_def dest: tree_at_dom)

lemma yields_Some: "repr s t \<Longrightarrow> yields (Some s) s t"
  unfolding yields_def repr_def by (intro exI [of _ "heap s"]) simp

lemma yieldsI:
  "m = Some (s\<lparr>root := rootp t, heap := h\<rparr>) \<Longrightarrow> tree_at h None t \<Longrightarrow> distinct (addrs t) \<Longrightarrow>
   dom h = dom (heap s) \<Longrightarrow> yields m s t"
  unfolding yields_def by blast

lemma yieldsE:
  assumes "yields m s t"
  obtains s' where "m = Some s'" and "repr s' t" and "s' = s\<lparr>root := root s', heap := heap s'\<rparr>"
    and "dom (heap s') = dom (heap s)"
  using assms unfolding yields_def by (auto simp: repr_def)

lemma yields_fields:
  assumes "yields m s t" and "m = Some s'"
  shows "count s' = count s" and "key_cmp s' = key_cmp s" and "del_func s' = del_func s"
    and "freed s' = freed s" and "repr s' t" and "dom (heap s') = dom (heap s)"
  using assms unfolding yields_def by (force simp: repr_def)+

lemma yields_bind:
  assumes "yields m s t1"
    and "\<And>s1. repr s1 t1 \<Longrightarrow> s1 = s\<lparr>root := root s1, heap := heap s1\<rparr> \<Longrightarrow> yields (f s1) s1 t2"
  shows "yields (Option.bind m f) s t2"
proof -
  from assms(1) obtain s1 where m: "m = Some s1" and r: "repr s1 t1"
    and eq: "s1 = s\<lparr>root := root s1, heap := heap s1\<rparr>" and d: "dom (heap s1) = dom (heap s)"
    by (rule yieldsE)
  from assms(2) [OF r eq] obtain h where
    "f s1 = Some (s1\<lparr>root := rootp t2, heap := h\<rparr>)" "tree_at h None t2" "distinct (addrs t2)"
    "dom h = dom (heap s1)"
    unfolding yields_def by blast
  moreover have "s1\<lparr>root := rootp t2, heap := h\<rparr> = s\<lparr>root := rootp t2, heap := h\<rparr>"
    by (subst eq) simp
  ultimately show ?thesis using m d by (auto intro: yieldsI)
qed

lemma repr_plug_node:
  "repr s (plug c (Nd l a k v w r)) \<Longrightarrow>
   heap s a = Some \<lparr>key = k, datum = v, parent = ctxp c, llink = rootp l, rlink = rootp r, weight = w\<rparr>"
  by (drule repr_plugD(2)) simp

lemma repr_plug_wgt:
  assumes "repr s (plug c (Nd l a k v w r))"
  shows "wgt (heap s) (rootp l) = Some (wt l)" and "wgt (heap s) (rootp r) = Some (wt r)"
  using repr_plugD(2) [OF assms] by (auto intro: wgt_tree_at)

lemma yields_opt:
  assumes "repr s (plug c t)"
    and "\<And>x. rootp t = Some x \<Longrightarrow> yields (f x) s (plug c t')"
    and "t = Tip \<Longrightarrow> t' = Tip"
  shows "yields (case rootp t of None \<Rightarrow> Some s | Some x \<Rightarrow> f x) s (plug c t')"
  using assms by (cases t) (auto intro: yields_Some)

lemma size_plug: "size (plug c t) = length (cpre c) + size t + length (cpost c)"
  using length_addrs [of "plug c t"] length_addrs [of t] by (simp del: length_addrs)

lemma wt_ok_plug: "wt_ok (plug c t) = (wt_ok t \<and> ctx_wt c (wt t))"
  by (induction c t rule: plug.induct) auto

lemma wt_inv_plugD:
  assumes "wt_inv (plug c t)"
  shows "wt_inv t" and "ctx_wt c (wt t)"
  using assms by (auto simp: wt_inv_def wt_ok_plug size_plug)

lemma repr_plug_upd_node:
  assumes "repr s (plug c (Nd l a k v w r))"
  shows "repr (s\<lparr>heap := (heap s)(a \<mapsto>
      \<lparr>key = k', datum = v', parent = ctxp c, llink = rootp l, rlink = rootp r, weight = w'\<rparr>)\<rparr>)
    (plug c (Nd l a k' v' w' r))"
proof -
  note D = repr_plugD [OF assms]
  have "rootp (plug c (Nd l a k' v' w' r)) = root s"
    by (simp add: D(4) rootp_plug split: list.splits)
  with D(1,2,3) show ?thesis by (auto simp: repr_def tree_at_plug)
qed

lemma yields_node_upd:
  assumes r: "repr s (plug c (Nd l a k v w r))"
    and f: "f \<lparr>key = k, datum = v, parent = ctxp c, llink = rootp l, rlink = rootp r, weight = w\<rparr>
      = \<lparr>key = k', datum = v', parent = ctxp c, llink = rootp l, rlink = rootp r, weight = w'\<rparr>"
  shows "yields (node_upd a f s) s (plug c (Nd l a k' v' w' r))"
proof -
  let ?h = "(heap s)(a \<mapsto>
    \<lparr>key = k', datum = v', parent = ctxp c, llink = rootp l, rlink = rootp r, weight = w'\<rparr>)"
  note n = repr_plug_node [OF r]
  from repr_plug_upd_node [OF r, of k' v' w']
  have r': "repr (s\<lparr>heap := ?h\<rparr>) (plug c (Nd l a k' v' w' r))" .
  show ?thesis
  proof (rule yieldsI [where h = ?h])
    show "node_upd a f s = Some (s\<lparr>root := rootp (plug c (Nd l a k' v' w' r)), heap := ?h\<rparr>)"
      using reprD(1) [OF r'] n by (simp add: f)
  qed (use r' n in \<open>auto simp: repr_def\<close>)
qed

section \<open>Lemmas: the invariant\<close>

lemma pr_invD:
  assumes "pr_inv s t"
  shows "repr s t" and "wt_inv t" and "total_cmp (key_cmp s)" and "sorted_by (key_cmp s) (entries t)"
    and "count s = of_nat (size t)" and "dom (heap s) = set (addrs t)"
  using assms by (simp_all add: pr_inv_def)

lemma pr_invI:
  "repr s t \<Longrightarrow> wt_inv t \<Longrightarrow> total_cmp (key_cmp s) \<Longrightarrow> sorted_by (key_cmp s) (entries t) \<Longrightarrow>
   count s = of_nat (size t) \<Longrightarrow> dom (heap s) = set (addrs t) \<Longrightarrow> pr_inv s t"
  by (simp add: pr_inv_def)

section \<open>Lemmas: every tree with distinct addresses is represented\<close>

lemma dom_heap_of [simp]: "dom (heap_of par t) = set (addrs t)"
  by (induction t arbitrary: par) auto

lemma heap_of_SomeD: "heap_of par t a = Some n \<Longrightarrow> a \<in> set (addrs t)"
  using dom_heap_of [of par t] by blast

lemma tree_at_heap_of: "distinct (addrs t) \<Longrightarrow> tree_at (heap_of par t) par t"
proof (induction t arbitrary: par)
  case (Nd l a k v w r)
  have "tree_at (heap_of (Some a) l ++ heap_of (Some a) r) (Some a) l
      = tree_at (heap_of (Some a) l) (Some a) l"
    using Nd.prems by (intro tree_at_cong) (auto simp: map_add_def dest: heap_of_SomeD split: option.splits)
  moreover have "tree_at (heap_of (Some a) l ++ heap_of (Some a) r) (Some a) r
      = tree_at (heap_of (Some a) r) (Some a) r"
    using Nd.prems by (intro tree_at_cong) (auto simp: map_add_def dest: heap_of_SomeD split: option.splits)
  ultimately show ?case using Nd by (auto simp del: fun_upd_apply simp add: fun_upd_same)
qed simp

lemma state_of_fields [simp]:
  "root (state_of c d t) = rootp t" "count (state_of c d t) = of_nat (size t)"
  "key_cmp (state_of c d t) = c" "del_func (state_of c d t) = d"
  "heap (state_of c d t) = heap_of None t" "freed (state_of c d t) = []"
  by (simp_all add: state_of_def)

lemma repr_state_of: "distinct (addrs t) \<Longrightarrow> repr (state_of c d t) t"
  by (simp add: repr_def tree_at_heap_of)

lemma pr_inv_state_of:
  "distinct (addrs t) \<Longrightarrow> wt_inv t \<Longrightarrow> total_cmp c \<Longrightarrow> sorted_by c (entries t) \<Longrightarrow>
   pr_inv (state_of c d t) t"
  by (simp add: pr_inv_def repr_state_of)

end
