(* ===== verification/PR_Rotate.thy ===== *)
theory PR_Rotate
  imports PR_Tree
begin

text \<open>
  The rotation primitives \<^verbatim>\<open>rot_left\<close> and \<^verbatim>\<open>rot_right\<close> of \<^verbatim>\<open>pr_tree.c\<close>,
  statement by statement on the heap, their pure counterparts \<open>rotl\<close> and
  \<open>rotr\<close> on labelled trees, and the refinement between the two: executed at a
  node anywhere in a represented tree, the C rotation returns and leaves a heap
  that represents the tree with that subtree rotated, parent links and the
  parent's child slot (or \<^verbatim>\<open>tree->root\<close>) included.
\<close>

section \<open>The C rotations\<close>

definition rot_left :: "('k, 'v) pr_state \<Rightarrow> addr \<Rightarrow> ('k, 'v) pr_state option" where
  "rot_left s node = do {
     n \<leftarrow> heap s node;
     rl \<leftarrow> rlink n;
     rn \<leftarrow> heap s rl;
     s1 \<leftarrow> node_upd node (\<lambda>x. x\<lparr>rlink := llink rn\<rparr>) s;
     rn1 \<leftarrow> heap s1 rl;
     s2 \<leftarrow> link_parent (llink rn1) (Some node) s1;
     n2 \<leftarrow> heap s2 node;
     s3 \<leftarrow> node_upd rl (\<lambda>x. x\<lparr>parent := parent n2\<rparr>) s2;
     s4 \<leftarrow> replace_child (parent n2) node (Some rl) s3;
     s5 \<leftarrow> node_upd rl (\<lambda>x. x\<lparr>llink := Some node\<rparr>) s4;
     s6 \<leftarrow> node_upd node (\<lambda>x. x\<lparr>parent := Some rl\<rparr>) s5;
     s7 \<leftarrow> REWEIGH node s6;
     REWEIGH rl s7
   }"

definition rot_right :: "('k, 'v) pr_state \<Rightarrow> addr \<Rightarrow> ('k, 'v) pr_state option" where
  "rot_right s node = do {
     n \<leftarrow> heap s node;
     ll \<leftarrow> llink n;
     ln \<leftarrow> heap s ll;
     s1 \<leftarrow> node_upd node (\<lambda>x. x\<lparr>llink := rlink ln\<rparr>) s;
     ln1 \<leftarrow> heap s1 ll;
     s2 \<leftarrow> link_parent (rlink ln1) (Some node) s1;
     n2 \<leftarrow> heap s2 node;
     s3 \<leftarrow> node_upd ll (\<lambda>x. x\<lparr>parent := parent n2\<rparr>) s2;
     s4 \<leftarrow> replace_child (parent n2) node (Some ll) s3;
     s5 \<leftarrow> node_upd ll (\<lambda>x. x\<lparr>rlink := Some node\<rparr>) s4;
     s6 \<leftarrow> node_upd node (\<lambda>x. x\<lparr>parent := Some ll\<rparr>) s5;
     s7 \<leftarrow> REWEIGH node s6;
     REWEIGH ll s7
   }"

section \<open>The rotations on labelled trees\<close>

fun rotl :: "('k, 'v) ltree \<Rightarrow> ('k, 'v) ltree" where
  "rotl (Nd A b kb vb wb (Nd C d kd vd wd E)) =
     Nd (Nd A b kb vb (wt A + wt C) C) d kd vd (wt A + wt C + wt E) E"
| "rotl t = t"

fun rotr :: "('k, 'v) ltree \<Rightarrow> ('k, 'v) ltree" where
  "rotr (Nd (Nd A b kb vb wb C) d kd vd wd E) =
     Nd A b kb vb (wt A + (wt C + wt E)) (Nd C d kd vd (wt C + wt E) E)"
| "rotr t = t"

section \<open>Lemmas: the rotations preserve the abstract content\<close>

lemma addrs_rotl [simp]: "addrs (rotl t) = addrs t"
  by (induction t rule: rotl.induct) auto

lemma addrs_rotr [simp]: "addrs (rotr t) = addrs t"
  by (induction t rule: rotr.induct) auto

lemma entries_rotl [simp]: "entries (rotl t) = entries t"
  by (induction t rule: rotl.induct) auto

lemma entries_rotr [simp]: "entries (rotr t) = entries t"
  by (induction t rule: rotr.induct) auto

lemma size_rotl [simp]: "size (rotl t) = size t"
  by (induction t rule: rotl.induct) auto

lemma size_rotr [simp]: "size (rotr t) = size t"
  by (induction t rule: rotr.induct) auto

lemma wt_ok_rotl: "wt_ok t \<Longrightarrow> wt_ok (rotl t) \<and> wt (rotl t) = wt t"
  by (induction t rule: rotl.induct) (auto simp: add.assoc)

lemma wt_ok_rotr: "wt_ok t \<Longrightarrow> wt_ok (rotr t) \<and> wt (rotr t) = wt t"
  by (induction t rule: rotr.induct) (auto simp: add.assoc)

lemma rotr_rotl: "wt_ok (Nd A b kb vb wb (Nd C d kd vd wd E)) \<Longrightarrow>
  rotr (rotl (Nd A b kb vb wb (Nd C d kd vd wd E))) = Nd A b kb vb wb (Nd C d kd vd wd E)"
  by (simp add: add.assoc)

section \<open>Lemmas: execution of a rotation on a known neighbourhood\<close>

lemma rot_left_exec:
  assumes b: "heap s b = Some \<lparr>key = kb, datum = vb, parent = par, llink = pa, rlink = Some d, weight = wb\<rparr>"
    and d: "heap s d = Some \<lparr>key = kd, datum = vd, parent = Some b, llink = pc, rlink = pe, weight = wd\<rparr>"
    and ne: "b \<noteq> d" "pa \<noteq> Some b" "pa \<noteq> Some d" "pc \<noteq> Some b" "pc \<noteq> Some d"
      "pe \<noteq> Some b" "pe \<noteq> Some d" "par \<noteq> Some b" "par \<noteq> Some d" "par = None \<or> par \<noteq> pc"
    and al: "pc = None \<or> pc \<in> Some ` dom (heap s)" "par = None \<or> par \<in> Some ` dom (heap s)"
    and w: "wgt (heap s) pa = Some wa" "wgt (heap s) pc = Some wc" "wgt (heap s) pe = Some we"
  shows "rot_left s b = Some (s\<lparr>root := (if par = None then Some d else root s),
      heap := (relink (reparent (heap s) pc (Some b)) par b (Some d))
        (b \<mapsto> \<lparr>key = kb, datum = vb, parent = Some d, llink = pa, rlink = pc, weight = wa + wc\<rparr>,
         d \<mapsto> \<lparr>key = kd, datum = vd, parent = par, llink = Some b, rlink = pe, weight = wa + wc + we\<rparr>)\<rparr>)"
  using assms
  apply (simp add: rot_left_def link_parent_eq replace_child_eq REWEIGH_def)
  apply (auto intro!: pr_state.equality simp: fun_eq_iff relink_def reparent_def)
  done

lemma rot_right_exec:
  assumes d: "heap s d = Some \<lparr>key = kd, datum = vd, parent = par, llink = Some b, rlink = pe, weight = wd\<rparr>"
    and b: "heap s b = Some \<lparr>key = kb, datum = vb, parent = Some d, llink = pa, rlink = pc, weight = wb\<rparr>"
    and ne: "b \<noteq> d" "pa \<noteq> Some b" "pa \<noteq> Some d" "pc \<noteq> Some b" "pc \<noteq> Some d"
      "pe \<noteq> Some b" "pe \<noteq> Some d" "par \<noteq> Some b" "par \<noteq> Some d" "par = None \<or> par \<noteq> pc"
    and al: "pc = None \<or> pc \<in> Some ` dom (heap s)" "par = None \<or> par \<in> Some ` dom (heap s)"
    and w: "wgt (heap s) pa = Some wa" "wgt (heap s) pc = Some wc" "wgt (heap s) pe = Some we"
  shows "rot_right s d = Some (s\<lparr>root := (if par = None then Some b else root s),
      heap := (relink (reparent (heap s) pc (Some d)) par d (Some b))
        (d \<mapsto> \<lparr>key = kd, datum = vd, parent = Some b, llink = pc, rlink = pe, weight = wc + we\<rparr>,
         b \<mapsto> \<lparr>key = kb, datum = vb, parent = par, llink = pa, rlink = Some d, weight = wa + (wc + we)\<rparr>)\<rparr>)"
  using assms
  apply (simp add: rot_right_def link_parent_eq replace_child_eq REWEIGH_def)
  apply (auto intro!: pr_state.equality simp: fun_eq_iff relink_def reparent_def)
  done

section \<open>Refinement\<close>

lemma rot_left_refines:
  assumes "repr s (plug c (Nd A b kb vb wb (Nd C d kd vd wd E)))"
  shows "yields (rot_left s b) s (plug c (rotl (Nd A b kb vb wb (Nd C d kd vd wd E))))"
proof -
  let ?h = "heap s"
  note D = repr_plugD [OF assms]
  from D(2) have hb: "?h b = Some \<lparr>key = kb, datum = vb, parent = ctxp c, llink = rootp A, rlink = Some d, weight = wb\<rparr>"
    and hd: "?h d = Some \<lparr>key = kd, datum = vd, parent = Some b, llink = rootp C, rlink = rootp E, weight = wd\<rparr>"
    and tA: "tree_at ?h (Some b) A" and tC: "tree_at ?h (Some d) C" and tE: "tree_at ?h (Some d) E"
    by simp_all
  from D(3) have ne: "b \<noteq> d" "rootp A \<noteq> Some b" "rootp A \<noteq> Some d" "rootp C \<noteq> Some b"
    "rootp C \<noteq> Some d" "rootp E \<noteq> Some b" "rootp E \<noteq> Some d" "ctxp c \<noteq> Some b" "ctxp c \<noteq> Some d"
    by auto
  from D(3) have sep: "rootp C \<notin> Some ` set (addrs A)" "rootp C \<notin> Some ` set (addrs E)"
    "rootp C \<notin> Some ` (set (cpre c) \<union> set (cpost c))"
    "ctxp c \<notin> Some ` set (addrs A)" "ctxp c \<notin> Some ` set (addrs C)" "ctxp c \<notin> Some ` set (addrs E)"
    by (auto dest!: rootp_in_addrs ctxp_in_cpre_cpost)
  from D(3) have dist: "distinct (addrs C)" "distinct (cpre c @ cpost c)"
    "b \<notin> set (addrs A)" "b \<notin> set (addrs C)" "b \<notin> set (addrs E)" "b \<notin> set (cpre c)" "b \<notin> set (cpost c)"
    "d \<notin> set (addrs A)" "d \<notin> set (addrs C)" "d \<notin> set (addrs E)" "d \<notin> set (cpre c)" "d \<notin> set (cpost c)"
    by auto
  have pc: "ctxp c = None \<or> ctxp c \<noteq> rootp C"
    using sep(5) by (cases C) auto
  have al: "rootp C = None \<or> rootp C \<in> Some ` dom ?h" "ctxp c = None \<or> ctxp c \<in> Some ` dom ?h"
    by (rule tree_at_rootp_dom [OF tC], rule ctx_at_ctxp_dom [OF D(1)])
  note ex = rot_left_exec [OF hb hd ne pc al wgt_tree_at [OF tA] wgt_tree_at [OF tC] wgt_tree_at [OF tE]]
  from D(1) have cx: "ctx_at ?h c (Some b)" by simp
  have cx': "ctx_at (relink (reparent ?h (rootp C) (Some b)) (ctxp c) b (Some d)) c (Some d)"
    by (rule ctx_at_relink) (insert dist, simp_all add: sep cx)
  have root: "rootp (plug c (rotl (Nd A b kb vb wb (Nd C d kd vd wd E))))
      = (if ctxp c = None then Some d else root s)"
    by (rule root_plug_replace [OF D(4)]) simp
  show ?thesis
  proof (rule yieldsI)
    show "rot_left s b = Some (s\<lparr>root := rootp (plug c (rotl (Nd A b kb vb wb (Nd C d kd vd wd E)))),
        heap := (relink (reparent ?h (rootp C) (Some b)) (ctxp c) b (Some d))
          (b \<mapsto> \<lparr>key = kb, datum = vb, parent = Some d, llink = rootp A, rlink = rootp C, weight = wt A + wt C\<rparr>,
           d \<mapsto> \<lparr>key = kd, datum = vd, parent = ctxp c, llink = Some b, rlink = rootp E, weight = wt A + wt C + wt E\<rparr>)\<rparr>)"
      unfolding ex root ..
    show "tree_at ((relink (reparent ?h (rootp C) (Some b)) (ctxp c) b (Some d))
          (b \<mapsto> \<lparr>key = kb, datum = vb, parent = Some d, llink = rootp A, rlink = rootp C, weight = wt A + wt C\<rparr>,
           d \<mapsto> \<lparr>key = kd, datum = vd, parent = ctxp c, llink = Some b, rlink = rootp E, weight = wt A + wt C + wt E\<rparr>))
        None (plug c (rotl (Nd A b kb vb wb (Nd C d kd vd wd E))))"
      by (simp add: tree_at_plug dist sep ne tA tE cx' tree_at_reparent_root [OF tC])
    show "distinct (addrs (plug c (rotl (Nd A b kb vb wb (Nd C d kd vd wd E)))))"
      using D(3) by simp
  qed (use hb hd in \<open>auto simp: insert_absorb domI\<close>)
qed

lemma rot_right_refines:
  assumes "repr s (plug c (Nd (Nd A b kb vb wb C) d kd vd wd E))"
  shows "yields (rot_right s d) s (plug c (rotr (Nd (Nd A b kb vb wb C) d kd vd wd E)))"
proof -
  let ?h = "heap s"
  note D = repr_plugD [OF assms]
  from D(2) have hd: "?h d = Some \<lparr>key = kd, datum = vd, parent = ctxp c, llink = Some b, rlink = rootp E, weight = wd\<rparr>"
    and hb: "?h b = Some \<lparr>key = kb, datum = vb, parent = Some d, llink = rootp A, rlink = rootp C, weight = wb\<rparr>"
    and tA: "tree_at ?h (Some b) A" and tC: "tree_at ?h (Some b) C" and tE: "tree_at ?h (Some d) E"
    by simp_all
  from D(3) have ne: "b \<noteq> d" "rootp A \<noteq> Some b" "rootp A \<noteq> Some d" "rootp C \<noteq> Some b"
    "rootp C \<noteq> Some d" "rootp E \<noteq> Some b" "rootp E \<noteq> Some d" "ctxp c \<noteq> Some b" "ctxp c \<noteq> Some d"
    by auto
  from D(3) have sep: "rootp C \<notin> Some ` set (addrs A)" "rootp C \<notin> Some ` set (addrs E)"
    "rootp C \<notin> Some ` (set (cpre c) \<union> set (cpost c))"
    "ctxp c \<notin> Some ` set (addrs A)" "ctxp c \<notin> Some ` set (addrs C)" "ctxp c \<notin> Some ` set (addrs E)"
    by (auto dest!: rootp_in_addrs ctxp_in_cpre_cpost)
  from D(3) have dist: "distinct (addrs C)" "distinct (cpre c @ cpost c)"
    "b \<notin> set (addrs A)" "b \<notin> set (addrs C)" "b \<notin> set (addrs E)" "b \<notin> set (cpre c)" "b \<notin> set (cpost c)"
    "d \<notin> set (addrs A)" "d \<notin> set (addrs C)" "d \<notin> set (addrs E)" "d \<notin> set (cpre c)" "d \<notin> set (cpost c)"
    by auto
  have pc: "ctxp c = None \<or> ctxp c \<noteq> rootp C"
    using sep(5) by (cases C) auto
  have al: "rootp C = None \<or> rootp C \<in> Some ` dom ?h" "ctxp c = None \<or> ctxp c \<in> Some ` dom ?h"
    by (rule tree_at_rootp_dom [OF tC], rule ctx_at_ctxp_dom [OF D(1)])
  note ex = rot_right_exec [OF hd hb ne pc al wgt_tree_at [OF tA] wgt_tree_at [OF tC] wgt_tree_at [OF tE]]
  from D(1) have cx: "ctx_at ?h c (Some d)" by simp
  have cx': "ctx_at (relink (reparent ?h (rootp C) (Some d)) (ctxp c) d (Some b)) c (Some b)"
    by (rule ctx_at_relink) (insert dist, simp_all add: sep cx)
  have root: "rootp (plug c (rotr (Nd (Nd A b kb vb wb C) d kd vd wd E)))
      = (if ctxp c = None then Some b else root s)"
    by (rule root_plug_replace [OF D(4)]) simp
  show ?thesis
  proof (rule yieldsI)
    show "rot_right s d = Some (s\<lparr>root := rootp (plug c (rotr (Nd (Nd A b kb vb wb C) d kd vd wd E))),
        heap := (relink (reparent ?h (rootp C) (Some d)) (ctxp c) d (Some b))
          (d \<mapsto> \<lparr>key = kd, datum = vd, parent = Some b, llink = rootp C, rlink = rootp E, weight = wt C + wt E\<rparr>,
           b \<mapsto> \<lparr>key = kb, datum = vb, parent = ctxp c, llink = rootp A, rlink = Some d, weight = wt A + (wt C + wt E)\<rparr>)\<rparr>)"
      unfolding ex root ..
    show "tree_at ((relink (reparent ?h (rootp C) (Some d)) (ctxp c) d (Some b))
          (d \<mapsto> \<lparr>key = kd, datum = vd, parent = Some b, llink = rootp C, rlink = rootp E, weight = wt C + wt E\<rparr>,
           b \<mapsto> \<lparr>key = kb, datum = vb, parent = ctxp c, llink = rootp A, rlink = Some d, weight = wt A + (wt C + wt E)\<rparr>))
        None (plug c (rotr (Nd (Nd A b kb vb wb C) d kd vd wd E)))"
      by (simp add: tree_at_plug dist sep ne ne(1) [symmetric] tA tE cx' tree_at_reparent_root [OF tC])
    show "distinct (addrs (plug c (rotr (Nd (Nd A b kb vb wb C) d kd vd wd E))))"
      using D(3) by simp
  qed (use hb hd in \<open>auto simp: insert_absorb domI\<close>)
qed

section \<open>Properties\<close>

text \<open>Two nodes with keys 10 and 20, leaning right and leaning left.\<close>

definition lean_r :: "(int, nat) ltree" where
  "lean_r = Nd Tip 0 10 1 3 (Nd Tip 1 20 2 2 Tip)"

definition lean_l :: "(int, nat) ltree" where
  "lean_l = Nd (Nd Tip 1 10 1 2 Tip) 0 20 2 3 Tip"

text \<open>
  C20 (refinement): \<^verbatim>\<open>rot_left\<close> at a node \<open>b\<close> with right child \<open>d\<close>, anywhere in a
  represented tree, returns; \<open>d\<close> takes the place of \<open>b\<close> below \<open>b\<close>'s former
  parent (or in \<^verbatim>\<open>tree->root\<close>), \<open>b\<close> becomes the left child of \<open>d\<close> and the
  former left subtree of \<open>d\<close> the right subtree of \<open>b\<close>; the two weights are
  recomputed from the children, all parent pointers are consistent again, the
  in-order entries are unchanged and no node is allocated or freed.
\<close>

theorem rot_left_correct:
  assumes "repr s (plug c (Nd A b kb vb wb (Nd C d kd vd wd E)))"
  shows "\<exists>s'. rot_left s b = Some s'
    \<and> repr s' (plug c (Nd (Nd A b kb vb (wt A + wt C) C) d kd vd (wt A + wt C + wt E) E))
    \<and> entries (plug c (Nd (Nd A b kb vb (wt A + wt C) C) d kd vd (wt A + wt C + wt E) E))
        = entries (plug c (Nd A b kb vb wb (Nd C d kd vd wd E)))
    \<and> dom (heap s') = dom (heap s) \<and> count s' = count s \<and> freed s' = freed s"
proof -
  from rot_left_refines [OF assms] obtain s' where s': "rot_left s b = Some s'"
    by (rule yieldsE)
  from yields_fields [OF rot_left_refines [OF assms] s'] s' show ?thesis by simp
qed

theorem rot_left_correct_witness:
  "repr (state_of int_cmp False lean_r) (plug [] (Nd Tip 0 10 1 3 (Nd Tip 1 20 2 2 Tip)))
   \<and> (\<exists>s'. rot_left (state_of int_cmp False lean_r) 0 = Some s'
        \<and> repr s' (Nd (Nd Tip 0 10 1 2 Tip) 1 20 2 3 Tip))"
  using rot_left_correct [of "state_of int_cmp False lean_r" "[]" Tip 0 10 1 3 Tip 1 20 2 2 Tip]
    repr_state_of [of lean_r int_cmp False]
  by (auto simp: lean_r_def)

text \<open>
  C21 (refinement): \<^verbatim>\<open>rot_right\<close> at a node \<open>d\<close> with left child \<open>b\<close> is the mirror
  image: \<open>b\<close> takes the place of \<open>d\<close>, \<open>d\<close> becomes the right child of \<open>b\<close> and
  the former right subtree of \<open>b\<close> the left subtree of \<open>d\<close>, with the same
  guarantees.
\<close>

theorem rot_right_correct:
  assumes "repr s (plug c (Nd (Nd A b kb vb wb C) d kd vd wd E))"
  shows "\<exists>s'. rot_right s d = Some s'
    \<and> repr s' (plug c (Nd A b kb vb (wt A + (wt C + wt E)) (Nd C d kd vd (wt C + wt E) E)))
    \<and> entries (plug c (Nd A b kb vb (wt A + (wt C + wt E)) (Nd C d kd vd (wt C + wt E) E)))
        = entries (plug c (Nd (Nd A b kb vb wb C) d kd vd wd E))
    \<and> dom (heap s') = dom (heap s) \<and> count s' = count s \<and> freed s' = freed s"
proof -
  from rot_right_refines [OF assms] obtain s' where s': "rot_right s d = Some s'"
    by (rule yieldsE)
  from yields_fields [OF rot_right_refines [OF assms] s'] s' show ?thesis by simp
qed

theorem rot_right_correct_witness:
  "repr (state_of int_cmp False lean_l) (plug [] (Nd (Nd Tip 1 10 1 2 Tip) 0 20 2 3 Tip))
   \<and> (\<exists>s'. rot_right (state_of int_cmp False lean_l) 0 = Some s'
        \<and> repr s' (Nd Tip 1 10 1 3 (Nd Tip 0 20 2 2 Tip)))"
  using rot_right_correct [of "state_of int_cmp False lean_l" "[]" Tip 1 10 1 2 Tip 0 20 2 3 Tip]
    repr_state_of [of lean_l int_cmp False]
  by (auto simp: lean_l_def)

end
