(* ===== verification/PR_Fixup.thy ===== *)
theory PR_Fixup
  imports PR_Rotate
begin

text \<open>
  The rebalancing pass of \<^verbatim>\<open>pr_tree.c\<close>: the function \<^verbatim>\<open>fixup\<close> and its macro
  expansion \<^verbatim>\<open>FIXUP\<close>. Both are loops over a heap that need not be a tree, so
  they are defined in the option monad with no termination argument; that they
  return on every represented tree is a theorem.

  \<open>rebal\<close> is the same algorithm on labelled trees. After a single rotation the C
  code keeps examining the \<^emph>\<open>same node\<close>, which the rotation has moved one
  level down; the new subtree root is not examined again. In \<open>rebal\<close> this shows
  as a recursive call on a child of the result. After a double rotation the
  nested call is made on the far grandchild (\<^verbatim>\<open>temp->rlink\<close>, respectively
  \<^verbatim>\<open>temp->llink\<close>), as the source does.
\<close>

section \<open>The C function and the macro\<close>

partial_function (option) fixup :: "('k, 'v) pr_state \<Rightarrow> addr \<Rightarrow> ('k, 'v) pr_state option" where
  "fixup s node = do {
     n \<leftarrow> heap s node;
     wl \<leftarrow> WEIGHT s (llink n);
     wr \<leftarrow> WEIGHT s (rlink n);
     if wr > wl then do {
       r \<leftarrow> rlink n;
       rn \<leftarrow> heap s r;
       wrr \<leftarrow> WEIGHT s (rlink rn);
       if wrr > wl then do {
         s1 \<leftarrow> rot_left s node;
         fixup s1 node }
       else do {
         wrl \<leftarrow> WEIGHT s (llink rn);
         if wrl > wl then do {
           s1 \<leftarrow> rot_right s r;
           s2 \<leftarrow> rot_left s1 node;
           tn \<leftarrow> heap s2 r;
           s3 \<leftarrow> (case rlink tn of None \<Rightarrow> Some s2 | Some x \<Rightarrow> fixup s2 x);
           fixup s3 node }
         else Some s } }
     else if wl > wr then do {
       l \<leftarrow> llink n;
       ln \<leftarrow> heap s l;
       wll \<leftarrow> WEIGHT s (llink ln);
       if wll > wr then do {
         s1 \<leftarrow> rot_right s node;
         fixup s1 node }
       else do {
         wlr \<leftarrow> WEIGHT s (rlink ln);
         if wlr > wr then do {
           s1 \<leftarrow> rot_left s l;
           s2 \<leftarrow> rot_right s1 node;
           tn \<leftarrow> heap s2 l;
           s3 \<leftarrow> (case llink tn of None \<Rightarrow> Some s2 | Some x \<Rightarrow> fixup s2 x);
           fixup s3 node }
         else Some s } }
     else Some s
   }"

partial_function (option) FIXUP :: "('k, 'v) pr_state \<Rightarrow> addr \<Rightarrow> ('k, 'v) pr_state option" where
  "FIXUP s node = do {
     n \<leftarrow> heap s node;
     wl \<leftarrow> WEIGHT s (llink n);
     wr \<leftarrow> WEIGHT s (rlink n);
     if wr > wl then do {
       r \<leftarrow> rlink n;
       rn \<leftarrow> heap s r;
       wrr \<leftarrow> WEIGHT s (rlink rn);
       if wrr > wl then do {
         s1 \<leftarrow> rot_left s node;
         FIXUP s1 node }
       else do {
         wrl \<leftarrow> WEIGHT s (llink rn);
         if wrl > wl then do {
           s1 \<leftarrow> rot_right s r;
           s2 \<leftarrow> rot_left s1 node;
           tn \<leftarrow> heap s2 r;
           s3 \<leftarrow> (case rlink tn of None \<Rightarrow> Some s2 | Some x \<Rightarrow> fixup s2 x);
           FIXUP s3 node }
         else Some s } }
     else if wl > wr then do {
       l \<leftarrow> llink n;
       ln \<leftarrow> heap s l;
       wll \<leftarrow> WEIGHT s (llink ln);
       if wll > wr then do {
         s1 \<leftarrow> rot_right s node;
         FIXUP s1 node }
       else do {
         wlr \<leftarrow> WEIGHT s (rlink ln);
         if wlr > wr then do {
           s1 \<leftarrow> rot_left s l;
           s2 \<leftarrow> rot_right s1 node;
           tn \<leftarrow> heap s2 l;
           s3 \<leftarrow> (case llink tn of None \<Rightarrow> Some s2 | Some x \<Rightarrow> fixup s2 x);
           FIXUP s3 node }
         else Some s } }
     else Some s
   }"

section \<open>The algorithm on labelled trees\<close>

fun rebal :: "('k, 'v) ltree \<Rightarrow> ('k, 'v) ltree" where
  "rebal Tip = Tip"
| "rebal (Nd l n k v w r) =
     (if wt l < wt r then
        (case r of
           Tip \<Rightarrow> Nd l n k v w r
         | Nd rl d kd vd wd rr \<Rightarrow>
             if wt l < wt rr then
               Nd (rebal (Nd l n k v (wt l + wt rl) rl)) d kd vd (wt l + wt rl + wt rr) rr
             else if wt l < wt rl then
               (case rl of
                  Tip \<Rightarrow> Nd l n k v w r
                | Nd c1 c kc vc wc c2 \<Rightarrow>
                    Nd (rebal (Nd l n k v (wt l + wt c1) c1)) c kc vc
                       (wt l + wt c1 + (wt c2 + wt rr))
                       (Nd c2 d kd vd (wt c2 + wt rr) (rebal rr)))
             else Nd l n k v w r)
      else if wt r < wt l then
        (case l of
           Tip \<Rightarrow> Nd l n k v w r
         | Nd ll b kb vb wb lr \<Rightarrow>
             if wt r < wt ll then
               Nd ll b kb vb (wt ll + (wt lr + wt r)) (rebal (Nd lr n k v (wt lr + wt r) r))
             else if wt r < wt lr then
               (case lr of
                  Tip \<Rightarrow> Nd l n k v w r
                | Nd c1 c kc vc wc c2 \<Rightarrow>
                    Nd (Nd (rebal ll) b kb vb (wt ll + wt c1) c1) c kc vc
                       (wt ll + wt c1 + (wt c2 + wt r))
                       (rebal (Nd c2 n k v (wt c2 + wt r) r)))
             else Nd l n k v w r)
      else Nd l n k v w r)"

section \<open>Branch equations and the induction rule of \<open>rebal\<close>\<close>

declare rebal.simps(2) [simp del]

lemma rebal_LL:
  "wt l < wd \<Longrightarrow> wt l < wt rr \<Longrightarrow>
   rebal (Nd l n k v w (Nd rl d kd vd wd rr)) =
     Nd (rebal (Nd l n k v (wt l + wt rl) rl)) d kd vd (wt l + wt rl + wt rr) rr"
  by (simp add: rebal.simps(2))

lemma rebal_RL:
  "wt l < wd \<Longrightarrow> \<not> wt l < wt rr \<Longrightarrow> wt l < wc \<Longrightarrow>
   rebal (Nd l n k v w (Nd (Nd c1 c kc vc wc c2) d kd vd wd rr)) =
     Nd (rebal (Nd l n k v (wt l + wt c1) c1)) c kc vc (wt l + wt c1 + (wt c2 + wt rr))
        (Nd c2 d kd vd (wt c2 + wt rr) (rebal rr))"
  by (simp add: rebal.simps(2))

lemma rebal_RR:
  "\<not> wb < wt r \<Longrightarrow> wt r < wb \<Longrightarrow> wt r < wt ll \<Longrightarrow>
   rebal (Nd (Nd ll b kb vb wb lr) n k v w r) =
     Nd ll b kb vb (wt ll + (wt lr + wt r)) (rebal (Nd lr n k v (wt lr + wt r) r))"
  by (simp add: rebal.simps(2))

lemma rebal_LR:
  "\<not> wb < wt r \<Longrightarrow> wt r < wb \<Longrightarrow> \<not> wt r < wt ll \<Longrightarrow> wt r < wc \<Longrightarrow>
   rebal (Nd (Nd ll b kb vb wb (Nd c1 c kc vc wc c2)) n k v w r) =
     Nd (Nd (rebal ll) b kb vb (wt ll + wt c1) c1) c kc vc (wt ll + wt c1 + (wt c2 + wt r))
        (rebal (Nd c2 n k v (wt c2 + wt r) r))"
  by (simp add: rebal.simps(2))

lemma rebal_bal_right:
  "wt l < wd \<Longrightarrow> \<not> wt l < wt rr \<Longrightarrow> \<not> wt l < wt rl \<Longrightarrow>
   rebal (Nd l n k v w (Nd rl d kd vd wd rr)) = Nd l n k v w (Nd rl d kd vd wd rr)"
  by (simp add: rebal.simps(2))

lemma rebal_bal_left:
  "\<not> wb < wt r \<Longrightarrow> wt r < wb \<Longrightarrow> \<not> wt r < wt ll \<Longrightarrow> \<not> wt r < wt lr \<Longrightarrow>
   rebal (Nd (Nd ll b kb vb wb lr) n k v w r) = Nd (Nd ll b kb vb wb lr) n k v w r"
  by (simp add: rebal.simps(2))

lemma rebal_bal_eq:
  "\<not> wt l < wt r \<Longrightarrow> \<not> wt r < wt l \<Longrightarrow> rebal (Nd l n k v w r) = Nd l n k v w r"
  by (simp add: rebal.simps(2))


lemma rebal_cases [consumes 1, case_names LL RL balR RR LR balL eq]:
  assumes inv: "wt_inv (Nd l n k v w r)"
  obtains
    (LL) rl d kd vd wd rr where "r = Nd rl d kd vd wd rr" "wt l < wd" "wt l < wt rr"
  | (RL) c1 c kc vc wc c2 d kd vd wd rr where "r = Nd (Nd c1 c kc vc wc c2) d kd vd wd rr"
      "wt l < wd" "\<not> wt l < wt rr" "wt l < wc"
  | (balR) rl d kd vd wd rr where "r = Nd rl d kd vd wd rr" "wt l < wd" "\<not> wt l < wt rr"
      "\<not> wt l < wt rl"
  | (RR) ll b kb vb wb lr where "l = Nd ll b kb vb wb lr" "\<not> wb < wt r" "wt r < wb" "wt r < wt ll"
  | (LR) ll b kb vb wb c1 c kc vc wc c2 where "l = Nd ll b kb vb wb (Nd c1 c kc vc wc c2)"
      "\<not> wb < wt r" "wt r < wb" "\<not> wt r < wt ll" "wt r < wc"
  | (balL) ll b kb vb wb lr where "l = Nd ll b kb vb wb lr" "\<not> wb < wt r" "wt r < wb"
      "\<not> wt r < wt ll" "\<not> wt r < wt lr"
  | (eq) "\<not> wt l < wt r" "\<not> wt r < wt l"
proof -
  note il = wt_inv_NdD(1) [OF inv] and ir = wt_inv_NdD(2) [OF inv]
  consider (R) "wt l < wt r" | (L) "\<not> wt l < wt r" "wt r < wt l" | (E) "\<not> wt l < wt r" "\<not> wt r < wt l"
    by blast
  then show thesis
  proof cases
    case R
    with il obtain rl d kd vd wd rr where r: "r = Nd rl d kd vd wd rr"
      by (cases r) auto
    note irl = wt_inv_NdD(1) [OF ir [unfolded r]]
    show thesis
    proof (cases "wt l < wt rr")
      case True
      with R r show thesis by (auto intro: LL)
    next
      case nrr: False
      show thesis
      proof (cases "wt l < wt rl")
        case True
        with il obtain c1 c kc vc wc c2 where "rl = Nd c1 c kc vc wc c2"
          by (cases rl) auto
        with R r nrr True show thesis by (auto intro: RL)
      next
        case False
        with R r nrr show thesis by (auto intro: balR)
      qed
    qed
  next
    case L
    with ir obtain ll b kb vb wb lr where l: "l = Nd ll b kb vb wb lr"
      by (cases l) auto
    show thesis
    proof (cases "wt r < wt ll")
      case True
      with L l show thesis by (auto intro: RR)
    next
      case nll: False
      show thesis
      proof (cases "wt r < wt lr")
        case True
        with ir obtain c1 c kc vc wc c2 where "lr = Nd c1 c kc vc wc c2"
          by (cases lr) auto
        with L l nll True show thesis by (auto intro: LR)
      next
        case False
        with L l nll show thesis by (auto intro: balL)
      qed
    qed
  next
    case E
    then show thesis by (rule eq)
  qed
qed


lemma rebal_induct [consumes 1, case_names Tip LL RL balR RR LR balL eq]:
  assumes inv: "wt_inv t"
    and Tip: "P Tip"
    and LL: "\<And>l n k v w rl d kd vd wd rr.
      \<lbrakk>wt_inv (Nd l n k v w (Nd rl d kd vd wd rr)); wt l < wd; wt l < wt rr;
       wt_inv (Nd l n k v (wt l + wt rl) rl); P (Nd l n k v (wt l + wt rl) rl)\<rbrakk>
      \<Longrightarrow> P (Nd l n k v w (Nd rl d kd vd wd rr))"
    and RL: "\<And>l n k v w c1 c kc vc wc c2 d kd vd wd rr.
      \<lbrakk>wt_inv (Nd l n k v w (Nd (Nd c1 c kc vc wc c2) d kd vd wd rr));
       wt l < wd; \<not> wt l < wt rr; wt l < wc;
       wt_inv (Nd l n k v (wt l + wt c1) c1); P (Nd l n k v (wt l + wt c1) c1); P rr\<rbrakk>
      \<Longrightarrow> P (Nd l n k v w (Nd (Nd c1 c kc vc wc c2) d kd vd wd rr))"
    and balR: "\<And>l n k v w rl d kd vd wd rr.
      \<lbrakk>wt_inv (Nd l n k v w (Nd rl d kd vd wd rr)); wt l < wd; \<not> wt l < wt rr; \<not> wt l < wt rl\<rbrakk>
      \<Longrightarrow> P (Nd l n k v w (Nd rl d kd vd wd rr))"
    and RR: "\<And>ll b kb vb wb lr n k v w r.
      \<lbrakk>wt_inv (Nd (Nd ll b kb vb wb lr) n k v w r); \<not> wb < wt r; wt r < wb; wt r < wt ll;
       wt_inv (Nd lr n k v (wt lr + wt r) r); P (Nd lr n k v (wt lr + wt r) r)\<rbrakk>
      \<Longrightarrow> P (Nd (Nd ll b kb vb wb lr) n k v w r)"
    and LR: "\<And>ll b kb vb wb c1 c kc vc wc c2 n k v w r.
      \<lbrakk>wt_inv (Nd (Nd ll b kb vb wb (Nd c1 c kc vc wc c2)) n k v w r);
       \<not> wb < wt r; wt r < wb; \<not> wt r < wt ll; wt r < wc;
       wt_inv (Nd c2 n k v (wt c2 + wt r) r); P ll; P (Nd c2 n k v (wt c2 + wt r) r)\<rbrakk>
      \<Longrightarrow> P (Nd (Nd ll b kb vb wb (Nd c1 c kc vc wc c2)) n k v w r)"
    and balL: "\<And>ll b kb vb wb lr n k v w r.
      \<lbrakk>wt_inv (Nd (Nd ll b kb vb wb lr) n k v w r); \<not> wb < wt r; wt r < wb;
       \<not> wt r < wt ll; \<not> wt r < wt lr\<rbrakk>
      \<Longrightarrow> P (Nd (Nd ll b kb vb wb lr) n k v w r)"
    and eq: "\<And>l n k v w r.
      \<lbrakk>wt_inv (Nd l n k v w r); \<not> wt l < wt r; \<not> wt r < wt l\<rbrakk> \<Longrightarrow> P (Nd l n k v w r)"
  shows "P t"
  using inv
proof (induction "size t" arbitrary: t rule: less_induct)
  case less
  show ?case
  proof (cases t)
    case Tip
    then show ?thesis by (simp add: assms(2))
  next
    case (Nd l n k v w r)
    note inv = less.prems [unfolded Nd]
    from inv have "P (Nd l n k v w r)"
    proof (cases rule: rebal_cases)
      case (LL rl d kd vd wd rr)
      have sub: "wt_inv (Nd l n k v (wt l + wt rl) rl)"
        using inv LL(1) by (auto simp: wt_inv_def)
      show ?thesis unfolding LL(1)
        by (rule assms(3) [OF inv [unfolded LL(1)] LL(2,3) sub less.hyps [OF _ sub]])
          (simp add: Nd LL(1))
    next
      case (RL c1 c kc vc wc c2 d kd vd wd rr)
      have sub: "wt_inv (Nd l n k v (wt l + wt c1) c1)" "wt_inv rr"
        using inv RL(1) by (auto simp: wt_inv_def)
      show ?thesis unfolding RL(1)
        by (rule assms(4) [OF inv [unfolded RL(1)] RL(2,3,4) sub(1)
              less.hyps [OF _ sub(1)] less.hyps [OF _ sub(2)]])
          (simp_all add: Nd RL(1))
    next
      case (balR rl d kd vd wd rr)
      show ?thesis unfolding balR(1)
        by (rule assms(5) [OF inv [unfolded balR(1)] balR(2,3,4)])
    next
      case (RR ll b kb vb wb lr)
      have sub: "wt_inv (Nd lr n k v (wt lr + wt r) r)"
        using inv RR(1) by (auto simp: wt_inv_def)
      show ?thesis unfolding RR(1)
        by (rule assms(6) [OF inv [unfolded RR(1)] RR(2,3,4) sub less.hyps [OF _ sub]])
          (simp add: Nd RR(1))
    next
      case (LR ll b kb vb wb c1 c kc vc wc c2)
      have sub: "wt_inv (Nd c2 n k v (wt c2 + wt r) r)" "wt_inv ll"
        using inv LR(1) by (auto simp: wt_inv_def)
      show ?thesis unfolding LR(1)
        by (rule assms(7) [OF inv [unfolded LR(1)] LR(2,3,4,5) sub(1)
              less.hyps [OF _ sub(2)] less.hyps [OF _ sub(1)]])
          (simp_all add: Nd LR(1))
    next
      case (balL ll b kb vb wb lr)
      show ?thesis unfolding balL(1)
        by (rule assms(8) [OF inv [unfolded balL(1)] balL(2,3,4,5)])
    next
      case eq
      show ?thesis by (rule assms(9) [OF inv eq])
    qed
    then show ?thesis by (simp add: Nd)
  qed
qed

lemma rebal_keeps:
  "wt_inv t \<Longrightarrow> wt_inv (rebal t) \<and> wt (rebal t) = wt t \<and> size (rebal t) = size t
     \<and> addrs (rebal t) = addrs t \<and> entries (rebal t) = entries t"
proof (induction t rule: rebal_induct)
  case (LL l n k v w rl d kd vd wd rr)
  then show ?case by (auto simp: rebal_LL wt_inv_def add.assoc)
next
  case (RL l n k v w c1 c kc vc wc c2 d kd vd wd rr)
  then show ?case by (auto simp: rebal_RL wt_inv_def add.assoc)
next
  case (RR ll b kb vb wb lr n k v w r)
  then show ?case by (auto simp: rebal_RR wt_inv_def add.assoc)
next
  case (LR ll b kb vb wb c1 c kc vc wc c2 n k v w r)
  then show ?case by (auto simp: rebal_LR wt_inv_def add.assoc)
qed (simp_all add: rebal_bal_right rebal_bal_left rebal_bal_eq)



section \<open>The macro and the function agree\<close>

lemma FIXUP_le_fixup: "FIXUP s n = Some y \<Longrightarrow> fixup s n = Some y"
  apply (erule FIXUP.raw_induct [rotated])
  apply (subst fixup.simps)
  apply (elim mono_Some)
  apply (blast | assumption)+
  done

lemma fixup_le_FIXUP: "fixup s n = Some y \<Longrightarrow> FIXUP s n = Some y \<and> fixup s n = Some y"
  apply (erule fixup.raw_induct [rotated])
  apply (rule conjI)
  apply (subst FIXUP.simps)
  apply (elim mono_Some)
  apply (blast | assumption)+
  apply (subst fixup.simps)
  apply (elim mono_Some)
  apply (blast | assumption)+
  done

lemma FIXUP_eq_fixup: "FIXUP s n = fixup s n"
proof (cases "fixup s n")
  case None
  then show ?thesis using FIXUP_le_fixup [of s n] by (cases "FIXUP s n") auto
next
  case (Some y)
  then show ?thesis using fixup_le_FIXUP [of s n y] by simp
qed

section \<open>One pass of \<open>fixup\<close> on a represented tree\<close>

text \<open>
  Each lemma below unfolds the loop once on a tree whose shape selects one branch
  of the C code, runs the rotations of that branch with the refinement lemmas of
  \<open>PR_Rotate\<close>, and hands the continuation to the induction hypotheses.
\<close>

lemma fixup_stop:
  assumes r: "repr s (plug c (Nd l n k v w r))"
    and e: "rebal (Nd l n k v w r) = Nd l n k v w r"
    and st: "fixup s n = Some s"
  shows "yields (fixup s n) s (plug c (rebal (Nd l n k v w r)))"
  unfolding st e using r by (rule yields_Some)

lemma fixup_eq:
  assumes r: "repr s (plug c (Nd l n k v w r))"
    and c: "\<not> wt l < wt r" "\<not> wt r < wt l"
  shows "yields (fixup s n) s (plug c (rebal (Nd l n k v w r)))"
proof (rule fixup_stop [OF r])
  show "fixup s n = Some s"
    using c repr_plug_wgt [OF r] by (subst fixup.simps) (simp add: repr_plug_node [OF r])
qed (simp add: rebal_bal_eq c)

lemma fixup_balR:
  assumes r: "repr s (plug c (Nd l n k v w (Nd rl d kd vd wd rr)))"
    and c: "wt l < wd" "\<not> wt l < wt rr" "\<not> wt l < wt rl"
  shows "yields (fixup s n) s (plug c (rebal (Nd l n k v w (Nd rl d kd vd wd rr))))"
proof (rule fixup_stop [OF r])
  have r': "repr s (plug (RF l n k v w # c) (Nd rl d kd vd wd rr))" using r by simp
  show "fixup s n = Some s"
    using c repr_plug_wgt [OF r'] repr_plug_wgt [OF r]
    by (subst fixup.simps) (simp add: repr_plug_node [OF r] repr_plug_node [OF r'])
qed (simp add: rebal_bal_right c)

lemma fixup_balL:
  assumes r: "repr s (plug c (Nd (Nd ll b kb vb wb lr) n k v w r))"
    and c: "\<not> wb < wt r" "wt r < wb" "\<not> wt r < wt ll" "\<not> wt r < wt lr"
  shows "yields (fixup s n) s (plug c (rebal (Nd (Nd ll b kb vb wb lr) n k v w r)))"
proof (rule fixup_stop [OF r])
  have r': "repr s (plug (LF n k v w r # c) (Nd ll b kb vb wb lr))" using r by simp
  show "fixup s n = Some s"
    using c repr_plug_wgt [OF r'] repr_plug_wgt [OF r]
    by (subst fixup.simps) (simp add: repr_plug_node [OF r] repr_plug_node [OF r'])
qed (simp add: rebal_bal_left c)

lemma fixup_LL:
  assumes r: "repr s (plug c (Nd l n k v w (Nd rl d kd vd wd rr)))"
    and c: "wt l < wd" "wt l < wt rr"
    and IH: "\<And>s1 c1. repr s1 (plug c1 (Nd l n k v (wt l + wt rl) rl)) \<Longrightarrow>
      yields (fixup s1 n) s1 (plug c1 (rebal (Nd l n k v (wt l + wt rl) rl)))"
  shows "yields (fixup s n) s (plug c (rebal (Nd l n k v w (Nd rl d kd vd wd rr))))"
proof -
  let ?T = "Nd l n k v w (Nd rl d kd vd wd rr)"
  have r': "repr s (plug (RF l n k v w # c) (Nd rl d kd vd wd rr))" using r by simp
  have step: "fixup s n = rot_left s n \<bind> (\<lambda>s1. fixup s1 n)"
    using c repr_plug_wgt [OF r'] repr_plug_wgt [OF r]
    by (subst fixup.simps) (simp add: repr_plug_node [OF r] repr_plug_node [OF r'])
  show ?thesis unfolding step
  proof (rule yields_bind [OF rot_left_refines [OF r]])
    fix s1 assume "repr s1 (plug c (rotl ?T))"
    then have "repr s1 (plug (LF d kd vd (wt l + wt rl + wt rr) rr # c) (Nd l n k v (wt l + wt rl) rl))"
      by simp
    from IH [OF this] show "yields (fixup s1 n) s1 (plug c (rebal ?T))"
      by (simp add: rebal_LL c)
  qed
qed

lemma fixup_RR:
  assumes r: "repr s (plug c (Nd (Nd ll b kb vb wb lr) n k v w r))"
    and c: "\<not> wb < wt r" "wt r < wb" "wt r < wt ll"
    and IH: "\<And>s1 c1. repr s1 (plug c1 (Nd lr n k v (wt lr + wt r) r)) \<Longrightarrow>
      yields (fixup s1 n) s1 (plug c1 (rebal (Nd lr n k v (wt lr + wt r) r)))"
  shows "yields (fixup s n) s (plug c (rebal (Nd (Nd ll b kb vb wb lr) n k v w r)))"
proof -
  let ?T = "Nd (Nd ll b kb vb wb lr) n k v w r"
  have r': "repr s (plug (LF n k v w r # c) (Nd ll b kb vb wb lr))" using r by simp
  have step: "fixup s n = rot_right s n \<bind> (\<lambda>s1. fixup s1 n)"
    using c repr_plug_wgt [OF r'] repr_plug_wgt [OF r]
    by (subst fixup.simps) (simp add: repr_plug_node [OF r] repr_plug_node [OF r'])
  show ?thesis unfolding step
  proof (rule yields_bind [OF rot_right_refines [OF r]])
    fix s1 assume "repr s1 (plug c (rotr ?T))"
    then have "repr s1 (plug (RF ll b kb vb (wt ll + (wt lr + wt r)) # c) (Nd lr n k v (wt lr + wt r) r))"
      by simp
    from IH [OF this] show "yields (fixup s1 n) s1 (plug c (rebal ?T))"
      by (simp add: rebal_RR c)
  qed
qed


lemma rot_right_left_refines:
  assumes r: "repr s (plug c (Nd l n k v w (Nd (Nd c1 m kc vc wc c2) d kd vd wd rr)))"
  shows "yields (rot_right s d \<bind> (\<lambda>s1. rot_left s1 n)) s
    (plug c (Nd (Nd l n k v (wt l + wt c1) c1) m kc vc (wt l + wt c1 + (wt c2 + wt rr))
       (Nd c2 d kd vd (wt c2 + wt rr) rr)))"
proof -
  let ?R = "Nd (Nd c1 m kc vc wc c2) d kd vd wd rr"
  have r': "repr s (plug (RF l n k v w # c) ?R)" using r by simp
  show ?thesis
  proof (rule yields_bind [OF rot_right_refines [OF r']])
    fix s1 assume "repr s1 (plug (RF l n k v w # c) (rotr ?R))"
    then have "repr s1 (plug c (Nd l n k v w (Nd c1 m kc vc (wt c1 + (wt c2 + wt rr))
        (Nd c2 d kd vd (wt c2 + wt rr) rr))))"
      by simp
    from rot_left_refines [OF this] show "yields (rot_left s1 n) s1
      (plug c (Nd (Nd l n k v (wt l + wt c1) c1) m kc vc (wt l + wt c1 + (wt c2 + wt rr))
         (Nd c2 d kd vd (wt c2 + wt rr) rr)))"
      by simp
  qed
qed

lemma rot_left_right_refines:
  assumes r: "repr s (plug c (Nd (Nd ll b kb vb wb (Nd c1 m kc vc wc c2)) n k v w r))"
  shows "yields (rot_left s b \<bind> (\<lambda>s1. rot_right s1 n)) s
    (plug c (Nd (Nd ll b kb vb (wt ll + wt c1) c1) m kc vc (wt ll + wt c1 + (wt c2 + wt r))
       (Nd c2 n k v (wt c2 + wt r) r)))"
proof -
  let ?L = "Nd ll b kb vb wb (Nd c1 m kc vc wc c2)"
  have r': "repr s (plug (LF n k v w r # c) ?L)" using r by simp
  show ?thesis
  proof (rule yields_bind [OF rot_left_refines [OF r']])
    fix s1 assume "repr s1 (plug (LF n k v w r # c) (rotl ?L))"
    then have "repr s1 (plug c (Nd (Nd (Nd ll b kb vb (wt ll + wt c1) c1) m kc vc
        (wt ll + wt c1 + wt c2) c2) n k v w r))"
      by simp
    from rot_right_refines [OF this] show "yields (rot_right s1 n) s1
      (plug c (Nd (Nd ll b kb vb (wt ll + wt c1) c1) m kc vc (wt ll + wt c1 + (wt c2 + wt r))
         (Nd c2 n k v (wt c2 + wt r) r)))"
      by simp
  qed
qed

lemma fixup_RL:
  assumes r: "repr s (plug c (Nd l n k v w (Nd (Nd c1 m kc vc wc c2) d kd vd wd rr)))"
    and c: "wt l < wd" "\<not> wt l < wt rr" "wt l < wc"
    and IH1: "\<And>s1 c1'. repr s1 (plug c1' (Nd l n k v (wt l + wt c1) c1)) \<Longrightarrow>
      yields (fixup s1 n) s1 (plug c1' (rebal (Nd l n k v (wt l + wt c1) c1)))"
    and IH2: "\<And>s1 c1' x. repr s1 (plug c1' rr) \<Longrightarrow> rootp rr = Some x \<Longrightarrow>
      yields (fixup s1 x) s1 (plug c1' (rebal rr))"
  shows "yields (fixup s n) s (plug c (rebal (Nd l n k v w (Nd (Nd c1 m kc vc wc c2) d kd vd wd rr))))"
proof -
  let ?R = "Nd (Nd c1 m kc vc wc c2) d kd vd wd rr"
  let ?T = "Nd l n k v w ?R"
  let ?W = "wt l + wt c1 + (wt c2 + wt rr)"
  let ?c2 = "RF c2 d kd vd (wt c2 + wt rr) # RF (Nd l n k v (wt l + wt c1) c1) m kc vc ?W # c"
  have r': "repr s (plug (RF l n k v w # c) ?R)" using r by simp
  have r'': "repr s (plug (LF d kd vd wd rr # RF l n k v w # c) (Nd c1 m kc vc wc c2))"
    using r by simp
  have step: "fixup s n = (rot_right s d \<bind> (\<lambda>s1. rot_left s1 n)) \<bind> (\<lambda>s2. do {
      tn \<leftarrow> heap s2 d;
      s3 \<leftarrow> (case rlink tn of None \<Rightarrow> Some s2 | Some x \<Rightarrow> fixup s2 x);
      fixup s3 n })"
    using c repr_plug_wgt [OF r'] repr_plug_wgt [OF r] repr_plug_wgt [OF r'']
    by (subst fixup.simps)
      (simp add: repr_plug_node [OF r] repr_plug_node [OF r'] repr_plug_node [OF r''])
  show ?thesis unfolding step
  proof (rule yields_bind [OF rot_right_left_refines [OF r]])
    fix s2 assume "repr s2 (plug c (Nd (Nd l n k v (wt l + wt c1) c1) m kc vc ?W
      (Nd c2 d kd vd (wt c2 + wt rr) rr)))"
    then have r2: "repr s2 (plug ?c2 rr)" by simp
    have r2': "repr s2 (plug (tl ?c2) (Nd c2 d kd vd (wt c2 + wt rr) rr))" using r2 by simp
    have "yields (do {
        s3 \<leftarrow> (case rootp rr of None \<Rightarrow> Some s2 | Some x \<Rightarrow> fixup s2 x);
        fixup s3 n }) s2 (plug c (rebal ?T))"
    proof (rule yields_bind [OF yields_opt [OF r2 IH2 [OF r2]]])
      fix s3 assume "repr s3 (plug ?c2 (rebal rr))"
      then have "repr s3 (plug (LF m kc vc ?W (Nd c2 d kd vd (wt c2 + wt rr) (rebal rr)) # c)
          (Nd l n k v (wt l + wt c1) c1))"
        by simp
      from IH1 [OF this] show "yields (fixup s3 n) s3 (plug c (rebal ?T))"
        by (simp add: rebal_RL c)
    qed simp_all
    then show "yields (do {
        tn \<leftarrow> heap s2 d;
        s3 \<leftarrow> (case rlink tn of None \<Rightarrow> Some s2 | Some x \<Rightarrow> fixup s2 x);
        fixup s3 n }) s2 (plug c (rebal ?T))"
      by (simp add: repr_plug_node [OF r2'])
  qed
qed

lemma fixup_LR:
  assumes r: "repr s (plug c (Nd (Nd ll b kb vb wb (Nd c1 m kc vc wc c2)) n k v w r))"
    and c: "\<not> wb < wt r" "wt r < wb" "\<not> wt r < wt ll" "wt r < wc"
    and IH1: "\<And>s1 c1' x. repr s1 (plug c1' ll) \<Longrightarrow> rootp ll = Some x \<Longrightarrow>
      yields (fixup s1 x) s1 (plug c1' (rebal ll))"
    and IH2: "\<And>s1 c1'. repr s1 (plug c1' (Nd c2 n k v (wt c2 + wt r) r)) \<Longrightarrow>
      yields (fixup s1 n) s1 (plug c1' (rebal (Nd c2 n k v (wt c2 + wt r) r)))"
  shows "yields (fixup s n) s (plug c (rebal (Nd (Nd ll b kb vb wb (Nd c1 m kc vc wc c2)) n k v w r)))"
proof -
  let ?L = "Nd ll b kb vb wb (Nd c1 m kc vc wc c2)"
  let ?T = "Nd ?L n k v w r"
  let ?W = "wt ll + wt c1 + (wt c2 + wt r)"
  let ?c2 = "LF b kb vb (wt ll + wt c1) c1 # LF m kc vc ?W (Nd c2 n k v (wt c2 + wt r) r) # c"
  have r': "repr s (plug (LF n k v w r # c) ?L)" using r by simp
  have r'': "repr s (plug (RF ll b kb vb wb # LF n k v w r # c) (Nd c1 m kc vc wc c2))"
    using r by simp
  have step: "fixup s n = (rot_left s b \<bind> (\<lambda>s1. rot_right s1 n)) \<bind> (\<lambda>s2. do {
      tn \<leftarrow> heap s2 b;
      s3 \<leftarrow> (case llink tn of None \<Rightarrow> Some s2 | Some x \<Rightarrow> fixup s2 x);
      fixup s3 n })"
    using c repr_plug_wgt [OF r'] repr_plug_wgt [OF r] repr_plug_wgt [OF r'']
    by (subst fixup.simps)
      (simp add: repr_plug_node [OF r] repr_plug_node [OF r'] repr_plug_node [OF r''])
  show ?thesis unfolding step
  proof (rule yields_bind [OF rot_left_right_refines [OF r]])
    fix s2 assume "repr s2 (plug c (Nd (Nd ll b kb vb (wt ll + wt c1) c1) m kc vc ?W
      (Nd c2 n k v (wt c2 + wt r) r)))"
    then have r2: "repr s2 (plug ?c2 ll)" by simp
    have r2': "repr s2 (plug (tl ?c2) (Nd ll b kb vb (wt ll + wt c1) c1))" using r2 by simp
    have "yields (do {
        s3 \<leftarrow> (case rootp ll of None \<Rightarrow> Some s2 | Some x \<Rightarrow> fixup s2 x);
        fixup s3 n }) s2 (plug c (rebal ?T))"
    proof (rule yields_bind [OF yields_opt [OF r2 IH1 [OF r2]]])
      fix s3 assume "repr s3 (plug ?c2 (rebal ll))"
      then have "repr s3 (plug (RF (Nd (rebal ll) b kb vb (wt ll + wt c1) c1) m kc vc ?W # c)
          (Nd c2 n k v (wt c2 + wt r) r))"
        by simp
      from IH2 [OF this] show "yields (fixup s3 n) s3 (plug c (rebal ?T))"
        by (simp add: rebal_LR c)
    qed simp_all
    then show "yields (do {
        tn \<leftarrow> heap s2 b;
        s3 \<leftarrow> (case llink tn of None \<Rightarrow> Some s2 | Some x \<Rightarrow> fixup s2 x);
        fixup s3 n }) s2 (plug c (rebal ?T))"
      by (simp add: repr_plug_node [OF r2'])
  qed
qed

section \<open>Refinement: \<open>fixup\<close> implements \<open>rebal\<close>\<close>

lemma fixup_refines:
  assumes "wt_inv t" and "repr s (plug c t)" and "rootp t = Some a"
  shows "yields (fixup s a) s (plug c (rebal t))"
  using assms
proof (induction t arbitrary: s c a rule: rebal_induct)
  case Tip
  then show ?case by simp
next
  case (LL l n k v w rl d kd vd wd rr)
  from LL.prems have a: "a = n" by simp
  show ?case unfolding a
    by (rule fixup_LL [OF LL.prems(1) LL(2,3)]) (rule LL.IH, simp_all)
next
  case (RL l n k v w c1 m kc vc wc c2 d kd vd wd rr)
  from RL.prems have a: "a = n" by simp
  show ?case unfolding a
    by (rule fixup_RL [OF RL.prems(1) RL(2,3,4)]) (rule RL.IH, simp_all)+
next
  case (balR l n k v w rl d kd vd wd rr)
  from balR.prems have a: "a = n" by simp
  show ?case unfolding a by (rule fixup_balR [OF balR.prems(1) balR(2,3,4)])
next
  case (RR ll b kb vb wb lr n k v w r)
  from RR.prems have a: "a = n" by simp
  show ?case unfolding a
    by (rule fixup_RR [OF RR.prems(1) RR(2,3,4)]) (rule RR.IH, simp_all)
next
  case (LR ll b kb vb wb c1 m kc vc wc c2 n k v w r)
  from LR.prems have a: "a = n" by simp
  show ?case unfolding a
    by (rule fixup_LR [OF LR.prems(1) LR(2,3,4,5)]) (rule LR.IH, simp_all)+
next
  case (balL ll b kb vb wb lr n k v w r)
  from balL.prems have a: "a = n" by simp
  show ?case unfolding a by (rule fixup_balL [OF balL.prems(1) balL(2,3,4,5)])
next
  case (eq l n k v w r)
  from eq.prems have a: "a = n" by simp
  show ?case unfolding a by (rule fixup_eq [OF eq.prems(1) eq(2,3)])
qed

lemma FIXUP_refines:
  "wt_inv t \<Longrightarrow> repr s (plug c t) \<Longrightarrow> rootp t = Some a \<Longrightarrow> yields (FIXUP s a) s (plug c (rebal t))"
  by (simp add: FIXUP_eq_fixup fixup_refines)

section \<open>Properties\<close>

text \<open>
  A right-leaning chain of three nodes with correct weights. At its root the right
  child's right subtree is heavier than the empty left subtree, so \<^verbatim>\<open>fixup\<close>
  rotates left once.
\<close>

definition chain3 :: "(int, nat) ltree" where
  "chain3 = Nd Tip 0 10 1 4 (Nd Tip 1 20 2 3 (Nd Tip 2 30 3 2 Tip))"

lemma rebal_chain3: "rebal chain3 = Nd (Nd Tip 0 10 1 2 Tip) 1 20 2 4 (Nd Tip 2 30 3 2 Tip)"
  by (simp add: chain3_def rebal.simps)

text \<open>
  C4 (refinement): \<^verbatim>\<open>fixup\<close> terminates and implements \<open>rebal\<close>. Called on a node
  anywhere in a represented tree whose subtree satisfies the weight invariant, it
  returns; the heap then represents the tree with that subtree replaced by its
  rebalanced form. The in-order entries, the weight of the subtree and the weight
  invariant are preserved, and no node is allocated or freed.
\<close>

theorem fixup_correct:
  assumes "wt_inv t" and "repr s (plug c t)" and "rootp t = Some a"
  shows "\<exists>s'. fixup s a = Some s' \<and> repr s' (plug c (rebal t))
    \<and> entries (plug c (rebal t)) = entries (plug c t)
    \<and> wt_inv (rebal t) \<and> wt (rebal t) = wt t
    \<and> dom (heap s') = dom (heap s) \<and> count s' = count s \<and> freed s' = freed s"
proof -
  from fixup_refines [OF assms] obtain s' where s': "fixup s a = Some s'"
    by (rule yieldsE)
  from yields_fields [OF fixup_refines [OF assms] s'] s' rebal_keeps [OF assms(1)]
  show ?thesis by simp
qed

theorem fixup_correct_witness:
  "wt_inv chain3 \<and> repr (state_of int_cmp False chain3) (plug [] chain3)
   \<and> rootp chain3 = Some 0
   \<and> (\<exists>s'. fixup (state_of int_cmp False chain3) 0 = Some s'
        \<and> repr s' (Nd (Nd Tip 0 10 1 2 Tip) 1 20 2 4 (Nd Tip 2 30 3 2 Tip)))"
proof -
  have w: "wt_inv chain3" and r: "repr (state_of int_cmp False chain3) (plug [] chain3)"
    and a: "rootp chain3 = Some 0"
    by (simp_all add: chain3_def wt_inv_def repr_state_of)
  from fixup_correct [OF w r a] w r a show ?thesis by (auto simp: rebal_chain3)
qed

text \<open>
  C29 (equivalence): the macro \<^verbatim>\<open>FIXUP\<close>, expanded in the insertion loops, and the
  function \<^verbatim>\<open>fixup\<close> it is a copy of are the same partial function of the state
  and the node: on every heap, represented or not, either both fail to return or
  both return the same state.
\<close>

theorem FIXUP_fixup_equiv: "FIXUP = fixup"
  by (intro ext) (rule FIXUP_eq_fixup)

end
