(* ===== verification/PR_Search.thy ===== *)
theory PR_Search
  imports PR_Tree
begin

text \<open>
  The read-only queries of \<^verbatim>\<open>pr_tree.c\<close> that follow child links from the root:
  \<^verbatim>\<open>pr_tree_search\<close>, \<^verbatim>\<open>pr_tree_csearch\<close>, \<^verbatim>\<open>node_min\<close>, \<^verbatim>\<open>node_max\<close>,
  \<^verbatim>\<open>pr_tree_min\<close> and \<^verbatim>\<open>pr_tree_max\<close>. A \<^verbatim>\<open>void *\<close> result that may be
  \<^verbatim>\<open>NULL\<close> is an \<open>option\<close> inside the monad. Keys and data are values of the
  types \<open>'k\<close> and \<open>'v\<close>, which stand for pointers that are not \<^verbatim>\<open>NULL\<close>: the result
  \<open>Some None\<close> of \<open>pr_tree_search\<close> is the \<^verbatim>\<open>NULL\<close> the C function returns for a
  miss. A node whose datum pointer is itself \<^verbatim>\<open>NULL\<close> makes the C function return
  \<^verbatim>\<open>NULL\<close> for a hit as well; such nodes are not states of the model. \<open>lookup\<close>, \<open>first_key\<close> and
  \<open>last_key\<close> are the same descents on labelled trees; the lemmas show that the
  loops return on every represented tree, that they compute these functions, and
  that on a sorted tree these are the dictionary lookup and the least and greatest
  key.
\<close>

section \<open>The C functions\<close>

partial_function (option) search_loop ::
  "('k, 'v) pr_state \<Rightarrow> 'k \<Rightarrow> ptr \<Rightarrow> 'v option option" where
  "search_loop s k node =
     (case node of
        None \<Rightarrow> Some None
      | Some a \<Rightarrow> do {
          n \<leftarrow> heap s a;
          let rv = key_cmp s k (key n);
          if rv < 0 then search_loop s k (llink n)
          else if rv > 0 then search_loop s k (rlink n)
          else Some (Some (datum n)) })"

definition pr_tree_search :: "('k, 'v) pr_state \<Rightarrow> 'k \<Rightarrow> 'v option option" where
  "pr_tree_search s k = search_loop s k (root s)"

definition pr_tree_csearch :: "('k, 'v) pr_state \<Rightarrow> 'k \<Rightarrow> 'v option option" where
  "pr_tree_csearch s k = pr_tree_search s k"

partial_function (option) node_min :: "('k, 'v) pr_state \<Rightarrow> addr \<Rightarrow> addr option" where
  "node_min s node = do {
     n \<leftarrow> heap s node;
     case llink n of None \<Rightarrow> Some node | Some l \<Rightarrow> node_min s l }"

partial_function (option) node_max :: "('k, 'v) pr_state \<Rightarrow> addr \<Rightarrow> addr option" where
  "node_max s node = do {
     n \<leftarrow> heap s node;
     case rlink n of None \<Rightarrow> Some node | Some r \<Rightarrow> node_max s r }"

text \<open>
  \<^verbatim>\<open>pr_tree_min\<close> and \<^verbatim>\<open>pr_tree_max\<close> contain the loop of \<^verbatim>\<open>node_min\<close> and
  \<^verbatim>\<open>node_max\<close> inline and return the key of the node reached.
\<close>

definition pr_tree_min :: "('k, 'v) pr_state \<Rightarrow> 'k option option" where
  "pr_tree_min s =
     (case root s of
        None \<Rightarrow> Some None
      | Some a \<Rightarrow> do { m \<leftarrow> node_min s a; n \<leftarrow> heap s m; Some (Some (key n)) })"

definition pr_tree_max :: "('k, 'v) pr_state \<Rightarrow> 'k option option" where
  "pr_tree_max s =
     (case root s of
        None \<Rightarrow> Some None
      | Some a \<Rightarrow> do { m \<leftarrow> node_max s a; n \<leftarrow> heap s m; Some (Some (key n)) })"

section \<open>The descents on labelled trees\<close>

fun lookup :: "('k \<Rightarrow> 'k \<Rightarrow> int) \<Rightarrow> 'k \<Rightarrow> ('k, 'v) ltree \<Rightarrow> 'v option" where
  "lookup c k Tip = None"
| "lookup c k (Nd l a x v w r) =
     (if c k x < 0 then lookup c k l else if c k x > 0 then lookup c k r else Some v)"

fun first_addr :: "('k, 'v) ltree \<Rightarrow> addr option" where
  "first_addr Tip = None"
| "first_addr (Nd l a k v w r) = (if l = Tip then Some a else first_addr l)"

fun last_addr :: "('k, 'v) ltree \<Rightarrow> addr option" where
  "last_addr Tip = None"
| "last_addr (Nd l a k v w r) = (if r = Tip then Some a else last_addr r)"

section \<open>Lemmas: search\<close>

lemma search_loop_refines:
  "tree_at (heap s) par t \<Longrightarrow> search_loop s k (rootp t) = Some (lookup (key_cmp s) k t)"
proof (induction t arbitrary: par)
  case Tip
  show ?case by (subst search_loop.simps) simp
next
  case (Nd l a x v w r)
  from Nd.prems have "tree_at (heap s) (Some a) l" "tree_at (heap s) (Some a) r" by simp_all
  from Nd.IH(1) [OF this(1)] Nd.IH(2) [OF this(2)] Nd.prems
  show ?case by (subst search_loop.simps) simp
qed

lemma lookup_sorted:
  assumes "total_cmp c"
  shows "sorted_by c (entries t) \<Longrightarrow> lookup c k t = lookup_by c k (entries t)"
proof (induction t)
  case (Nd l a x v w r)
  from Nd.prems have sl: "sorted_by c (entries l)" and sr: "sorted_by c (entries r)"
    and lo: "\<forall>p \<in> set (entries l). c (fst p) x < 0"
    and hi: "\<forall>p \<in> set (entries r). c x (fst p) < 0"
    by (auto simp: sorted_wrt_append)
  consider (lt) "c k x < 0" | (gt) "c x k < 0" | (eq) "c k x = 0"
    using cmp_gt_iff [OF assms, of k x] by blast
  then show ?case
  proof cases
    case lt
    then have "lookup_by c k (entries r) = None"
      using hi by (intro lookup_by_below [OF assms]) (auto intro: cmp_trans [OF assms])
    with lt Nd.IH(1) [OF sl] show ?thesis by (auto simp: lookup_by_append split: option.splits)
  next
    case gt
    then have "lookup_by c k (entries l) = None"
      using lo by (intro lookup_by_above [OF assms]) (auto intro: cmp_trans [OF assms])
    moreover from gt have "\<not> c k x < 0" "c k x \<noteq> 0" "0 < c k x"
      using cmp_antisym [OF assms, of x k] cmp_antisym [OF assms, of k x] by auto
    ultimately show ?thesis using Nd.IH(2) [OF sr] by (simp add: lookup_by_append)
  next
    case eq
    then have "lookup_by c k (entries l) = None"
      using lo by (intro lookup_by_above [OF assms]) (auto intro: cmp_eq_left [OF assms])
    with eq show ?thesis by (simp add: lookup_by_append)
  qed
qed simp

lemma pr_tree_search_refines:
  "repr s t \<Longrightarrow> pr_tree_search s k = Some (lookup (key_cmp s) k t)"
  by (simp add: pr_tree_search_def reprD(1) search_loop_refines [OF reprD(2)])

section \<open>Lemmas: minimum and maximum\<close>

lemma first_addr_Some: "t \<noteq> Tip \<Longrightarrow> \<exists>a. first_addr t = Some a"
  by (induction t) auto

lemma last_addr_Some: "t \<noteq> Tip \<Longrightarrow> \<exists>a. last_addr t = Some a"
  by (induction t) auto

lemma first_addr_hd: "t \<noteq> Tip \<Longrightarrow> first_addr t = Some (hd (addrs t))"
  by (induction t) auto

lemma last_addr_last: "t \<noteq> Tip \<Longrightarrow> last_addr t = Some (last (addrs t))"
  by (induction t) auto

lemma node_min_refines:
  "tree_at (heap s) par t \<Longrightarrow> rootp t = Some a \<Longrightarrow> node_min s a = first_addr t"
proof (induction t arbitrary: par a)
  case (Nd l b k v w r)
  then show ?case by (subst node_min.simps) (cases l; simp)
qed simp

lemma node_max_refines:
  "tree_at (heap s) par t \<Longrightarrow> rootp t = Some a \<Longrightarrow> node_max s a = last_addr t"
proof (induction t arbitrary: par a)
  case (Nd l b k v w r)
  then show ?case by (subst node_max.simps) (cases r; simp)
qed simp

lemma tree_at_key:
  "tree_at h par t \<Longrightarrow> i < size t \<Longrightarrow>
   \<exists>n. h (addrs t ! i) = Some n \<and> key n = fst (entries t ! i) \<and> datum n = snd (entries t ! i)"
proof (induction t arbitrary: par i)
  case (Nd l a k v w r)
  consider "i < size l" | "i = size l" | "size l < i" by linarith
  then show ?case
  proof cases
    case 1
    with Nd.prems Nd.IH(1) [of "Some a" i] show ?thesis by (simp add: nth_append)
  next
    case 2
    with Nd.prems show ?thesis by (simp add: nth_append)
  next
    case 3
    with Nd.prems Nd.IH(2) [of "Some a" "i - size l - 1"] show ?thesis
      by (simp add: nth_append nth_Cons')
  qed
qed simp

lemma pr_tree_min_refines:
  assumes "repr s t"
  shows "pr_tree_min s = Some (case entries t of [] \<Rightarrow> None | p # ps \<Rightarrow> Some (fst p))"
proof (cases t)
  case Tip
  with assms show ?thesis by (simp add: pr_tree_min_def)
next
  case (Nd l a k v w r)
  then have ne: "t \<noteq> Tip" by simp
  from assms have ta: "tree_at (heap s) None t" and d: "distinct (addrs t)" and rt: "root s = rootp t"
    by (simp_all add: repr_def)
  from tree_at_key [OF ta, of 0] Nd obtain n where
    "heap s (hd (addrs t)) = Some n" "key n = fst (hd (entries t))"
    by (auto simp: hd_conv_nth)
  moreover have "node_min s a = Some (hd (addrs t))"
    using node_min_refines [OF ta, of a] Nd first_addr_hd [OF ne] by simp
  ultimately show ?thesis using rt Nd ne
    by (cases "entries t") (auto simp: pr_tree_min_def)
qed

lemma pr_tree_max_refines:
  assumes "repr s t"
  shows "pr_tree_max s = Some (if entries t = [] then None else Some (fst (last (entries t))))"
proof (cases t)
  case Tip
  with assms show ?thesis by (simp add: pr_tree_max_def)
next
  case (Nd l a k v w r)
  then have ne: "t \<noteq> Tip" by simp
  from assms have ta: "tree_at (heap s) None t" and d: "distinct (addrs t)" and rt: "root s = rootp t"
    by (simp_all add: repr_def)
  from tree_at_key [OF ta, of "size t - 1"] Nd obtain n where
    "heap s (last (addrs t)) = Some n" "key n = fst (last (entries t))"
    by (auto simp: last_conv_nth)
  moreover have "node_max s a = Some (last (addrs t))"
    using node_max_refines [OF ta, of a] Nd last_addr_last [OF ne] by simp
  ultimately show ?thesis using rt Nd ne
    by (auto simp: pr_tree_max_def)
qed

section \<open>Properties\<close>

text \<open>
  A small dictionary used to instantiate the properties: keys 10, 20, 30 with data
  1, 2, 3 at addresses 1, 0, 2, ordered by \<open>int_cmp\<close>.
\<close>

definition ex_tree :: "(int, nat) ltree" where
  "ex_tree = Nd (Nd Tip 1 10 1 2 Tip) 0 20 2 4 (Nd Tip 2 30 3 2 Tip)"

definition ex_state :: "(int, nat) pr_state" where
  "ex_state = state_of int_cmp False ex_tree"

lemma repr_ex_state: "repr ex_state ex_tree"
  unfolding ex_state_def by (rule repr_state_of) (simp add: ex_tree_def)

lemma sorted_ex_tree: "sorted_by int_cmp (entries ex_tree)"
  by (simp add: ex_tree_def int_cmp_def)

text \<open>
  C5 (functional): on a state that represents a tree whose in-order entries are
  sorted by the tree's comparator, \<^verbatim>\<open>pr_tree_search\<close> returns, and its result is
  the dictionary lookup of the key in the in-order entries: the datum stored under
  a key that compares equal, \<^verbatim>\<open>NULL\<close> when there is none.
\<close>

theorem pr_tree_search_correct:
  assumes "repr s t" and "total_cmp (key_cmp s)" and "sorted_by (key_cmp s) (entries t)"
  shows "pr_tree_search s k = Some (lookup_by (key_cmp s) k (entries t))"
  using assms by (simp add: pr_tree_search_refines lookup_sorted)

theorem pr_tree_search_correct_witness:
  "repr ex_state ex_tree \<and> total_cmp (key_cmp ex_state) \<and> sorted_by (key_cmp ex_state) (entries ex_tree)
   \<and> pr_tree_search ex_state 30 = Some (Some 3) \<and> pr_tree_search ex_state 25 = Some None"
  using pr_tree_search_correct [OF repr_ex_state, of 30] pr_tree_search_correct [OF repr_ex_state, of 25]
    repr_ex_state sorted_ex_tree
  by (simp add: ex_state_def) (simp add: ex_tree_def int_cmp_def)

end
