(* ===== verification/PR_Insert.thy ===== *)
theory PR_Insert
  imports PR_Fixup PR_Search
begin

text \<open>
  \<^verbatim>\<open>pr_tree_insert\<close> and \<^verbatim>\<open>pr_tree_probe\<close>. Both descend from the root comparing
  keys (\<open>descend\<close>), and, when the key is absent, allocate a node, hang it below
  the last node visited and walk back to the root through the parent pointers,
  adding one to each weight and running \<^verbatim>\<open>FIXUP\<close> (\<open>insert_up\<close>). The parent
  pointer is read \<^emph>\<open>before\<close> \<^verbatim>\<open>FIXUP\<close> runs, so the walk continues with the node
  that was the parent before any rotation.

  The address returned by \<^verbatim>\<open>MALLOC\<close> is the last argument of both functions.
  The results are the return code and the new state; \<^verbatim>\<open>pr_tree_probe\<close> also
  returns the content of its in/out parameter \<^verbatim>\<open>*datum\<close>.

  On labelled trees the same algorithm is \<open>path_to\<close> (the descent, producing the
  context of the place where it stops) and \<open>ins_up\<close> (the walk back up).
\<close>

section \<open>The C functions\<close>

datatype place = Found addr | Vacant ptr int

partial_function (option) descend ::
  "('k, 'v) pr_state \<Rightarrow> 'k \<Rightarrow> ptr \<Rightarrow> ptr \<Rightarrow> int \<Rightarrow> place option" where
  "descend s k node par rv =
     (case node of
        None \<Rightarrow> Some (Vacant par rv)
      | Some a \<Rightarrow> do {
          n \<leftarrow> heap s a;
          let rv' = key_cmp s k (key n);
          if rv' < 0 then descend s k (llink n) (Some a) rv'
          else if rv' > 0 then descend s k (rlink n) (Some a) rv'
          else Some (Found a) })"

partial_function (option) insert_up :: "('k, 'v) pr_state \<Rightarrow> ptr \<Rightarrow> ('k, 'v) pr_state option" where
  "insert_up s par =
     (case par of
        None \<Rightarrow> Some s
      | Some a \<Rightarrow> do {
          n \<leftarrow> heap s a;
          s1 \<leftarrow> node_upd a (\<lambda>x. x\<lparr>weight := weight x + 1\<rparr>) s;
          s2 \<leftarrow> FIXUP s1 a;
          insert_up s2 (parent n) })"

definition link_new ::
  "('k, 'v) pr_state \<Rightarrow> addr \<Rightarrow> ptr \<Rightarrow> int \<Rightarrow> ('k, 'v) pr_state option" where
  "link_new s a par rv = do {
     s1 \<leftarrow> node_upd a (\<lambda>x. x\<lparr>parent := par\<rparr>) s;
     case par of
       None \<Rightarrow> if count s1 = 0 then Some (s1\<lparr>root := Some a, count := 1\<rparr>) else None
     | Some p \<Rightarrow> do {
         s2 \<leftarrow> node_upd p (\<lambda>x. if rv < 0 then x\<lparr>llink := Some a\<rparr> else x\<lparr>rlink := Some a\<rparr>) s1;
         s3 \<leftarrow> insert_up s2 (Some p);
         Some (s3\<lparr>count := count s3 + 1\<rparr>) } }"

definition pr_tree_insert ::
  "('k, 'v) pr_state \<Rightarrow> 'k \<Rightarrow> 'v \<Rightarrow> int \<Rightarrow> ptr \<Rightarrow> (int \<times> ('k, 'v) pr_state) option" where
  "pr_tree_insert s k v overwrite m = do {
     p \<leftarrow> descend s k (root s) None 0;
     case p of
       Found a \<Rightarrow>
         if overwrite = 0 then Some (1, s)
         else do {
           n \<leftarrow> heap s a;
           s1 \<leftarrow> node_upd a (\<lambda>x. x\<lparr>key := k, datum := v\<rparr>) (call_del (key n) (datum n) s);
           Some (0, s1) }
     | Vacant par rv \<Rightarrow> do {
         (node, s1) \<leftarrow> node_new k v m s;
         case node of
           None \<Rightarrow> Some (- 1, s1)
         | Some a \<Rightarrow> do { s2 \<leftarrow> link_new s1 a par rv; Some (0, s2) } } }"

definition pr_tree_probe ::
  "('k, 'v) pr_state \<Rightarrow> 'k \<Rightarrow> 'v \<Rightarrow> ptr \<Rightarrow> (int \<times> 'v \<times> ('k, 'v) pr_state) option" where
  "pr_tree_probe s k v m = do {
     p \<leftarrow> descend s k (root s) None 0;
     case p of
       Found a \<Rightarrow> do { n \<leftarrow> heap s a; Some (0, datum n, s) }
     | Vacant par rv \<Rightarrow> do {
         (node, s1) \<leftarrow> node_new k v m s;
         case node of
           None \<Rightarrow> Some (- 1, v, s1)
         | Some a \<Rightarrow> do { s2 \<leftarrow> link_new s1 a par rv; Some (1, v, s2) } } }"

text \<open>The node that \<^verbatim>\<open>node_new\<close> initialises.\<close>

definition fresh_leaf :: "'k \<Rightarrow> 'v \<Rightarrow> ('k, 'v) pr_node" where
  "fresh_leaf k v = \<lparr>key = k, datum = v, parent = None, llink = None, rlink = None, weight = 2\<rparr>"

section \<open>The algorithm on labelled trees\<close>

fun path_to ::
  "('k \<Rightarrow> 'k \<Rightarrow> int) \<Rightarrow> 'k \<Rightarrow> ('k, 'v) ltree \<Rightarrow> ('k, 'v) frame list \<Rightarrow> int \<Rightarrow>
   ('k, 'v) frame list \<times> ('k, 'v) ltree \<times> int" where
  "path_to c k Tip acc rv = (acc, Tip, rv)"
| "path_to c k (Nd l a x v w r) acc rv =
     (if c k x < 0 then path_to c k l (LF a x v w r # acc) (c k x)
      else if c k x > 0 then path_to c k r (RF l a x v w # acc) (c k x)
      else (acc, Nd l a x v w r, c k x))"

fun ins_up :: "('k, 'v) frame list \<Rightarrow> ('k, 'v) ltree \<Rightarrow> ('k, 'v) ltree" where
  "ins_up [] t = t"
| "ins_up (LF a k v w r # c) t = ins_up c (rebal (Nd t a k v (w + 1) r))"
| "ins_up (RF l a k v w # c) t = ins_up c (rebal (Nd l a k v (w + 1) t))"

definition ins :: "('k \<Rightarrow> 'k \<Rightarrow> int) \<Rightarrow> 'k \<Rightarrow> 'v \<Rightarrow> addr \<Rightarrow> ('k, 'v) ltree \<Rightarrow> ('k, 'v) ltree" where
  "ins c k v a t =
     (case path_to c k t [] 0 of
        (ctx, Tip, rv) \<Rightarrow> ins_up ctx (Nd Tip a k v 2 Tip)
      | (ctx, Nd l b x y w r, rv) \<Rightarrow> plug ctx (Nd l b k v w r))"

section \<open>Lemmas: the descent\<close>

lemma path_to_plug:
  "path_to c k t acc rv = (ctx, sub, rv') \<Longrightarrow> plug ctx sub = plug acc t"
  by (induction c k t acc rv rule: path_to.induct) (auto split: if_splits)

lemma path_to_lookup:
  "path_to c k t acc rv = (ctx, sub, rv') \<Longrightarrow>
   (case sub of Tip \<Rightarrow> lookup c k t = None
    | Nd l b x y w r \<Rightarrow> lookup c k t = Some y \<and> c k x = 0)"
  by (induction c k t acc rv rule: path_to.induct) (auto split: if_splits ltree.splits)

lemma path_to_Tip_rv:
  "path_to c k t acc rv = (ctx, Tip, rv') \<Longrightarrow>
   (ctx = acc \<and> rv' = rv \<and> t = Tip) \<or>
   (\<exists>a x v w r c'. ctx = LF a x v w r # c' \<and> rv' < 0) \<or>
   (\<exists>l a x v w c'. ctx = RF l a x v w # c' \<and> \<not> rv' < 0)"
  by (induction c k t acc rv rule: path_to.induct) (auto split: if_splits)

lemma path_to_bounds:
  assumes "total_cmp c"
  shows "path_to c k t acc rv = (ctx, sub, rv') \<Longrightarrow> sorted_by c (entries (plug acc t)) \<Longrightarrow>
    (\<forall>p \<in> set (epre acc). c (fst p) k < 0) \<Longrightarrow> (\<forall>p \<in> set (epost acc). c k (fst p) < 0) \<Longrightarrow>
    (\<forall>p \<in> set (epre ctx). c (fst p) k < 0) \<and> (\<forall>p \<in> set (epost ctx). c k (fst p) < 0)"
proof (induction t arbitrary: acc rv)
  case (Nd l a x v w r)
  from Nd.prems(2) have lo: "\<forall>p \<in> set (entries l). c (fst p) x < 0"
    and hi: "\<forall>p \<in> set (entries r). c x (fst p) < 0"
    by (auto simp: sorted_wrt_append)
  consider (lt) "c k x < 0" | (gt) "\<not> c k x < 0" "c k x > 0" | (eq) "\<not> c k x < 0" "\<not> c k x > 0"
    by blast
  then show ?case
  proof cases
    case lt
    with hi have "\<forall>p \<in> set (entries r). c k (fst p) < 0"
      by (auto intro: cmp_trans [OF assms])
    with lt Nd.prems show ?thesis
      by (intro Nd.IH(1) [of "LF a x v w r # acc" "c k x"]) auto
  next
    case gt
    then have xk: "c x k < 0" by (simp add: cmp_antisym [OF assms, symmetric])
    with lo have "\<forall>p \<in> set (entries l). c (fst p) k < 0"
      by (auto intro: cmp_trans [OF assms])
    with gt xk Nd.prems show ?thesis
      by (intro Nd.IH(2) [of "RF l a x v w # acc" "c k x"]) auto
  next
    case eq
    with Nd.prems show ?thesis by simp
  qed
qed simp


lemma entries_vacant:
  assumes c: "total_cmp c" and s: "sorted_by c (entries t)"
    and p: "path_to c k t [] 0 = (ctx, Tip, rv)"
  shows "epre ctx @ (k, v) # epost ctx = upd_by c k v (entries t)"
proof -
  have t: "entries t = epre ctx @ epost ctx"
    using arg_cong [OF path_to_plug [OF p], of entries] by simp
  from path_to_bounds [OF c p] s
  have "\<forall>p \<in> set (epre ctx). c (fst p) k < 0" "\<forall>p \<in> set (epost ctx). c k (fst p) < 0" by simp_all
  then show ?thesis by (simp add: t upd_by_append_lt [OF c] upd_by_above)
qed

lemma entries_found:
  assumes c: "total_cmp c" and s: "sorted_by c (entries t)"
    and p: "path_to c k t [] 0 = (ctx, Nd l b x y w r, rv)"
  shows "entries (plug ctx (Nd l b k v w r)) = upd_by c k v (entries t)"
proof -
  have t: "entries t = (epre ctx @ entries l) @ (x, y) # entries r @ epost ctx"
    using arg_cong [OF path_to_plug [OF p], of entries] by simp
  from path_to_lookup [OF p] have kx: "c k x = 0" by simp
  from s have "\<forall>p \<in> set (entries l). c (fst p) x < 0"
    unfolding t by (auto simp: sorted_wrt_append)
  then have "\<forall>p \<in> set (entries l). c (fst p) k < 0"
    using kx by (auto intro: cmp_lt_eq [OF c] simp: cmp_sym [OF c, of k x])
  moreover from path_to_bounds [OF c p] s have "\<forall>p \<in> set (epre ctx). c (fst p) k < 0" by simp
  ultimately have "\<forall>p \<in> set (epre ctx @ entries l). c (fst p) k < 0" by auto
  from upd_by_append_lt [OF c this] show ?thesis unfolding t by (simp add: kx)
qed

section \<open>Lemmas: the walk back up, on labelled trees\<close>

lemma ins_up_step:
  assumes ok: "wt_ok l" "wt_ok r" and w: "w + 1 = wt l + wt r" and cw: "ctx_wt c w"
    and sz: "size (plug c (Nd l a k v w r)) + 1 < 2 ^ 64"
  shows "wt_inv (Nd l a k v (w + 1) r)"
    and "wt_ok (rebal (Nd l a k v (w + 1) r))"
    and "ctx_wt c (wt (rebal (Nd l a k v (w + 1) r)) - 1)"
    and "size (plug c (rebal (Nd l a k v (w + 1) r))) + 1 < 2 ^ 64"
    and "addrs (plug c (rebal (Nd l a k v (w + 1) r))) = addrs (plug c (Nd l a k v w r))"
    and "entries (plug c (rebal (Nd l a k v (w + 1) r))) = entries (plug c (Nd l a k v w r))"
proof -
  show inv: "wt_inv (Nd l a k v (w + 1) r)"
    using ok w sz by (simp add: wt_inv_def size_plug)
  note K = rebal_keeps [OF inv]
  from K show "wt_ok (rebal (Nd l a k v (w + 1) r))" by (simp add: wt_inv_def)
  from K cw show "ctx_wt c (wt (rebal (Nd l a k v (w + 1) r)) - 1)" by simp
  from K sz show "size (plug c (rebal (Nd l a k v (w + 1) r))) + 1 < 2 ^ 64" by (simp add: size_plug)
  from K show "addrs (plug c (rebal (Nd l a k v (w + 1) r))) = addrs (plug c (Nd l a k v w r))"
    and "entries (plug c (rebal (Nd l a k v (w + 1) r))) = entries (plug c (Nd l a k v w r))"
    by simp_all
qed

lemma ins_up_keeps:
  "wt_ok t \<Longrightarrow> ctx_wt c (wt t - 1) \<Longrightarrow> size (plug c t) + 1 < 2 ^ 64 \<Longrightarrow>
   wt_inv (ins_up c t) \<and> addrs (ins_up c t) = addrs (plug c t)
     \<and> entries (ins_up c t) = entries (plug c t)"
proof (induction c t rule: ins_up.induct)
  case (1 t)
  then show ?case by (simp add: wt_inv_def)
next
  case (2 a k v w r c t)
  from "2.prems" have "wt_ok t" "wt_ok r" "w + 1 = wt t + wt r" "ctx_wt c w"
    "size (plug c (Nd t a k v w r)) + 1 < 2 ^ 64"
    by auto
  note S = ins_up_step [OF this]
  from "2.IH" [OF S(2,3,4)] S(5,6) show ?case by simp
next
  case (3 l a k v w c t)
  from "3.prems" have "wt_ok l" "wt_ok t" "w + 1 = wt l + wt t" "ctx_wt c w"
    "size (plug c (Nd l a k v w t)) + 1 < 2 ^ 64"
    by auto
  note S = ins_up_step [OF this]
  from "3.IH" [OF S(2,3,4)] S(5,6) show ?case by simp
qed


section \<open>Lemmas: refinement of the loops\<close>

lemma descend_refines:
  "tree_at (heap s) par t \<Longrightarrow>
   descend s k (rootp t) (ctxp acc) rv =
     Some (case path_to (key_cmp s) k t acc rv of
             (ctx, Tip, rv') \<Rightarrow> Vacant (ctxp ctx) rv'
           | (ctx, Nd l a x v w r, rv') \<Rightarrow> Found a)"
proof (induction t arbitrary: par acc rv)
  case Tip
  show ?case by (subst descend.simps) simp
next
  case (Nd l a x v w r)
  from Nd.prems have "tree_at (heap s) (Some a) l" "tree_at (heap s) (Some a) r" by simp_all
  from Nd.IH(1) [OF this(1), of "LF a x v w r # acc"] Nd.IH(2) [OF this(2), of "RF l a x v w # acc"]
    Nd.prems
  show ?case by (subst descend.simps) simp
qed

lemma insert_up_refines:
  "wt_ok t \<Longrightarrow> ctx_wt c (wt t - 1) \<Longrightarrow> size (plug c t) + 1 < 2 ^ 64 \<Longrightarrow> repr s (plug c t) \<Longrightarrow>
   yields (insert_up s (ctxp c)) s (ins_up c t)"
proof (induction c t arbitrary: s rule: ins_up.induct)
  case (1 t)
  then show ?case by (subst insert_up.simps) (simp add: yields_Some)
next
  case (2 a k v w r c t)
  let ?N = "Nd t a k v (w + 1) r"
  from "2.prems" have "wt_ok t" "wt_ok r" "w + 1 = wt t + wt r" "ctx_wt c w"
    "size (plug c (Nd t a k v w r)) + 1 < 2 ^ 64" and r: "repr s (plug c (Nd t a k v w r))"
    by auto
  note S = ins_up_step [OF this(1-5)]
  have step: "insert_up s (Some a) = node_upd a (\<lambda>x. x\<lparr>weight := weight x + 1\<rparr>) s \<bind>
      (\<lambda>s1. FIXUP s1 a \<bind> (\<lambda>s2. insert_up s2 (ctxp c)))"
    by (subst insert_up.simps) (simp add: repr_plug_node [OF r])
  show ?case unfolding ctxp.simps faddr.simps step ins_up.simps
  proof (rule yields_bind [OF yields_node_upd [OF r, where k' = k and v' = v and w' = "w + 1"]])
    fix s1 assume r1: "repr s1 (plug c ?N)"
    show "yields (FIXUP s1 a \<bind> (\<lambda>s2. insert_up s2 (ctxp c))) s1 (ins_up c (rebal ?N))"
      by (rule yields_bind [OF FIXUP_refines [OF S(1) r1]]) (simp, rule "2.IH" [OF S(2,3,4)])
  qed simp
next
  case (3 l a k v w c t)
  let ?N = "Nd l a k v (w + 1) t"
  from "3.prems" have "wt_ok l" "wt_ok t" "w + 1 = wt l + wt t" "ctx_wt c w"
    "size (plug c (Nd l a k v w t)) + 1 < 2 ^ 64" and r: "repr s (plug c (Nd l a k v w t))"
    by auto
  note S = ins_up_step [OF this(1-5)]
  have step: "insert_up s (Some a) = node_upd a (\<lambda>x. x\<lparr>weight := weight x + 1\<rparr>) s \<bind>
      (\<lambda>s1. FIXUP s1 a \<bind> (\<lambda>s2. insert_up s2 (ctxp c)))"
    by (subst insert_up.simps) (simp add: repr_plug_node [OF r])
  show ?case unfolding ctxp.simps faddr.simps step ins_up.simps
  proof (rule yields_bind [OF yields_node_upd [OF r, where k' = k and v' = v and w' = "w + 1"]])
    fix s1 assume r1: "repr s1 (plug c ?N)"
    show "yields (FIXUP s1 a \<bind> (\<lambda>s2. insert_up s2 (ctxp c))) s1 (ins_up c (rebal ?N))"
      by (rule yields_bind [OF FIXUP_refines [OF S(1) r1]]) (simp, rule "3.IH" [OF S(2,3,4)])
  qed simp
qed


section \<open>Lemmas: linking the new node\<close>

lemma hang_left:
  assumes r: "repr s (plug (LF a x y w r # c) Tip)" and m: "m \<notin> dom (heap s)" and rv: "rv < 0"
  shows "yields
    (node_upd m (\<lambda>n. n\<lparr>parent := Some a\<rparr>) (s\<lparr>heap := (heap s)(m \<mapsto> fresh_leaf k v)\<rparr>) \<bind>
      node_upd a (\<lambda>n. if rv < 0 then n\<lparr>llink := Some m\<rparr> else n\<lparr>rlink := Some m\<rparr>))
    (s\<lparr>heap := (heap s)(m \<mapsto> fresh_leaf k v)\<rparr>)
    (plug (LF a x y w r # c) (Nd Tip m k v 2 Tip))"
proof -
  let ?h = "(heap s)(m \<mapsto> \<lparr>key = k, datum = v, parent = Some a, llink = None, rlink = None, weight = 2\<rparr>,
    a \<mapsto> \<lparr>key = x, datum = y, parent = ctxp c, llink = Some m, rlink = rootp r, weight = w\<rparr>)"
  note D = repr_plugD [OF r]
  from m repr_dom [OF r] have fr: "m \<noteq> a" "m \<notin> set (addrs r)" "m \<notin> set (cpre c)" "m \<notin> set (cpost c)"
    by auto
  from D(1) have ha: "heap s a = Some \<lparr>key = x, datum = y, parent = ctxp c, llink = None,
      rlink = rootp r, weight = w\<rparr>" and tr: "tree_at (heap s) (Some a) r" and cx: "ctx_at (heap s) c (Some a)"
    by simp_all
  from D(3) have da: "a \<notin> set (addrs r)" "a \<notin> set (cpre c)" "a \<notin> set (cpost c)" by auto
  show ?thesis
  proof (rule yieldsI [where h = ?h])
    show "node_upd m (\<lambda>n. n\<lparr>parent := Some a\<rparr>) (s\<lparr>heap := (heap s)(m \<mapsto> fresh_leaf k v)\<rparr>) \<bind>
        node_upd a (\<lambda>n. if rv < 0 then n\<lparr>llink := Some m\<rparr> else n\<lparr>rlink := Some m\<rparr>) =
      Some (s\<lparr>heap := (heap s)(m \<mapsto> fresh_leaf k v),
        root := rootp (plug (LF a x y w r # c) (Nd Tip m k v 2 Tip)), heap := ?h\<rparr>)"
      using fr ha rv D(4) by (simp add: fresh_leaf_def rootp_plug split: list.splits)
    show "tree_at ?h None (plug (LF a x y w r # c) (Nd Tip m k v 2 Tip))"
      using fr da tr cx by (simp add: tree_at_plug)
    show "distinct (addrs (plug (LF a x y w r # c) (Nd Tip m k v 2 Tip)))"
      using D(3) fr by simp
    show "dom ?h = dom (heap (s\<lparr>heap := (heap s)(m \<mapsto> fresh_leaf k v)\<rparr>))"
      using ha by auto
  qed
qed

lemma hang_right:
  assumes r: "repr s (plug (RF l a x y w # c) Tip)" and m: "m \<notin> dom (heap s)" and rv: "\<not> rv < 0"
  shows "yields
    (node_upd m (\<lambda>n. n\<lparr>parent := Some a\<rparr>) (s\<lparr>heap := (heap s)(m \<mapsto> fresh_leaf k v)\<rparr>) \<bind>
      node_upd a (\<lambda>n. if rv < 0 then n\<lparr>llink := Some m\<rparr> else n\<lparr>rlink := Some m\<rparr>))
    (s\<lparr>heap := (heap s)(m \<mapsto> fresh_leaf k v)\<rparr>)
    (plug (RF l a x y w # c) (Nd Tip m k v 2 Tip))"
proof -
  let ?h = "(heap s)(m \<mapsto> \<lparr>key = k, datum = v, parent = Some a, llink = None, rlink = None, weight = 2\<rparr>,
    a \<mapsto> \<lparr>key = x, datum = y, parent = ctxp c, llink = rootp l, rlink = Some m, weight = w\<rparr>)"
  note D = repr_plugD [OF r]
  from m repr_dom [OF r] have fr: "m \<noteq> a" "m \<notin> set (addrs l)" "m \<notin> set (cpre c)" "m \<notin> set (cpost c)"
    by auto
  from D(1) have ha: "heap s a = Some \<lparr>key = x, datum = y, parent = ctxp c, llink = rootp l,
      rlink = None, weight = w\<rparr>" and tl: "tree_at (heap s) (Some a) l" and cx: "ctx_at (heap s) c (Some a)"
    by simp_all
  from D(3) have da: "a \<notin> set (addrs l)" "a \<notin> set (cpre c)" "a \<notin> set (cpost c)" by auto
  show ?thesis
  proof (rule yieldsI [where h = ?h])
    show "node_upd m (\<lambda>n. n\<lparr>parent := Some a\<rparr>) (s\<lparr>heap := (heap s)(m \<mapsto> fresh_leaf k v)\<rparr>) \<bind>
        node_upd a (\<lambda>n. if rv < 0 then n\<lparr>llink := Some m\<rparr> else n\<lparr>rlink := Some m\<rparr>) =
      Some (s\<lparr>heap := (heap s)(m \<mapsto> fresh_leaf k v),
        root := rootp (plug (RF l a x y w # c) (Nd Tip m k v 2 Tip)), heap := ?h\<rparr>)"
      using fr ha rv D(4) by (simp add: fresh_leaf_def rootp_plug split: list.splits)
    show "tree_at ?h None (plug (RF l a x y w # c) (Nd Tip m k v 2 Tip))"
      using fr da tl cx by (simp add: tree_at_plug)
    show "distinct (addrs (plug (RF l a x y w # c) (Nd Tip m k v 2 Tip)))"
      using D(3) fr by simp
    show "dom ?h = dom (heap (s\<lparr>heap := (heap s)(m \<mapsto> fresh_leaf k v)\<rparr>))"
      using ha by auto
  qed
qed


lemma link_new_nonempty:
  assumes y: "yields hang s1 (plug ctx (Nd Tip m k v 2 Tip))"
    and eq: "link_new s1 m (ctxp ctx) rv =
      (hang \<bind> (\<lambda>s3. insert_up s3 (ctxp ctx))) \<bind> (\<lambda>s4. Some (s4\<lparr>count := count s4 + 1\<rparr>))"
    and wt: "ctx_wt ctx 1" and sz: "size (plug ctx Tip) + 2 < 2 ^ 64"
  shows "\<exists>s'. link_new s1 m (ctxp ctx) rv = Some s'
    \<and> repr s' (ins_up ctx (Nd Tip m k v 2 Tip)) \<and> count s' = count s1 + 1
    \<and> dom (heap s') = dom (heap s1)
    \<and> key_cmp s' = key_cmp s1 \<and> del_func s' = del_func s1 \<and> freed s' = freed s1"
proof -
  have "yields (hang \<bind> (\<lambda>s3. insert_up s3 (ctxp ctx))) s1 (ins_up ctx (Nd Tip m k v 2 Tip))"
    using wt sz by (intro yields_bind [OF y] insert_up_refines) (simp_all add: size_plug)
  then obtain s4 where run: "hang \<bind> (\<lambda>s3. insert_up s3 (ctxp ctx)) = Some s4"
    and r4: "repr s4 (ins_up ctx (Nd Tip m k v 2 Tip))"
    and e4: "s4 = s1\<lparr>root := root s4, heap := heap s4\<rparr>" and d4: "dom (heap s4) = dom (heap s1)"
    by (rule yieldsE)
  have "count s4 = count s1" "key_cmp s4 = key_cmp s1" "del_func s4 = del_func s1" "freed s4 = freed s1"
    by (subst e4, simp)+
  with r4 d4 show ?thesis by (simp add: eq run)
qed

lemma link_new_refines:
  assumes r: "repr s (plug ctx Tip)" and m: "m \<notin> dom (heap s)"
    and sh: "ctx = [] \<and> count s = 0 \<or> (\<exists>a x y w r c. ctx = LF a x y w r # c \<and> rv < 0)
      \<or> (\<exists>l a x y w c. ctx = RF l a x y w # c \<and> \<not> rv < 0)"
    and wt: "ctx_wt ctx 1" and sz: "size (plug ctx Tip) + 2 < 2 ^ 64"
  shows "\<exists>s'. link_new (s\<lparr>heap := (heap s)(m \<mapsto> fresh_leaf k v)\<rparr>) m (ctxp ctx) rv = Some s'
    \<and> repr s' (ins_up ctx (Nd Tip m k v 2 Tip)) \<and> count s' = count s + 1
    \<and> dom (heap s') = insert m (dom (heap s))
    \<and> key_cmp s' = key_cmp s \<and> del_func s' = del_func s \<and> freed s' = freed s"
proof -
  from sh consider (empty) "ctx = []" "count s = 0"
    | (left) a x y w r c where "ctx = LF a x y w r # c" "rv < 0"
    | (right) l a x y w c where "ctx = RF l a x y w # c" "\<not> rv < 0"
    by blast
  then show ?thesis
  proof cases
    case empty
    with r m show ?thesis
      by (auto simp: link_new_def fresh_leaf_def repr_def)
  next
    case left
    from link_new_nonempty [OF hang_left [OF r [unfolded left(1)] m left(2), of k v] _
        wt [unfolded left(1)] sz [unfolded left(1)]]
    show ?thesis unfolding left(1) by (simp add: link_new_def)
  next
    case right
    from link_new_nonempty [OF hang_right [OF r [unfolded right(1)] m right(2), of k v] _
        wt [unfolded right(1)] sz [unfolded right(1)]]
    show ?thesis unfolding right(1) by (simp add: link_new_def)
  qed
qed


section \<open>Lemmas: the two outcomes of the descent\<close>

lemma path_to_cases [consumes 2, case_names vacant found]:
  assumes "total_cmp c" and "sorted_by c (entries t)"
  obtains (vacant) ctx rv where "path_to c k t [] 0 = (ctx, Tip, rv)" "lookup_by c k (entries t) = None"
  | (found) ctx l b x y w r rv where "path_to c k t [] 0 = (ctx, Nd l b x y w r, rv)"
      "lookup_by c k (entries t) = Some y" "c k x = 0"
proof (cases "path_to c k t [] 0")
  case (fields ctx sub rv)
  from path_to_lookup [OF fields] lookup_sorted [OF assms, of k] show thesis
    by (cases sub) (auto intro: vacant found simp: fields)
qed

lemma attach_refines:
  assumes inv: "pr_inv s t" and p: "path_to (key_cmp s) k t [] 0 = (ctx, Tip, rv)"
    and m: "m \<notin> dom (heap s)" and sz: "size t + 2 < 2 ^ 64"
  shows "\<exists>s'. link_new (s\<lparr>heap := (heap s)(m \<mapsto> fresh_leaf k v)\<rparr>) m (ctxp ctx) rv = Some s'
    \<and> pr_inv s' (ins (key_cmp s) k v m t)
    \<and> entries (ins (key_cmp s) k v m t) = upd_by (key_cmp s) k v (entries t)
    \<and> key_cmp s' = key_cmp s \<and> del_func s' = del_func s \<and> freed s' = freed s"
proof -
  let ?c = "key_cmp s" and ?T = "ins_up ctx (Nd Tip m k v 2 Tip)"
  note I = pr_invD [OF inv]
  from path_to_plug [OF p] have t: "t = plug ctx Tip" by simp
  have T: "ins ?c k v m t = ?T" by (simp add: ins_def p)
  from I(2) have cw: "ctx_wt ctx 1" by (simp add: t wt_inv_def wt_ok_plug)
  from path_to_Tip_rv [OF p] I(5) have sh: "ctx = [] \<and> count s = 0
      \<or> (\<exists>a x y w r c. ctx = LF a x y w r # c \<and> rv < 0)
      \<or> (\<exists>l a x y w c. ctx = RF l a x y w # c \<and> \<not> rv < 0)"
    by auto
  from ins_up_keeps [of "Nd Tip m k v 2 Tip" ctx] cw sz
  have K: "wt_inv ?T" "addrs ?T = addrs (plug ctx (Nd Tip m k v 2 Tip))"
    "entries ?T = entries (plug ctx (Nd Tip m k v 2 Tip))"
    by (simp_all add: t size_plug)
  have E: "entries ?T = upd_by ?c k v (entries t)"
    using entries_vacant [OF I(3,4) p, of v] K(3) by simp
  have S: "size ?T = size t + 1"
    using arg_cong [OF K(2), of length] by (simp add: t size_plug)
  from link_new_refines [OF I(1) [unfolded t] m sh cw, of k v] sz obtain s' where
    L: "link_new (s\<lparr>heap := (heap s)(m \<mapsto> fresh_leaf k v)\<rparr>) m (ctxp ctx) rv = Some s'"
      "repr s' ?T" "count s' = count s + 1" "dom (heap s') = insert m (dom (heap s))"
      "key_cmp s' = key_cmp s" "del_func s' = del_func s" "freed s' = freed s"
    by (auto simp: t)
  have SO: "sorted_by ?c (entries ?T)"
    unfolding E by (rule sorted_by_upd_by [OF I(3,4)])
  have "pr_inv s' ?T"
  proof (rule pr_invI [OF L(2) K(1)])
    show "count s' = of_nat (size ?T)" by (simp add: L(3) I(5) S)
    show "dom (heap s') = set (addrs ?T)" by (simp add: L(4) I(6) K(2) t)
  qed (simp_all add: L(5) I(3) SO)
  with L E show ?thesis by (simp add: T)
qed

lemma overwrite_refines:
  assumes inv: "pr_inv s t" and p: "path_to (key_cmp s) k t [] 0 = (ctx, Nd l b x y w r, rv)"
  shows "yields (node_upd b (\<lambda>n. n\<lparr>key := k, datum := v\<rparr>) (call_del x y s)) (call_del x y s)
      (ins (key_cmp s) k v a t)"
    and "wt_inv (ins (key_cmp s) k v a t)"
    and "entries (ins (key_cmp s) k v a t) = upd_by (key_cmp s) k v (entries t)"
    and "addrs (ins (key_cmp s) k v a t) = addrs t"
proof -
  note I = pr_invD [OF inv]
  from path_to_plug [OF p] have t: "t = plug ctx (Nd l b x y w r)" by simp
  have T: "ins (key_cmp s) k v a t = plug ctx (Nd l b k v w r)" by (simp add: ins_def p)
  from I(1) have "repr (call_del x y s) (plug ctx (Nd l b x y w r))" by (simp add: t)
  from yields_node_upd [OF this, of "\<lambda>n. n\<lparr>key := k, datum := v\<rparr>" k v w]
  show "yields (node_upd b (\<lambda>n. n\<lparr>key := k, datum := v\<rparr>) (call_del x y s)) (call_del x y s)
      (ins (key_cmp s) k v a t)"
    by (simp add: T)
  show "wt_inv (ins (key_cmp s) k v a t)"
    unfolding T using I(2) by (auto simp: t wt_inv_def wt_ok_plug size_plug)
  from entries_found [OF I(3,4) p] show "entries (ins (key_cmp s) k v a t) = upd_by (key_cmp s) k v (entries t)"
    by (simp add: T)
  show "addrs (ins (key_cmp s) k v a t) = addrs t" unfolding T by (simp add: t)
qed


section \<open>Lemmas: \<open>pr_tree_insert\<close> and \<open>pr_tree_probe\<close> on each outcome\<close>

lemma descend_root:
  "repr s t \<Longrightarrow> descend s k (root s) None 0 =
     Some (case path_to (key_cmp s) k t [] 0 of
             (ctx, Tip, rv') \<Rightarrow> Vacant (ctxp ctx) rv'
           | (ctx, Nd l a x v w r, rv') \<Rightarrow> Found a)"
  using descend_refines [of s None t k "[]" 0] by (simp add: repr_def)

lemma found_node:
  assumes "pr_inv s t" and "path_to (key_cmp s) k t [] 0 = (ctx, Nd l b x y w r, rv)"
  shows "heap s b = Some \<lparr>key = x, datum = y, parent = ctxp ctx, llink = rootp l, rlink = rootp r,
    weight = w\<rparr>"
  using pr_invD(1) [OF assms(1)] path_to_plug [OF assms(2)] by (auto intro: repr_plug_node)

lemma pr_tree_insert_vacant:
  assumes inv: "pr_inv s t" and p: "path_to (key_cmp s) k t [] 0 = (ctx, Tip, rv)"
    and m: "m \<notin> dom (heap s)" and sz: "size t + 2 < 2 ^ 64"
  shows "\<exists>s'. pr_tree_insert s k v ov (Some m) = Some (0, s')
    \<and> pr_inv s' (ins (key_cmp s) k v m t)
    \<and> entries (ins (key_cmp s) k v m t) = upd_by (key_cmp s) k v (entries t)
    \<and> key_cmp s' = key_cmp s \<and> del_func s' = del_func s \<and> freed s' = freed s"
  using attach_refines [OF assms, of v] m
  by (auto simp: pr_tree_insert_def descend_root [OF pr_invD(1) [OF inv]] p node_new_def
      fresh_leaf_def)

lemma pr_tree_probe_vacant:
  assumes inv: "pr_inv s t" and p: "path_to (key_cmp s) k t [] 0 = (ctx, Tip, rv)"
    and m: "m \<notin> dom (heap s)" and sz: "size t + 2 < 2 ^ 64"
  shows "\<exists>s'. pr_tree_probe s k v (Some m) = Some (1, v, s')
    \<and> pr_inv s' (ins (key_cmp s) k v m t)
    \<and> entries (ins (key_cmp s) k v m t) = upd_by (key_cmp s) k v (entries t)
    \<and> key_cmp s' = key_cmp s \<and> del_func s' = del_func s \<and> freed s' = freed s"
  using attach_refines [OF assms, of v] m
  by (auto simp: pr_tree_probe_def descend_root [OF pr_invD(1) [OF inv]] p node_new_def
      fresh_leaf_def)

lemma insert_nomem:
  assumes inv: "pr_inv s t" and p: "path_to (key_cmp s) k t [] 0 = (ctx, Tip, rv)"
  shows "pr_tree_insert s k v ov None = Some (- 1, s)" and "pr_tree_probe s k v None = Some (- 1, v, s)"
  by (simp_all add: pr_tree_insert_def pr_tree_probe_def descend_root [OF pr_invD(1) [OF inv]] p)

lemma insert_found:
  assumes inv: "pr_inv s t" and p: "path_to (key_cmp s) k t [] 0 = (ctx, Nd l b x y w r, rv)"
  shows "pr_tree_insert s k v 0 m = Some (1, s)" and "pr_tree_probe s k v m = Some (0, y, s)"
  by (simp_all add: pr_tree_insert_def pr_tree_probe_def descend_root [OF pr_invD(1) [OF inv]] p
      found_node [OF assms])

lemma pr_tree_insert_overwrite:
  assumes inv: "pr_inv s t" and p: "path_to (key_cmp s) k t [] 0 = (ctx, Nd l b x y w r, rv)"
    and ov: "ov \<noteq> 0"
  shows "\<exists>s'. pr_tree_insert s k v ov m = Some (0, s')
    \<and> pr_inv s' (ins (key_cmp s) k v a t)
    \<and> entries (ins (key_cmp s) k v a t) = upd_by (key_cmp s) k v (entries t)
    \<and> key_cmp s' = key_cmp s \<and> del_func s' = del_func s
    \<and> freed s' = (if del_func s then freed s @ [(x, y)] else freed s)"
proof -
  note I = pr_invD [OF inv] and O = overwrite_refines [OF inv p, of v a]
  from O(1) obtain s' where
    run: "node_upd b (\<lambda>n. n\<lparr>key := k, datum := v\<rparr>) (call_del x y s) = Some s'"
    by (rule yieldsE)
  note F = yields_fields [OF O(1) run]
  have "pr_tree_insert s k v ov m = Some (0, s')"
    using ov run
    by (simp add: pr_tree_insert_def descend_root [OF I(1)] p found_node [OF inv p])
  moreover have "size (ins (key_cmp s) k v a t) = size t"
    using arg_cong [OF O(4), of length] by simp
  moreover from this have "pr_inv s' (ins (key_cmp s) k v a t)"
    using F O I by (intro pr_invI) (simp_all add: sorted_by_upd_by)
  ultimately show ?thesis using F O(3) by (simp add: freed_call_del)
qed


lemma lookup_by_vacant:
  assumes "pr_inv s t" and "lookup_by (key_cmp s) k (entries t) = None"
  obtains ctx rv where "path_to (key_cmp s) k t [] 0 = (ctx, Tip, rv)"
  using pr_invD(3,4) [OF assms(1)] assms(2) by (cases rule: path_to_cases [where k = k]) auto

lemma lookup_by_found:
  assumes "pr_inv s t" and "lookup_by (key_cmp s) k (entries t) = Some y"
  obtains ctx l b x w r rv where "path_to (key_cmp s) k t [] 0 = (ctx, Nd l b x y w r, rv)"
    and "key_cmp s k x = 0"
  using pr_invD(3,4) [OF assms(1)] assms(2) by (cases rule: path_to_cases [where k = k]) auto

lemma pr_tree_insert_total:
  assumes inv: "pr_inv s t" and m: "case m of None \<Rightarrow> True | Some a \<Rightarrow> a \<notin> dom (heap s)"
    and sz: "size t + 2 < 2 ^ 64"
  shows "\<exists>rc s' t'. pr_tree_insert s k v ov m = Some (rc, s') \<and> pr_inv s' t'
    \<and> key_cmp s' = key_cmp s \<and> del_func s' = del_func s
    \<and> (rc = 0 \<or> rc = 1 \<or> rc = - 1)
    \<and> (rc = 0 \<longrightarrow> entries t' = upd_by (key_cmp s) k v (entries t))
    \<and> (rc \<noteq> 0 \<longrightarrow> s' = s \<and> t' = t)"
proof -
  from pr_invD(3,4) [OF inv] show ?thesis
  proof (cases rule: path_to_cases [where k = k])
    case (vacant ctx rv)
    show ?thesis
    proof (cases m)
      case None
      with insert_nomem(1) [OF inv vacant(1), of v ov] inv show ?thesis by auto
    next
      case (Some a)
      with pr_tree_insert_vacant [OF inv vacant(1) _ sz, of a v ov] m show ?thesis by auto
    qed
  next
    case (found ctx l b x y w r rv)
    show ?thesis
    proof (cases "ov = 0")
      case True
      with insert_found(1) [OF inv found(1), of v m] inv show ?thesis by auto
    next
      case False
      from pr_tree_insert_overwrite [OF inv found(1) False, of v m 0] show ?thesis by auto
    qed
  qed
qed

section \<open>Properties\<close>

text \<open>
  The dictionary with keys 10 and 20 stored as a right-leaning chain at addresses
  0 and 1. Inserting key 30 at a fresh address makes the root right-heavy, so that
  the walk back up rotates left at the root.
\<close>

definition chain2 :: "(int, nat) ltree" where
  "chain2 = Nd Tip 0 10 1 3 (Nd Tip 1 20 2 2 Tip)"

lemma pr_inv_chain2: "pr_inv (state_of int_cmp d chain2) chain2"
  by (rule pr_inv_state_of) (simp_all add: chain2_def wt_inv_def int_cmp_def)

lemma ins_chain2:
  "ins int_cmp 30 3 2 chain2 = Nd (Nd Tip 0 10 1 2 Tip) 1 20 2 4 (Nd Tip 2 30 3 2 Tip)"
  "ins int_cmp 20 7 2 chain2 = Nd Tip 0 10 1 3 (Nd Tip 1 20 7 2 Tip)"
  by (simp_all add: ins_def chain2_def int_cmp_def rebal.simps)

text \<open>
  C1 (functional): insertion of an absent key. On a state that satisfies the tree
  invariant, when the key is not in the dictionary, \<^verbatim>\<open>MALLOC\<close> returns a fresh
  address and the tree has room for one more node, \<^verbatim>\<open>pr_tree_insert\<close> returns 0;
  the new state satisfies the invariant for the tree \<open>ins\<close> computes, whose
  in-order entries are the old entries with the pair inserted at its sorted
  position; the deleter is not called.
\<close>

theorem pr_tree_insert_new:
  assumes "pr_inv s t" and "lookup_by (key_cmp s) k (entries t) = None"
    and "m \<notin> dom (heap s)" and "size t + 2 < 2 ^ 64"
  shows "\<exists>s'. pr_tree_insert s k v ov (Some m) = Some (0, s')
    \<and> pr_inv s' (ins (key_cmp s) k v m t)
    \<and> entries (ins (key_cmp s) k v m t) = upd_by (key_cmp s) k v (entries t)
    \<and> key_cmp s' = key_cmp s \<and> del_func s' = del_func s \<and> freed s' = freed s"
  using assms(1,2) by (rule lookup_by_vacant) (rule pr_tree_insert_vacant [OF assms(1) _ assms(3,4)])

theorem pr_tree_insert_new_witness:
  "pr_inv (state_of int_cmp False chain2) chain2
   \<and> lookup_by int_cmp 30 (entries chain2) = None
   \<and> 2 \<notin> dom (heap (state_of int_cmp False chain2))
   \<and> (\<exists>s'. pr_tree_insert (state_of int_cmp False chain2) 30 3 0 (Some 2) = Some (0, s')
        \<and> pr_inv s' (Nd (Nd Tip 0 10 1 2 Tip) 1 20 2 4 (Nd Tip 2 30 3 2 Tip))
        \<and> entries (Nd (Nd Tip 0 10 1 2 Tip) 1 20 2 4 (Nd Tip 2 30 3 2 Tip)) = [(10, 1), (20, 2), (30, 3)])"
  using pr_tree_insert_new [OF pr_inv_chain2, of False 30 2 3 0] pr_inv_chain2 [of False]
  by (simp add: ins_chain2) (auto simp: chain2_def int_cmp_def)

text \<open>
  C23 (functional): insertion over an existing key with the overwrite flag set.
  \<^verbatim>\<open>pr_tree_insert\<close> returns 0, hands the stored key and datum to the deleter
  when there is one, and stores the new key and datum in the same node: shape,
  weights and addresses are unchanged, and the entries are the old entries with
  the pair replaced.
\<close>

theorem pr_tree_insert_replaces:
  assumes "pr_inv s t" and "lookup_by (key_cmp s) k (entries t) = Some y" and "ov \<noteq> 0"
  shows "\<exists>s' x. pr_tree_insert s k v ov m = Some (0, s')
    \<and> pr_inv s' (ins (key_cmp s) k v a t)
    \<and> entries (ins (key_cmp s) k v a t) = upd_by (key_cmp s) k v (entries t)
    \<and> addrs (ins (key_cmp s) k v a t) = addrs t
    \<and> key_cmp s k x = 0
    \<and> freed s' = (if del_func s then freed s @ [(x, y)] else freed s)"
proof -
  from assms(1,2) obtain ctx l b x w r rv where
    p: "path_to (key_cmp s) k t [] 0 = (ctx, Nd l b x y w r, rv)" and x: "key_cmp s k x = 0"
    by (rule lookup_by_found)
  from pr_tree_insert_overwrite [OF assms(1) p assms(3), of v m a]
    overwrite_refines(4) [OF assms(1) p, of v a] x
  show ?thesis by blast
qed

theorem pr_tree_insert_replaces_witness:
  "pr_inv (state_of int_cmp True chain2) chain2
   \<and> lookup_by int_cmp 20 (entries chain2) = Some 2
   \<and> (\<exists>s'. pr_tree_insert (state_of int_cmp True chain2) 20 7 1 None = Some (0, s')
        \<and> pr_inv s' (Nd Tip 0 10 1 3 (Nd Tip 1 20 7 2 Tip)) \<and> freed s' = [(20, 2)])"
proof -
  from pr_tree_insert_replaces [OF pr_inv_chain2, of True 20 2 1 7 None 2]
  obtain s' x where "pr_tree_insert (state_of int_cmp True chain2) 20 7 1 None = Some (0, s')"
    "pr_inv s' (Nd Tip 0 10 1 3 (Nd Tip 1 20 7 2 Tip))" "int_cmp 20 x = 0" "freed s' = [(x, 2)]"
    by (auto simp: ins_chain2) (auto simp: chain2_def int_cmp_def)
  then show ?thesis using pr_inv_chain2 [of True]
    by (auto simp: int_cmp_def) (simp_all add: chain2_def int_cmp_def)
qed

text \<open>
  C24 (error): a duplicate key with the overwrite flag clear is rejected:
  \<^verbatim>\<open>pr_tree_insert\<close> returns 1 and the state, heap included, is unchanged; no
  node is allocated and the deleter is not called.
\<close>

theorem pr_tree_insert_duplicate:
  assumes "pr_inv s t" and "lookup_by (key_cmp s) k (entries t) = Some y"
  shows "pr_tree_insert s k v 0 m = Some (1, s)"
  using assms by (rule lookup_by_found) (rule insert_found(1) [OF assms(1)])

theorem pr_tree_insert_duplicate_witness:
  "pr_inv (state_of int_cmp True chain2) chain2
   \<and> lookup_by int_cmp 20 (entries chain2) = Some 2
   \<and> pr_tree_insert (state_of int_cmp True chain2) 20 7 0 (Some 2)
       = Some (1, state_of int_cmp True chain2)"
  using pr_tree_insert_duplicate [OF pr_inv_chain2, of True 20 2 7 "Some 2"] pr_inv_chain2 [of True]
  by (simp add: chain2_def int_cmp_def)

text \<open>
  C25 (error): allocation failure. When the key is absent and \<^verbatim>\<open>MALLOC\<close> returns
  \<^verbatim>\<open>NULL\<close>, \<^verbatim>\<open>pr_tree_insert\<close> and \<^verbatim>\<open>pr_tree_probe\<close> return -1 and leave the
  state unchanged.
\<close>

theorem pr_tree_insert_nomem:
  assumes "pr_inv s t" and "lookup_by (key_cmp s) k (entries t) = None"
  shows "pr_tree_insert s k v ov None = Some (- 1, s) \<and> pr_tree_probe s k v None = Some (- 1, v, s)"
  using assms by (rule lookup_by_vacant) (simp add: insert_nomem [OF assms(1)])

theorem pr_tree_insert_nomem_witness:
  "pr_inv (state_of int_cmp True chain2) chain2
   \<and> lookup_by int_cmp 30 (entries chain2) = None
   \<and> pr_tree_insert (state_of int_cmp True chain2) 30 7 0 None
       = Some (- 1, state_of int_cmp True chain2)
   \<and> pr_tree_probe (state_of int_cmp True chain2) 30 7 None
       = Some (- 1, 7, state_of int_cmp True chain2)"
  using pr_tree_insert_nomem [OF pr_inv_chain2, of True 30 7 0] pr_inv_chain2 [of True]
  by (simp add: chain2_def int_cmp_def)

text \<open>
  C28 (functional): \<^verbatim>\<open>pr_tree_probe\<close> on a key that is present returns 0 and the
  stored datum in its in/out parameter, and leaves the state unchanged.
\<close>

theorem pr_tree_probe_found:
  assumes "pr_inv s t" and "lookup_by (key_cmp s) k (entries t) = Some y"
  shows "pr_tree_probe s k v m = Some (0, y, s)"
  using assms by (rule lookup_by_found) (rule insert_found(2) [OF assms(1)])

theorem pr_tree_probe_found_witness:
  "pr_inv (state_of int_cmp True chain2) chain2
   \<and> lookup_by int_cmp 20 (entries chain2) = Some 2
   \<and> pr_tree_probe (state_of int_cmp True chain2) 20 7 (Some 2)
       = Some (0, 2, state_of int_cmp True chain2)"
  using pr_tree_probe_found [OF pr_inv_chain2, of True 20 2 7 "Some 2"] pr_inv_chain2 [of True]
  by (simp add: chain2_def int_cmp_def)

text \<open>
  C27 (functional): \<^verbatim>\<open>pr_tree_probe\<close> on an absent key behaves as an insertion: it
  returns 1, leaves the supplied datum in the in/out parameter, and the new state
  satisfies the invariant for the tree \<open>ins\<close> computes, whose entries are the old
  entries with the pair inserted at its sorted position.
\<close>

theorem pr_tree_probe_new:
  assumes "pr_inv s t" and "lookup_by (key_cmp s) k (entries t) = None"
    and "m \<notin> dom (heap s)" and "size t + 2 < 2 ^ 64"
  shows "\<exists>s'. pr_tree_probe s k v (Some m) = Some (1, v, s')
    \<and> pr_inv s' (ins (key_cmp s) k v m t)
    \<and> entries (ins (key_cmp s) k v m t) = upd_by (key_cmp s) k v (entries t)
    \<and> key_cmp s' = key_cmp s \<and> del_func s' = del_func s \<and> freed s' = freed s"
  using assms(1,2) by (rule lookup_by_vacant) (rule pr_tree_probe_vacant [OF assms(1) _ assms(3,4)])

theorem pr_tree_probe_new_witness:
  "pr_inv (state_of int_cmp False chain2) chain2
   \<and> lookup_by int_cmp 30 (entries chain2) = None
   \<and> 2 \<notin> dom (heap (state_of int_cmp False chain2))
   \<and> (\<exists>s'. pr_tree_probe (state_of int_cmp False chain2) 30 3 (Some 2) = Some (1, 3, s')
        \<and> pr_inv s' (Nd (Nd Tip 0 10 1 2 Tip) 1 20 2 4 (Nd Tip 2 30 3 2 Tip)))"
  using pr_tree_probe_new [OF pr_inv_chain2, of False 30 2 3] pr_inv_chain2 [of False]
  by (simp add: ins_chain2) (auto simp: chain2_def int_cmp_def)

text \<open>
  C6 (invariant): \<^verbatim>\<open>pr_tree_insert\<close> is total on states that satisfy the tree
  invariant and preserves it. Whatever the key, the flag and the outcome of
  \<^verbatim>\<open>MALLOC\<close> (failure, or a fresh address), the call returns 0, 1 or -1 and a
  state that satisfies the invariant; with 0 the entries are the old entries
  updated with the pair, otherwise nothing has changed.
\<close>

theorem pr_tree_insert_inv:
  assumes "pr_inv s t" and "case m of None \<Rightarrow> True | Some a \<Rightarrow> a \<notin> dom (heap s)"
    and "size t + 2 < 2 ^ 64"
  shows "\<exists>rc s' t'. pr_tree_insert s k v ov m = Some (rc, s') \<and> pr_inv s' t'
    \<and> (rc = 0 \<or> rc = 1 \<or> rc = - 1)
    \<and> (rc = 0 \<longrightarrow> entries t' = upd_by (key_cmp s) k v (entries t))
    \<and> (rc \<noteq> 0 \<longrightarrow> s' = s \<and> t' = t)"
  using pr_tree_insert_total [OF assms, of k v ov] by blast

theorem pr_tree_insert_inv_witness:
  "pr_inv (state_of int_cmp False chain2) chain2
   \<and> (\<exists>rc s' t'. pr_tree_insert (state_of int_cmp False chain2) 30 3 0 (Some 2) = Some (rc, s')
        \<and> pr_inv s' t' \<and> (rc = 0 \<or> rc = 1 \<or> rc = - 1))"
  using pr_tree_insert_inv [OF pr_inv_chain2 [of False], of "Some 2" 30 3 0] pr_inv_chain2 [of False]
  by (auto simp: chain2_def)

end
