(* ===== verification/PR_Remove.thy ===== *)
theory PR_Remove
  imports PR_Insert
begin

text \<open>
  \<^verbatim>\<open>pr_tree_remove\<close>. The loop of the C function first descends to the node that
  holds the key. While that node has two children it is rotated downwards:
  towards the right when the left subtree is heavier, after a left rotation of
  the left child if that child leans right, and symmetrically otherwise. Once a
  child is missing, the other child is spliced into the node's place
  (\<open>unlink\<close>), the deleter is called, the node is freed, and every weight on the
  path to the root is decremented (\<open>weight_down\<close>). No \<^verbatim>\<open>fixup\<close> is run.

  On labelled trees, \<open>sink_path\<close> follows the rotations and returns the context in
  which the node ends up together with the subtree it then roots; \<open>splice_out\<close>
  is the child that replaces it, and \<open>del\<close> is the whole removal.
\<close>

section \<open>The C function\<close>

partial_function (option) weight_down :: "('k, 'v) pr_state \<Rightarrow> ptr \<Rightarrow> ('k, 'v) pr_state option" where
  "weight_down s temp =
     (case temp of
        None \<Rightarrow> Some s
      | Some a \<Rightarrow> do {
          s1 \<leftarrow> node_upd a (\<lambda>x. x\<lparr>weight := weight x - 1\<rparr>) s;
          n \<leftarrow> heap s1 a;
          weight_down s1 (parent n) })"

definition unlink :: "('k, 'v) pr_state \<Rightarrow> addr \<Rightarrow> ptr \<Rightarrow> ('k, 'v) pr_state option" where
  "unlink s node out = do {
     n \<leftarrow> heap s node;
     s1 \<leftarrow> link_parent out (parent n) s;
     n1 \<leftarrow> heap s1 node;
     s2 \<leftarrow> replace_child (parent n1) node out s1;
     n2 \<leftarrow> heap s2 node;
     s3 \<leftarrow> node_free node (call_del (key n2) (datum n2) s2);
     s4 \<leftarrow> weight_down s3 (parent n2);
     Some (s4\<lparr>count := count s4 - 1\<rparr>) }"

partial_function (option) remove_loop ::
  "('k, 'v) pr_state \<Rightarrow> 'k \<Rightarrow> ptr \<Rightarrow> (int \<times> ('k, 'v) pr_state) option" where
  "remove_loop s k node =
     (case node of
        None \<Rightarrow> Some (- 1, s)
      | Some a \<Rightarrow> do {
          n \<leftarrow> heap s a;
          let rv = key_cmp s k (key n);
          if rv \<noteq> 0 then remove_loop s k (if rv < 0 then llink n else rlink n)
          else if llink n = None then do { s' \<leftarrow> unlink s a (rlink n); Some (0, s') }
          else if rlink n = None then do { s' \<leftarrow> unlink s a (llink n); Some (0, s') }
          else do {
            wl \<leftarrow> WEIGHT s (llink n);
            wr \<leftarrow> WEIGHT s (rlink n);
            if wl > wr then do {
              l \<leftarrow> llink n;
              ln \<leftarrow> heap s l;
              wll \<leftarrow> WEIGHT s (llink ln);
              wlr \<leftarrow> WEIGHT s (rlink ln);
              s1 \<leftarrow> (if wll < wlr then rot_left s l else Some s);
              n1 \<leftarrow> heap s1 a;
              out \<leftarrow> llink n1;
              s2 \<leftarrow> rot_right s1 a;
              on \<leftarrow> heap s2 out;
              remove_loop s2 k (rlink on) }
            else do {
              r \<leftarrow> rlink n;
              rn \<leftarrow> heap s r;
              wrr \<leftarrow> WEIGHT s (rlink rn);
              wrl \<leftarrow> WEIGHT s (llink rn);
              s1 \<leftarrow> (if wrr < wrl then rot_right s r else Some s);
              n1 \<leftarrow> heap s1 a;
              out \<leftarrow> rlink n1;
              s2 \<leftarrow> rot_left s1 a;
              on \<leftarrow> heap s2 out;
              remove_loop s2 k (llink on) } } })"

text \<open>
  \<^verbatim>\<open>pr_tree_remove\<close> is the one function that asserts its key: the key argument
  is a pointer, \<open>None\<close> for \<^verbatim>\<open>NULL\<close>, and \<^verbatim>\<open>ASSERT(key != NULL)\<close> fails on it.
\<close>

definition pr_tree_remove ::
  "('k, 'v) pr_state \<Rightarrow> 'k option \<Rightarrow> (int \<times> ('k, 'v) pr_state) option" where
  "pr_tree_remove s key_p =
     (case key_p of None \<Rightarrow> None | Some k \<Rightarrow> remove_loop s k (root s))"

section \<open>The algorithm on labelled trees\<close>

fun dec_frame :: "('k, 'v) frame \<Rightarrow> ('k, 'v) frame" where
  "dec_frame (LF a k v w r) = LF a k v (w - 1) r"
| "dec_frame (RF l a k v w) = RF l a k v (w - 1)"

fun sink_path ::
  "('k, 'v) frame list \<Rightarrow> ('k, 'v) ltree \<Rightarrow> ('k, 'v) frame list \<times> ('k, 'v) ltree" where
  "sink_path c (Nd (Nd ll b kb vb wb lr) a k v w (Nd rl d kd vd wd rr)) =
     (if wd < wb then
        (if wt ll < wt lr then
           (case lr of
              Tip \<Rightarrow> (c, Nd (Nd ll b kb vb wb lr) a k v w (Nd rl d kd vd wd rr))
            | Nd c1 m km vm wm c2 \<Rightarrow>
                sink_path
                  (RF (Nd ll b kb vb (wt ll + wt c1) c1) m km vm (wt ll + wt c1 + (wt c2 + wd)) # c)
                  (Nd c2 a k v (wt c2 + wd) (Nd rl d kd vd wd rr)))
         else sink_path (RF ll b kb vb (wt ll + (wt lr + wd)) # c)
                (Nd lr a k v (wt lr + wd) (Nd rl d kd vd wd rr)))
      else
        (if wt rr < wt rl then
           (case rl of
              Tip \<Rightarrow> (c, Nd (Nd ll b kb vb wb lr) a k v w (Nd rl d kd vd wd rr))
            | Nd c1 m km vm wm c2 \<Rightarrow>
                sink_path
                  (LF m km vm (wb + wt c1 + (wt c2 + wt rr)) (Nd c2 d kd vd (wt c2 + wt rr) rr) # c)
                  (Nd (Nd ll b kb vb wb lr) a k v (wb + wt c1) c1))
         else sink_path (LF d kd vd (wb + wt rl + wt rr) rr # c)
                (Nd (Nd ll b kb vb wb lr) a k v (wb + wt rl) rl)))"
| "sink_path c t = (c, t)"

fun splice_out :: "('k, 'v) ltree \<Rightarrow> ('k, 'v) ltree" where
  "splice_out Tip = Tip"
| "splice_out (Nd Tip a k v w r) = r"
| "splice_out (Nd l a k v w r) = l"

definition del :: "('k \<Rightarrow> 'k \<Rightarrow> int) \<Rightarrow> 'k \<Rightarrow> ('k, 'v) ltree \<Rightarrow> ('k, 'v) ltree" where
  "del c k t =
     (case path_to c k t [] 0 of
        (ctx, Tip, rv) \<Rightarrow> t
      | (ctx, Nd l a x v w r, rv) \<Rightarrow>
          (case sink_path ctx (Nd l a x v w r) of (c', t') \<Rightarrow> plug (map dec_frame c') (splice_out t')))"

text \<open>
  \<open>settles m s c t\<close>: the computation \<open>m\<close>, started in state \<open>s\<close>, consists of
  rotations that lead to a state representing \<open>plug c t\<close>, followed by the
  unlinking of the root of \<open>t\<close>.
\<close>

definition settles ::
  "(int \<times> ('k, 'v) pr_state) option \<Rightarrow> ('k, 'v) pr_state \<Rightarrow> ('k, 'v) frame list \<Rightarrow> ('k, 'v) ltree \<Rightarrow> bool" where
  "settles m s c t \<longleftrightarrow>
     (\<exists>s1 a. rootp t = Some a \<and> m = unlink s1 a (rootp (splice_out t)) \<bind> (\<lambda>s'. Some (0, s'))
        \<and> repr s1 (plug c t) \<and> s1 = s\<lparr>root := root s1, heap := heap s1\<rparr>
        \<and> dom (heap s1) = dom (heap s))"

section \<open>Lemmas: decrementing the weights of a context\<close>

lemma ctxp_dec [simp]: "ctxp (map dec_frame c) = ctxp c"
  by (cases c rule: cpre.cases) auto

lemma cpre_dec [simp]: "cpre (map dec_frame c) = cpre c"
  by (induction c rule: cpre.induct) auto

lemma cpost_dec [simp]: "cpost (map dec_frame c) = cpost c"
  by (induction c rule: cpre.induct) auto

lemma epre_dec [simp]: "epre (map dec_frame c) = epre c"
  by (induction c rule: cpre.induct) auto

lemma epost_dec [simp]: "epost (map dec_frame c) = epost c"
  by (induction c rule: cpre.induct) auto

lemma ctx_wt_dec: "ctx_wt c x \<Longrightarrow> ctx_wt (map dec_frame c) (x - 1)"
  by (induction c arbitrary: x rule: cpre.induct) auto

lemma weight_down_step:
  assumes r: "repr s (plug c (Nd l a k v w r))"
    and IH: "\<And>s1. repr s1 (plug c (Nd l a k v (w - 1) r)) \<Longrightarrow> yields (weight_down s1 (ctxp c)) s1 t'"
  shows "yields (weight_down s (Some a)) s t'"
proof -
  have step: "weight_down s (Some a) = node_upd a (\<lambda>x. x\<lparr>weight := weight x - 1\<rparr>) s \<bind>
      (\<lambda>s1. heap s1 a \<bind> (\<lambda>n. weight_down s1 (parent n)))"
    by (subst weight_down.simps) simp
  show ?thesis unfolding step
  proof (rule yields_bind [OF yields_node_upd [OF r, where k' = k and v' = v and w' = "w - 1"]])
    fix s1 assume r1: "repr s1 (plug c (Nd l a k v (w - 1) r))"
    from IH [OF r1] show "yields (heap s1 a \<bind> (\<lambda>n. weight_down s1 (parent n))) s1 t'"
      by (simp add: repr_plug_node [OF r1])
  qed simp
qed

lemma weight_down_refines:
  "repr s (plug c t) \<Longrightarrow> yields (weight_down s (ctxp c)) s (plug (map dec_frame c) t)"
proof (induction c arbitrary: s t rule: cpre.induct)
  case 1
  then show ?case by (subst weight_down.simps) (simp add: yields_Some)
next
  case (2 a k v w r c)
  from "2.prems" have r: "repr s (plug c (Nd t a k v w r))" by simp
  show ?case using weight_down_step [OF r "2.IH"] by simp
next
  case (3 l a k v w c)
  from "3.prems" have r: "repr s (plug c (Nd l a k v w t))" by simp
  show ?case using weight_down_step [OF r "3.IH"] by simp
qed


section \<open>Lemmas: unlinking a node with at most one child\<close>

lemma splice_exec:
  assumes r: "repr s (plug c t)" and t: "t = Nd l a k v w r"
    and sh: "l = Tip \<and> out = r \<or> r = Tip \<and> out = l"
  shows "link_parent (rootp out) (ctxp c) s = Some (s\<lparr>heap := reparent (heap s) (rootp out) (ctxp c)\<rparr>)"
    and "replace_child (ctxp c) a (rootp out) (s\<lparr>heap := reparent (heap s) (rootp out) (ctxp c)\<rparr>) =
      Some (s\<lparr>root := rootp (plug c out),
        heap := relink (reparent (heap s) (rootp out) (ctxp c)) (ctxp c) a (rootp out)\<rparr>)"
    and "tree_at (relink (reparent (heap s) (rootp out) (ctxp c)) (ctxp c) a (rootp out)) None (plug c out)"
    and "distinct (addrs (plug c out))" and "a \<notin> set (addrs (plug c out))"
    and "rootp out \<noteq> Some a" and "ctxp c \<noteq> Some a"
proof -
  let ?h = "heap s"
  let ?h' = "relink (reparent ?h (rootp out) (ctxp c)) (ctxp c) a (rootp out)"
  note D = repr_plugD [OF r [unfolded t]]
  from D(2) sh have to: "tree_at ?h (Some a) out" by auto
  from D(3) sh have dist: "distinct (addrs out)" "distinct (cpre c @ cpost c)"
    "a \<notin> set (cpre c)" "a \<notin> set (cpost c)" "a \<notin> set (addrs out)"
    "set (addrs out) \<inter> (set (cpre c) \<union> set (cpost c)) = {}"
    by auto
  from dist(6) have sep: "rootp out \<notin> Some ` (set (cpre c) \<union> set (cpost c))"
    "ctxp c \<notin> Some ` set (addrs out)"
    by (auto dest!: rootp_in_addrs ctxp_in_cpre_cpost)
  have al: "rootp out = None \<or> rootp out \<in> Some ` dom ?h" "ctxp c = None \<or> ctxp c \<in> Some ` dom ?h"
    by (rule tree_at_rootp_dom [OF to], rule ctx_at_ctxp_dom [OF D(1)])
  have cx: "ctx_at ?h' c (rootp out)"
    by (rule ctx_at_relink) (insert dist D(1), simp_all add: sep)
  have root: "rootp (plug c out) = (if ctxp c = None then rootp out else root s)"
    by (rule root_plug_replace [OF D(4)]) simp
  show "link_parent (rootp out) (ctxp c) s = Some (s\<lparr>heap := reparent ?h (rootp out) (ctxp c)\<rparr>)"
    using al(1) by (rule link_parent_eq)
  show "replace_child (ctxp c) a (rootp out) (s\<lparr>heap := reparent ?h (rootp out) (ctxp c)\<rparr>) =
      Some (s\<lparr>root := rootp (plug c out), heap := ?h'\<rparr>)"
    using al(2) by (simp add: replace_child_eq root)
  show "tree_at ?h' None (plug c out)"
    by (simp add: tree_at_plug cx sep tree_at_reparent_root [OF to dist(1)])
  show "distinct (addrs (plug c out))" using D(3) sh by auto
  show "a \<notin> set (addrs (plug c out))" using dist by simp
  show "rootp out \<noteq> Some a" "ctxp c \<noteq> Some a" using dist by simp_all
qed

lemma unlink_refines:
  assumes r: "repr s (plug c t)" and t: "t = Nd l a k v w r"
    and sh: "l = Tip \<and> out = r \<or> r = Tip \<and> out = l"
  shows "\<exists>s'. unlink s a (rootp out) = Some s' \<and> repr s' (plug (map dec_frame c) out)
    \<and> count s' = count s - 1 \<and> dom (heap s') = dom (heap s) - {a}
    \<and> key_cmp s' = key_cmp s \<and> del_func s' = del_func s
    \<and> freed s' = (if del_func s then freed s @ [(k, v)] else freed s)"
proof -
  let ?h' = "relink (reparent (heap s) (rootp out) (ctxp c)) (ctxp c) a (rootp out)"
  let ?s3 = "(call_del k v (s\<lparr>root := rootp (plug c out), heap := ?h'\<rparr>))\<lparr>heap := ?h'(a := None)\<rparr>"
  note E = splice_exec [OF assms]
  note n = repr_plug_node [OF r [unfolded t]]
  have u: "unlink s a (rootp out) =
      weight_down ?s3 (ctxp c) \<bind> (\<lambda>s4. Some (s4\<lparr>count := count s4 - 1\<rparr>))"
    using E(6,7) by (simp add: unlink_def n E(1,2))
  have "repr ?s3 (plug c out)"
    using E(3,4,5) by (simp add: repr_def)
  from weight_down_refines [OF this] obtain s4 where
    w: "weight_down ?s3 (ctxp c) = Some s4" and r4: "repr s4 (plug (map dec_frame c) out)"
    and e4: "s4 = ?s3\<lparr>root := root s4, heap := heap s4\<rparr>" and d4: "dom (heap s4) = dom (heap ?s3)"
    by (rule yieldsE)
  have "count s4 = count s" "key_cmp s4 = key_cmp s" "del_func s4 = del_func s"
    "freed s4 = (if del_func s then freed s @ [(k, v)] else freed s)"
    by (subst e4, simp add: freed_call_del)+
  moreover have "dom (heap s4) = dom (heap s) - {a}"
    using d4 by simp
  ultimately show ?thesis using r4 by (simp add: u w)
qed


section \<open>Branch equations and the induction rule of \<open>sink_path\<close>\<close>

declare sink_path.simps(1) [simp del]

lemma sink_left:
  "wd < wb \<Longrightarrow> \<not> wt ll < wt lr \<Longrightarrow>
   sink_path c (Nd (Nd ll b kb vb wb lr) a k v w (Nd rl d kd vd wd rr)) =
     sink_path (RF ll b kb vb (wt ll + (wt lr + wd)) # c) (Nd lr a k v (wt lr + wd) (Nd rl d kd vd wd rr))"
  by (simp add: sink_path.simps(1))

lemma sink_left_right:
  "wd < wb \<Longrightarrow> wt ll < wm \<Longrightarrow>
   sink_path c (Nd (Nd ll b kb vb wb (Nd c1 m km vm wm c2)) a k v w (Nd rl d kd vd wd rr)) =
     sink_path (RF (Nd ll b kb vb (wt ll + wt c1) c1) m km vm (wt ll + wt c1 + (wt c2 + wd)) # c)
       (Nd c2 a k v (wt c2 + wd) (Nd rl d kd vd wd rr))"
  by (simp add: sink_path.simps(1))

lemma sink_right:
  "\<not> wd < wb \<Longrightarrow> \<not> wt rr < wt rl \<Longrightarrow>
   sink_path c (Nd (Nd ll b kb vb wb lr) a k v w (Nd rl d kd vd wd rr)) =
     sink_path (LF d kd vd (wb + wt rl + wt rr) rr # c) (Nd (Nd ll b kb vb wb lr) a k v (wb + wt rl) rl)"
  by (simp add: sink_path.simps(1))

lemma sink_right_left:
  "\<not> wd < wb \<Longrightarrow> wt rr < wm \<Longrightarrow>
   sink_path c (Nd (Nd ll b kb vb wb lr) a k v w (Nd (Nd c1 m km vm wm c2) d kd vd wd rr)) =
     sink_path (LF m km vm (wb + wt c1 + (wt c2 + wt rr)) (Nd c2 d kd vd (wt c2 + wt rr) rr) # c)
       (Nd (Nd ll b kb vb wb lr) a k v (wb + wt c1) c1)"
  by (simp add: sink_path.simps(1))

lemma sink_cases [consumes 1, case_names no_left no_right left left_right right right_left]:
  assumes inv: "wt_inv (Nd l a k v w r)"
  obtains
    (no_left) "l = Tip"
  | (no_right) ll b kb vb wb lr where "l = Nd ll b kb vb wb lr" "r = Tip"
  | (left) ll b kb vb wb lr rl d kd vd wd rr where "l = Nd ll b kb vb wb lr" "r = Nd rl d kd vd wd rr"
      "wd < wb" "\<not> wt ll < wt lr"
  | (left_right) ll b kb vb wb c1 m km vm wm c2 rl d kd vd wd rr where
      "l = Nd ll b kb vb wb (Nd c1 m km vm wm c2)" "r = Nd rl d kd vd wd rr" "wd < wb" "wt ll < wm"
  | (right) ll b kb vb wb lr rl d kd vd wd rr where "l = Nd ll b kb vb wb lr" "r = Nd rl d kd vd wd rr"
      "\<not> wd < wb" "\<not> wt rr < wt rl"
  | (right_left) ll b kb vb wb lr c1 m km vm wm c2 d kd vd wd rr where
      "l = Nd ll b kb vb wb lr" "r = Nd (Nd c1 m km vm wm c2) d kd vd wd rr" "\<not> wd < wb" "wt rr < wm"
proof (cases l)
  case Tip
  then show thesis by (rule no_left)
next
  case L: (Nd ll b kb vb wb lr)
  show thesis
  proof (cases r)
    case Tip
    with L show thesis by (rule no_right)
  next
    case R: (Nd rl d kd vd wd rr)
    from inv L R have i: "wt_inv ll" "wt_inv rr" by (auto dest: wt_inv_NdD)
    show thesis
    proof (cases "wd < wb")
      case h: True
      show thesis
      proof (cases "wt ll < wt lr")
        case True
        with i(1) obtain c1 m km vm wm c2 where "lr = Nd c1 m km vm wm c2" by (cases lr) auto
        with L R h True show thesis by (auto intro: left_right)
      next
        case False
        with L R h show thesis by (auto intro: left)
      qed
    next
      case h: False
      show thesis
      proof (cases "wt rr < wt rl")
        case True
        with i(2) obtain c1 m km vm wm c2 where "rl = Nd c1 m km vm wm c2" by (cases rl) auto
        with L R h True show thesis by (auto intro: right_left)
      next
        case False
        with L R h show thesis by (auto intro: right)
      qed
    qed
  qed
qed


lemma sink_induct [consumes 1, case_names Tip no_left no_right left left_right right right_left]:
  assumes inv: "wt_inv t"
    and Tip: "\<And>c. P c Tip"
    and no_left: "\<And>c a k v w r. wt_inv (Nd Tip a k v w r) \<Longrightarrow> P c (Nd Tip a k v w r)"
    and no_right: "\<And>c ll b kb vb wb lr a k v w.
      wt_inv (Nd (Nd ll b kb vb wb lr) a k v w Tip) \<Longrightarrow> P c (Nd (Nd ll b kb vb wb lr) a k v w Tip)"
    and left: "\<And>c ll b kb vb wb lr a k v w rl d kd vd wd rr.
      \<lbrakk>wt_inv (Nd (Nd ll b kb vb wb lr) a k v w (Nd rl d kd vd wd rr)); wd < wb; \<not> wt ll < wt lr;
       wt_inv (Nd lr a k v (wt lr + wd) (Nd rl d kd vd wd rr));
       P (RF ll b kb vb (wt ll + (wt lr + wd)) # c) (Nd lr a k v (wt lr + wd) (Nd rl d kd vd wd rr))\<rbrakk>
      \<Longrightarrow> P c (Nd (Nd ll b kb vb wb lr) a k v w (Nd rl d kd vd wd rr))"
    and left_right: "\<And>c ll b kb vb wb c1 m km vm wm c2 a k v w rl d kd vd wd rr.
      \<lbrakk>wt_inv (Nd (Nd ll b kb vb wb (Nd c1 m km vm wm c2)) a k v w (Nd rl d kd vd wd rr));
       wd < wb; wt ll < wm;
       wt_inv (Nd c2 a k v (wt c2 + wd) (Nd rl d kd vd wd rr));
       P (RF (Nd ll b kb vb (wt ll + wt c1) c1) m km vm (wt ll + wt c1 + (wt c2 + wd)) # c)
         (Nd c2 a k v (wt c2 + wd) (Nd rl d kd vd wd rr))\<rbrakk>
      \<Longrightarrow> P c (Nd (Nd ll b kb vb wb (Nd c1 m km vm wm c2)) a k v w (Nd rl d kd vd wd rr))"
    and right: "\<And>c ll b kb vb wb lr a k v w rl d kd vd wd rr.
      \<lbrakk>wt_inv (Nd (Nd ll b kb vb wb lr) a k v w (Nd rl d kd vd wd rr)); \<not> wd < wb; \<not> wt rr < wt rl;
       wt_inv (Nd (Nd ll b kb vb wb lr) a k v (wb + wt rl) rl);
       P (LF d kd vd (wb + wt rl + wt rr) rr # c) (Nd (Nd ll b kb vb wb lr) a k v (wb + wt rl) rl)\<rbrakk>
      \<Longrightarrow> P c (Nd (Nd ll b kb vb wb lr) a k v w (Nd rl d kd vd wd rr))"
    and right_left: "\<And>c ll b kb vb wb lr a k v w c1 m km vm wm c2 d kd vd wd rr.
      \<lbrakk>wt_inv (Nd (Nd ll b kb vb wb lr) a k v w (Nd (Nd c1 m km vm wm c2) d kd vd wd rr));
       \<not> wd < wb; wt rr < wm;
       wt_inv (Nd (Nd ll b kb vb wb lr) a k v (wb + wt c1) c1);
       P (LF m km vm (wb + wt c1 + (wt c2 + wt rr)) (Nd c2 d kd vd (wt c2 + wt rr) rr) # c)
         (Nd (Nd ll b kb vb wb lr) a k v (wb + wt c1) c1)\<rbrakk>
      \<Longrightarrow> P c (Nd (Nd ll b kb vb wb lr) a k v w (Nd (Nd c1 m km vm wm c2) d kd vd wd rr))"
  shows "P c t"
  using inv
proof (induction "size t" arbitrary: t c rule: less_induct)
  case less
  show ?case
  proof (cases t)
    case Tip
    then show ?thesis by (simp add: assms(2))
  next
    case (Nd l a k v w r)
    note inv = less.prems [unfolded Nd]
    from inv have "P c (Nd l a k v w r)"
    proof (cases rule: sink_cases)
      case no_left
      with inv show ?thesis by (simp add: assms(3))
    next
      case (no_right ll b kb vb wb lr)
      with inv show ?thesis by (simp add: assms(4))
    next
      case (left ll b kb vb wb lr rl d kd vd wd rr)
      have sub: "wt_inv (Nd lr a k v (wt lr + wd) (Nd rl d kd vd wd rr))"
        using inv left(1,2) by (auto simp: wt_inv_def)
      show ?thesis unfolding left(1,2)
        by (rule assms(5) [OF inv [unfolded left(1,2)] left(3,4) sub less.hyps [OF _ sub]])
          (simp add: Nd left(1,2))
    next
      case (left_right ll b kb vb wb c1 m km vm wm c2 rl d kd vd wd rr)
      have sub: "wt_inv (Nd c2 a k v (wt c2 + wd) (Nd rl d kd vd wd rr))"
        using inv left_right(1,2) by (auto simp: wt_inv_def)
      show ?thesis unfolding left_right(1,2)
        by (rule assms(6) [OF inv [unfolded left_right(1,2)] left_right(3,4) sub less.hyps [OF _ sub]])
          (simp add: Nd left_right(1,2))
    next
      case (right ll b kb vb wb lr rl d kd vd wd rr)
      have sub: "wt_inv (Nd (Nd ll b kb vb wb lr) a k v (wb + wt rl) rl)"
        using inv right(1,2) by (auto simp: wt_inv_def)
      show ?thesis unfolding right(1,2)
        by (rule assms(7) [OF inv [unfolded right(1,2)] right(3,4) sub less.hyps [OF _ sub]])
          (simp add: Nd right(1,2))
    next
      case (right_left ll b kb vb wb lr c1 m km vm wm c2 d kd vd wd rr)
      have sub: "wt_inv (Nd (Nd ll b kb vb wb lr) a k v (wb + wt c1) c1)"
        using inv right_left(1,2) by (auto simp: wt_inv_def)
      show ?thesis unfolding right_left(1,2)
        by (rule assms(8) [OF inv [unfolded right_left(1,2)] right_left(3,4) sub less.hyps [OF _ sub]])
          (simp add: Nd right_left(1,2))
    qed
    then show ?thesis by (simp add: Nd)
  qed
qed


section \<open>Lemmas: the removal loop reaches the place where the node is unlinked\<close>

lemma settles_bind:
  assumes y: "yields m s t1"
    and f: "\<And>s2. repr s2 t1 \<Longrightarrow> key_cmp s2 = key_cmp s \<Longrightarrow> settles (f s2) s2 c t"
  shows "settles (m \<bind> f) s c t"
proof -
  from y obtain s2 where m: "m = Some s2" and r2: "repr s2 t1"
    and e2: "s2 = s\<lparr>root := root s2, heap := heap s2\<rparr>" and d2: "dom (heap s2) = dom (heap s)"
    by (rule yieldsE)
  have "key_cmp s2 = key_cmp s" by (subst e2) simp
  from f [OF r2 this] obtain s1 a where S: "rootp t = Some a"
    "f s2 = unlink s1 a (rootp (splice_out t)) \<bind> (\<lambda>s'. Some (0, s'))" "repr s1 (plug c t)"
    "s1 = s2\<lparr>root := root s1, heap := heap s1\<rparr>" "dom (heap s1) = dom (heap s2)"
    unfolding settles_def by blast
  have "s1 = s\<lparr>root := root s1, heap := heap s1\<rparr>"
    by (subst S(4), subst e2) simp
  with S d2 m show ?thesis unfolding settles_def by auto
qed

lemma settles_here:
  assumes "repr s (plug c t)" and "rootp t = Some a"
    and "m = unlink s a (rootp (splice_out t)) \<bind> (\<lambda>s'. Some (0, s'))"
  shows "settles m s c t"
  unfolding settles_def using assms by (intro exI [of _ s] exI [of _ a]) simp

lemma remove_no_left:
  assumes r: "repr s (plug c (Nd Tip a x v w r))" and k: "key_cmp s k x = 0"
  shows "settles (remove_loop s k (Some a)) s c (Nd Tip a x v w r)"
  by (rule settles_here [OF r]) (simp, subst remove_loop.simps, simp add: repr_plug_node [OF r] k)

lemma remove_no_right:
  assumes r: "repr s (plug c (Nd (Nd ll b kb vb wb lr) a x v w Tip))" and k: "key_cmp s k x = 0"
  shows "settles (remove_loop s k (Some a)) s c (Nd (Nd ll b kb vb wb lr) a x v w Tip)"
  by (rule settles_here [OF r]) (simp, subst remove_loop.simps, simp add: repr_plug_node [OF r] k)

lemma remove_left:
  assumes r: "repr s (plug c (Nd (Nd ll b kb vb wb lr) a x v w (Nd rl d kd vd wd rr)))"
    and k: "key_cmp s k x = 0" and c: "wd < wb" "\<not> wt ll < wt lr"
    and IH: "\<And>s2. repr s2 (plug (RF ll b kb vb (wt ll + (wt lr + wd)) # c)
        (Nd lr a x v (wt lr + wd) (Nd rl d kd vd wd rr))) \<Longrightarrow> key_cmp s2 = key_cmp s \<Longrightarrow>
      settles (remove_loop s2 k (Some a)) s2 c' t'"
  shows "settles (remove_loop s k (Some a)) s c' t'"
proof -
  let ?L = "Nd ll b kb vb wb lr" and ?R = "Nd rl d kd vd wd rr"
  have r': "repr s (plug (LF a x v w ?R # c) ?L)" using r by simp
  have step: "remove_loop s k (Some a) =
      rot_right s a \<bind> (\<lambda>s2. heap s2 b \<bind> (\<lambda>on. remove_loop s2 k (rlink on)))"
    using c k repr_plug_wgt [OF r] repr_plug_wgt [OF r']
    by (subst remove_loop.simps) (simp add: repr_plug_node [OF r] repr_plug_node [OF r'])
  show ?thesis unfolding step
  proof (rule settles_bind [OF rot_right_refines [OF r]])
    fix s2 assume "repr s2 (plug c (rotr (Nd ?L a x v w ?R)))" and kc: "key_cmp s2 = key_cmp s"
    then have r2: "repr s2 (plug c (Nd ll b kb vb (wt ll + (wt lr + wd)) (Nd lr a x v (wt lr + wd) ?R)))"
      by simp
    from IH [OF _ kc] r2 show "settles (heap s2 b \<bind> (\<lambda>on. remove_loop s2 k (rlink on))) s2 c' t'"
      by (simp add: repr_plug_node [OF r2])
  qed
qed

lemma remove_right:
  assumes r: "repr s (plug c (Nd (Nd ll b kb vb wb lr) a x v w (Nd rl d kd vd wd rr)))"
    and k: "key_cmp s k x = 0" and c: "\<not> wd < wb" "\<not> wt rr < wt rl"
    and IH: "\<And>s2. repr s2 (plug (LF d kd vd (wb + wt rl + wt rr) rr # c)
        (Nd (Nd ll b kb vb wb lr) a x v (wb + wt rl) rl)) \<Longrightarrow> key_cmp s2 = key_cmp s \<Longrightarrow>
      settles (remove_loop s2 k (Some a)) s2 c' t'"
  shows "settles (remove_loop s k (Some a)) s c' t'"
proof -
  let ?L = "Nd ll b kb vb wb lr" and ?R = "Nd rl d kd vd wd rr"
  have r': "repr s (plug (RF ?L a x v w # c) ?R)" using r by simp
  have step: "remove_loop s k (Some a) =
      rot_left s a \<bind> (\<lambda>s2. heap s2 d \<bind> (\<lambda>on. remove_loop s2 k (llink on)))"
    using c k repr_plug_wgt [OF r] repr_plug_wgt [OF r']
    by (subst remove_loop.simps) (simp add: repr_plug_node [OF r] repr_plug_node [OF r'])
  show ?thesis unfolding step
  proof (rule settles_bind [OF rot_left_refines [OF r]])
    fix s2 assume "repr s2 (plug c (rotl (Nd ?L a x v w ?R)))" and kc: "key_cmp s2 = key_cmp s"
    then have r2: "repr s2 (plug c (Nd (Nd ?L a x v (wb + wt rl) rl) d kd vd (wb + wt rl + wt rr) rr))"
      by simp
    from IH [OF _ kc] r2 show "settles (heap s2 d \<bind> (\<lambda>on. remove_loop s2 k (llink on))) s2 c' t'"
      by (simp add: repr_plug_node [OF r2])
  qed
qed


lemma remove_left_right:
  assumes r: "repr s (plug c (Nd (Nd ll b kb vb wb (Nd c1 m km vm wm c2)) a x v w (Nd rl d kd vd wd rr)))"
    and k: "key_cmp s k x = 0" and c: "wd < wb" "wt ll < wm"
    and IH: "\<And>s2. repr s2 (plug (RF (Nd ll b kb vb (wt ll + wt c1) c1) m km vm
          (wt ll + wt c1 + (wt c2 + wd)) # c) (Nd c2 a x v (wt c2 + wd) (Nd rl d kd vd wd rr))) \<Longrightarrow>
        key_cmp s2 = key_cmp s \<Longrightarrow> settles (remove_loop s2 k (Some a)) s2 c' t'"
  shows "settles (remove_loop s k (Some a)) s c' t'"
proof -
  let ?L = "Nd ll b kb vb wb (Nd c1 m km vm wm c2)" and ?R = "Nd rl d kd vd wd rr"
  let ?L' = "Nd (Nd ll b kb vb (wt ll + wt c1) c1) m km vm (wt ll + wt c1 + wt c2) c2"
  have r': "repr s (plug (LF a x v w ?R # c) ?L)" using r by simp
  have r'': "repr s (plug (RF ll b kb vb wb # LF a x v w ?R # c) (Nd c1 m km vm wm c2))" using r by simp
  have step: "remove_loop s k (Some a) = rot_left s b \<bind> (\<lambda>s1. heap s1 a \<bind> (\<lambda>n1. llink n1 \<bind>
      (\<lambda>out. rot_right s1 a \<bind> (\<lambda>s2. heap s2 out \<bind> (\<lambda>on. remove_loop s2 k (rlink on))))))"
    using c k repr_plug_wgt [OF r] repr_plug_wgt [OF r'] repr_plug_wgt [OF r'']
    by (subst remove_loop.simps)
      (simp add: repr_plug_node [OF r] repr_plug_node [OF r'] repr_plug_node [OF r''])
  show ?thesis unfolding step
  proof (rule settles_bind [OF rot_left_refines [OF r']])
    fix s1 assume "repr s1 (plug (LF a x v w ?R # c) (rotl ?L))" and k1: "key_cmp s1 = key_cmp s"
    then have r1: "repr s1 (plug c (Nd ?L' a x v w ?R))" by simp
    have "settles (rot_right s1 a \<bind> (\<lambda>s2. heap s2 m \<bind> (\<lambda>on. remove_loop s2 k (rlink on)))) s1 c' t'"
    proof (rule settles_bind [OF rot_right_refines [OF r1]])
      fix s2 assume "repr s2 (plug c (rotr (Nd ?L' a x v w ?R)))" and k2: "key_cmp s2 = key_cmp s1"
      then have r2: "repr s2 (plug c (Nd (Nd ll b kb vb (wt ll + wt c1) c1) m km vm
          (wt ll + wt c1 + (wt c2 + wd)) (Nd c2 a x v (wt c2 + wd) ?R)))"
        by simp
      from IH [OF _ k2 [unfolded k1]] r2
      show "settles (heap s2 m \<bind> (\<lambda>on. remove_loop s2 k (rlink on))) s2 c' t'"
        by (simp add: repr_plug_node [OF r2])
    qed
    then show "settles (heap s1 a \<bind> (\<lambda>n1. llink n1 \<bind> (\<lambda>out. rot_right s1 a \<bind>
        (\<lambda>s2. heap s2 out \<bind> (\<lambda>on. remove_loop s2 k (rlink on)))))) s1 c' t'"
      by (simp add: repr_plug_node [OF r1])
  qed
qed

lemma remove_right_left:
  assumes r: "repr s (plug c (Nd (Nd ll b kb vb wb lr) a x v w (Nd (Nd c1 m km vm wm c2) d kd vd wd rr)))"
    and k: "key_cmp s k x = 0" and c: "\<not> wd < wb" "wt rr < wm"
    and IH: "\<And>s2. repr s2 (plug (LF m km vm (wb + wt c1 + (wt c2 + wt rr))
          (Nd c2 d kd vd (wt c2 + wt rr) rr) # c) (Nd (Nd ll b kb vb wb lr) a x v (wb + wt c1) c1)) \<Longrightarrow>
        key_cmp s2 = key_cmp s \<Longrightarrow> settles (remove_loop s2 k (Some a)) s2 c' t'"
  shows "settles (remove_loop s k (Some a)) s c' t'"
proof -
  let ?L = "Nd ll b kb vb wb lr" and ?R = "Nd (Nd c1 m km vm wm c2) d kd vd wd rr"
  let ?R' = "Nd c1 m km vm (wt c1 + (wt c2 + wt rr)) (Nd c2 d kd vd (wt c2 + wt rr) rr)"
  have r': "repr s (plug (RF ?L a x v w # c) ?R)" using r by simp
  have r'': "repr s (plug (LF d kd vd wd rr # RF ?L a x v w # c) (Nd c1 m km vm wm c2))" using r by simp
  have step: "remove_loop s k (Some a) = rot_right s d \<bind> (\<lambda>s1. heap s1 a \<bind> (\<lambda>n1. rlink n1 \<bind>
      (\<lambda>out. rot_left s1 a \<bind> (\<lambda>s2. heap s2 out \<bind> (\<lambda>on. remove_loop s2 k (llink on))))))"
    using c k repr_plug_wgt [OF r] repr_plug_wgt [OF r'] repr_plug_wgt [OF r'']
    by (subst remove_loop.simps)
      (simp add: repr_plug_node [OF r] repr_plug_node [OF r'] repr_plug_node [OF r''])
  show ?thesis unfolding step
  proof (rule settles_bind [OF rot_right_refines [OF r']])
    fix s1 assume "repr s1 (plug (RF ?L a x v w # c) (rotr ?R))" and k1: "key_cmp s1 = key_cmp s"
    then have r1: "repr s1 (plug c (Nd ?L a x v w ?R'))" by simp
    have "settles (rot_left s1 a \<bind> (\<lambda>s2. heap s2 m \<bind> (\<lambda>on. remove_loop s2 k (llink on)))) s1 c' t'"
    proof (rule settles_bind [OF rot_left_refines [OF r1]])
      fix s2 assume "repr s2 (plug c (rotl (Nd ?L a x v w ?R')))" and k2: "key_cmp s2 = key_cmp s1"
      then have r2: "repr s2 (plug c (Nd (Nd ?L a x v (wb + wt c1) c1) m km vm
          (wb + wt c1 + (wt c2 + wt rr)) (Nd c2 d kd vd (wt c2 + wt rr) rr)))"
        by simp
      from IH [OF _ k2 [unfolded k1]] r2
      show "settles (heap s2 m \<bind> (\<lambda>on. remove_loop s2 k (llink on))) s2 c' t'"
        by (simp add: repr_plug_node [OF r2])
    qed
    then show "settles (heap s1 a \<bind> (\<lambda>n1. rlink n1 \<bind> (\<lambda>out. rot_left s1 a \<bind>
        (\<lambda>s2. heap s2 out \<bind> (\<lambda>on. remove_loop s2 k (llink on)))))) s1 c' t'"
      by (simp add: repr_plug_node [OF r1])
  qed
qed

lemma sink_refines:
  assumes "wt_inv t" and "repr s (plug c t)" and "t = Nd l a x v w r" and "key_cmp s k x = 0"
  shows "settles (remove_loop s k (Some a)) s (fst (sink_path c t)) (snd (sink_path c t))"
  using assms
proof (induction c t arbitrary: s l w r rule: sink_induct)
  case (Tip c)
  then show ?case by simp
next
  case (no_left c a' k' v' w' r')
  then show ?case by (auto intro: remove_no_left)
next
  case (no_right c ll b kb vb wb lr a' k' v' w')
  then show ?case by (auto intro: remove_no_right)
next
  case (left c ll b kb vb wb lr a' k' v' w' rl d kd vd wd rr)
  from left.prems have e: "a' = a" "k' = x" "v' = v" by simp_all
  show ?case unfolding sink_left [OF left(2,3)] e
    by (rule remove_left [OF left.prems(1) [unfolded e] left.prems(3) left(2,3)])
      (rule left.IH [unfolded e], simp_all add: left.prems(3))
next
  case (left_right c ll b kb vb wb c1 m km vm wm c2 a' k' v' w' rl d kd vd wd rr)
  from left_right.prems have e: "a' = a" "k' = x" "v' = v" by simp_all
  show ?case unfolding sink_left_right [OF left_right(2,3)] e
    by (rule remove_left_right [OF left_right.prems(1) [unfolded e] left_right.prems(3) left_right(2,3)])
      (rule left_right.IH [unfolded e], simp_all add: left_right.prems(3))
next
  case (right c ll b kb vb wb lr a' k' v' w' rl d kd vd wd rr)
  from right.prems have e: "a' = a" "k' = x" "v' = v" by simp_all
  show ?case unfolding sink_right [OF right(2,3)] e
    by (rule remove_right [OF right.prems(1) [unfolded e] right.prems(3) right(2,3)])
      (rule right.IH [unfolded e], simp_all add: right.prems(3))
next
  case (right_left c ll b kb vb wb lr a' k' v' w' c1 m km vm wm c2 d kd vd wd rr)
  from right_left.prems have e: "a' = a" "k' = x" "v' = v" by simp_all
  show ?case unfolding sink_right_left [OF right_left(2,3)] e
    by (rule remove_right_left [OF right_left.prems(1) [unfolded e] right_left.prems(3) right_left(2,3)])
      (rule right_left.IH [unfolded e], simp_all add: right_left.prems(3))
qed


section \<open>Lemmas: \<open>sink_path\<close> and \<open>del\<close> on labelled trees\<close>

lemma sink_stop [simp]:
  "sink_path c (Nd Tip a k v w r) = (c, Nd Tip a k v w r)"
  "sink_path c (Nd l a k v w Tip) = (c, Nd l a k v w Tip)"
  by (cases l; simp)+

lemma sink_entries:
  "wt_inv t \<Longrightarrow> entries (plug (fst (sink_path c t)) (snd (sink_path c t))) = entries (plug c t)
     \<and> addrs (plug (fst (sink_path c t)) (snd (sink_path c t))) = addrs (plug c t)"
  by (induction c t rule: sink_induct)
    (simp_all add: sink_left sink_left_right sink_right sink_right_left)

lemma sink_wt:
  "wt_inv t \<Longrightarrow> ctx_wt c (wt t) \<Longrightarrow>
   wt_ok (snd (sink_path c t)) \<and> ctx_wt (fst (sink_path c t)) (wt (snd (sink_path c t)))"
proof (induction c t rule: sink_induct)
  case (left c ll b kb vb wb lr a k v w rl d kd vd wd rr)
  from left.prems left(1) show ?case unfolding sink_left [OF left(2,3)]
    by (intro left.IH) (auto simp: wt_inv_def add.assoc)
next
  case (left_right c ll b kb vb wb c1 m km vm wm c2 a k v w rl d kd vd wd rr)
  from left_right.prems left_right(1) show ?case unfolding sink_left_right [OF left_right(2,3)]
    by (intro left_right.IH) (auto simp: wt_inv_def add.assoc)
next
  case (right c ll b kb vb wb lr a k v w rl d kd vd wd rr)
  from right.prems right(1) show ?case unfolding sink_right [OF right(2,3)]
    by (intro right.IH) (auto simp: wt_inv_def add.assoc)
next
  case (right_left c ll b kb vb wb lr a k v w c1 m km vm wm c2 d kd vd wd rr)
  from right_left.prems right_left(1) show ?case unfolding sink_right_left [OF right_left(2,3)]
    by (intro right_left.IH) (auto simp: wt_inv_def add.assoc)
qed (simp_all add: wt_inv_def)

lemma sink_shape:
  "wt_inv t \<Longrightarrow> t = Nd l a x v w r \<Longrightarrow>
   \<exists>lx wx rx. snd (sink_path c t) = Nd lx a x v wx rx \<and> (lx = Tip \<or> rx = Tip)"
  by (induction c t arbitrary: l w r rule: sink_induct)
    (simp_all add: sink_left sink_left_right sink_right sink_right_left)


lemma del_found:
  assumes inv: "wt_inv t" and c: "total_cmp c" and s: "sorted_by c (entries t)"
    and d: "distinct (addrs t)" and p: "path_to c k t [] 0 = (ctx, Nd l a x v w r, rv)"
  shows "wt_inv (del c k t)" and "entries (del c k t) = del_by c k (entries t)"
    and "set (addrs (del c k t)) = set (addrs t) - {a}" and "size t = size (del c k t) + 1"
proof -
  let ?T = "Nd l a x v w r"
  let ?c' = "fst (sink_path ctx ?T)" and ?t' = "snd (sink_path ctx ?T)"
  from path_to_plug [OF p] have t: "t = plug ctx ?T" by simp
  from path_to_lookup [OF p] have kx: "c k x = 0" by simp
  note iT = wt_inv_plugD [OF inv [unfolded t]]
  from sink_shape [OF iT(1) refl, of ctx] obtain lx wx rx where
    t': "?t' = Nd lx a x v wx rx" and sh: "lx = Tip \<or> rx = Tip"
    by blast
  have D: "del c k t = plug (map dec_frame ?c') (splice_out ?t')"
    by (simp add: del_def p split: prod.splits)
  from sh have so: "entries ?t' = entries lx @ (x, v) # entries (splice_out ?t') \<and> lx = Tip
      \<or> entries ?t' = entries (splice_out ?t') @ (x, v) # entries rx \<and> rx = Tip"
    unfolding t' by (cases lx) auto
  note E = sink_entries [OF iT(1), of ctx] and W = sink_wt [OF iT]
  have et: "entries t = epre ?c' @ entries ?t' @ epost ?c'" and at: "addrs t = cpre ?c' @ addrs ?t' @ cpost ?c'"
    using E by (simp_all add: t)
  from sh have A: "addrs ?t' = a # addrs (splice_out ?t') \<or> addrs ?t' = addrs (splice_out ?t') @ [a]"
    unfolding t' by (cases lx) auto
  from W sh have "wt_ok (splice_out ?t')" "wt ?t' - 1 = wt (splice_out ?t')"
    unfolding t' by (cases lx; auto)+
  with ctx_wt_dec [OF conjunct2 [OF W]] have "wt_ok (del c k t)"
    by (simp add: D wt_ok_plug)
  moreover show sz: "size t = size (del c k t) + 1"
    using arg_cong [OF at, of length] A by (auto simp: D size_plug simp flip: length_addrs)
  ultimately show "wt_inv (del c k t)" using inv by (simp add: wt_inv_def)
  show "set (addrs (del c k t)) = set (addrs t) - {a}"
    using d A unfolding at D by auto
  show "entries (del c k t) = del_by c k (entries t)"
  proof -
    from so consider (L) "entries ?t' = (x, v) # entries (splice_out ?t')"
      | (R) "entries ?t' = entries (splice_out ?t') @ [(x, v)]"
      by auto
    then show ?thesis
    proof cases
      case L
      with del_by_mid [OF c _ kx, of "epre ?c'" v "entries (splice_out ?t') @ epost ?c'"] s
      show ?thesis by (simp add: D et)
    next
      case R
      with del_by_mid [OF c _ kx, of "epre ?c' @ entries (splice_out ?t')" v "epost ?c'"] s
      show ?thesis by (simp add: D et)
    qed
  qed
qed


section \<open>Lemmas: \<open>pr_tree_remove\<close> on each outcome\<close>

lemma remove_descend:
  "tree_at (heap s) par t \<Longrightarrow> path_to (key_cmp s) k t acc rv = (ctx, sub, rv') \<Longrightarrow>
   remove_loop s k (rootp t) = remove_loop s k (rootp sub)"
proof (induction t arbitrary: par acc rv)
  case (Nd l a x v w r)
  from Nd.prems(1) have h: "heap s a = Some \<lparr>key = x, datum = v, parent = par, llink = rootp l,
      rlink = rootp r, weight = w\<rparr>" and tl: "tree_at (heap s) (Some a) l"
    and tr: "tree_at (heap s) (Some a) r"
    by simp_all
  consider (lt) "key_cmp s k x < 0" | (gt) "\<not> key_cmp s k x < 0" "key_cmp s k x > 0"
    | (eq) "key_cmp s k x = 0"
    by linarith
  then show ?case
  proof cases
    case lt
    then have "remove_loop s k (Some a) = remove_loop s k (rootp l)"
      by (subst remove_loop.simps) (simp add: h)
    with Nd.IH(1) [OF tl, of "LF a x v w r # acc" "key_cmp s k x"] Nd.prems(2) lt show ?thesis
      by simp
  next
    case gt
    then have "remove_loop s k (Some a) = remove_loop s k (rootp r)"
      by (subst remove_loop.simps) (simp add: h)
    with Nd.IH(2) [OF tr, of "RF l a x v w # acc" "key_cmp s k x"] Nd.prems(2) gt show ?thesis
      by simp
  next
    case eq
    with Nd.prems(2) show ?thesis by auto
  qed
qed simp

lemma pr_tree_remove_null [simp]: "pr_tree_remove s None = None"
  by (simp add: pr_tree_remove_def)

lemma pr_tree_remove_vacant:
  assumes inv: "pr_inv s t" and p: "path_to (key_cmp s) k t [] 0 = (ctx, Tip, rv)"
  shows "pr_tree_remove s (Some k) = Some (- 1, s)"
proof -
  note I = pr_invD [OF inv]
  from remove_descend [OF reprD(2) [OF I(1)] p]
  have "pr_tree_remove s (Some k) = remove_loop s k None"
    by (simp add: pr_tree_remove_def reprD(1) [OF I(1)])
  then show ?thesis by (subst (asm) remove_loop.simps) simp
qed

lemma pr_tree_remove_found:
  assumes inv: "pr_inv s t" and p: "path_to (key_cmp s) k t [] 0 = (ctx, Nd l a x v w r, rv)"
  shows "\<exists>s'. pr_tree_remove s (Some k) = Some (0, s') \<and> pr_inv s' (del (key_cmp s) k t)
    \<and> entries (del (key_cmp s) k t) = del_by (key_cmp s) k (entries t)
    \<and> dom (heap s') = dom (heap s) - {a}
    \<and> key_cmp s' = key_cmp s \<and> del_func s' = del_func s
    \<and> freed s' = (if del_func s then freed s @ [(x, v)] else freed s)"
proof -
  let ?T = "Nd l a x v w r"
  let ?c' = "fst (sink_path ctx ?T)" and ?t' = "snd (sink_path ctx ?T)"
  note I = pr_invD [OF inv]
  from path_to_plug [OF p] have t: "t = plug ctx ?T" by simp
  from path_to_lookup [OF p] have kx: "key_cmp s k x = 0" by simp
  note iT = wt_inv_plugD [OF I(2) [unfolded t]]
  note F = del_found [OF I(2,3,4) reprD(3) [OF I(1)] p]
  from sink_shape [OF iT(1) refl, of ctx] obtain lx wx rx where
    t': "?t' = Nd lx a x v wx rx" and sh: "lx = Tip \<or> rx = Tip"
    by blast
  have D: "del (key_cmp s) k t = plug (map dec_frame ?c') (splice_out ?t')"
    by (simp add: del_def p split: prod.splits)
  have "pr_tree_remove s (Some k) = remove_loop s k (Some a)"
    using remove_descend [OF reprD(2) [OF I(1)] p] by (simp add: pr_tree_remove_def reprD(1) [OF I(1)])
  with sink_refines [OF iT(1) I(1) [unfolded t] refl kx] obtain s1 where
    run: "pr_tree_remove s (Some k) = unlink s1 a (rootp (splice_out ?t')) \<bind> (\<lambda>s'. Some (0, s'))"
    and r1: "repr s1 (plug ?c' ?t')" and e1: "s1 = s\<lparr>root := root s1, heap := heap s1\<rparr>"
    and d1: "dom (heap s1) = dom (heap s)"
    unfolding settles_def by (auto simp: t')
  have f1: "count s1 = count s" "key_cmp s1 = key_cmp s" "del_func s1 = del_func s" "freed s1 = freed s"
    by (subst e1, simp)+
  from sh have "lx = Tip \<and> splice_out ?t' = rx \<or> rx = Tip \<and> splice_out ?t' = lx"
    unfolding t' by (cases lx) auto
  from unlink_refines [OF r1 t' this] obtain s' where
    U: "unlink s1 a (rootp (splice_out ?t')) = Some s'" "repr s' (del (key_cmp s) k t)"
      "count s' = count s - 1" "dom (heap s') = dom (heap s) - {a}"
      "key_cmp s' = key_cmp s" "del_func s' = del_func s"
      "freed s' = (if del_func s then freed s @ [(x, v)] else freed s)"
    by (auto simp: D f1 d1)
  have "pr_inv s' (del (key_cmp s) k t)"
  proof (rule pr_invI [OF U(2) F(1)])
    show "sorted_by (key_cmp s') (entries (del (key_cmp s) k t))"
      by (simp add: U(5) F(2) sorted_by_del_by [OF I(3,4)])
    show "count s' = of_nat (size (del (key_cmp s) k t))" by (simp add: U(3) I(5) F(4))
    show "dom (heap s') = set (addrs (del (key_cmp s) k t))" by (simp add: U(4) I(6) F(3))
  qed (simp add: U(5) I(3))
  with U F(2) show ?thesis by (simp add: run)
qed


lemma pr_tree_remove_total:
  assumes inv: "pr_inv s t"
  shows "\<exists>rc s' t'. pr_tree_remove s (Some k) = Some (rc, s') \<and> pr_inv s' t' \<and> key_cmp s' = key_cmp s
    \<and> (rc = 0 \<and> entries t' = del_by (key_cmp s) k (entries t)
         \<and> lookup_by (key_cmp s) k (entries t) \<noteq> None
       \<or> rc = - 1 \<and> s' = s \<and> t' = t \<and> lookup_by (key_cmp s) k (entries t) = None)"
proof -
  from pr_invD(3,4) [OF inv] show ?thesis
  proof (cases rule: path_to_cases [where k = k])
    case (vacant ctx rv)
    with pr_tree_remove_vacant [OF inv vacant(1)] inv show ?thesis by auto
  next
    case (found ctx l b x y w r rv)
    with pr_tree_remove_found [OF inv found(1)] show ?thesis by auto
  qed
qed

section \<open>Properties\<close>

text \<open>
  The dictionary with keys 10, 20, 30, 40 in the shape that inserting 20, 10, 30,
  40 in this order produces. It satisfies the balance condition.
\<close>

definition tree4 :: "(int, nat) ltree" where
  "tree4 = Nd (Nd Tip 1 10 1 2 Tip) 0 20 2 5 (Nd Tip 2 30 3 3 (Nd Tip 3 40 4 2 Tip))"

lemma pr_inv_tree4: "pr_inv (state_of int_cmp d tree4) tree4"
  by (rule pr_inv_state_of) (simp_all add: tree4_def wt_inv_def int_cmp_def)

lemma del_tree4:
  "del int_cmp 20 tree4 = Nd (Nd Tip 1 10 1 2 Tip) 2 30 3 4 (Nd Tip 3 40 4 2 Tip)"
  "del int_cmp 10 tree4 = Nd Tip 0 20 2 4 (Nd Tip 2 30 3 3 (Nd Tip 3 40 4 2 Tip))"
  by (simp_all add: del_def tree4_def int_cmp_def sink_path.simps)

text \<open>
  C2 (functional): removal of a key that is present. On a state that satisfies the
  tree invariant \<^verbatim>\<open>pr_tree_remove\<close> returns 0; the new state satisfies the
  invariant for the tree \<open>del\<close> computes, whose in-order entries are the old
  entries without the pair of that key; exactly one node is freed, and the
  deleter, if any, receives the stored key and datum of that node once.
\<close>

theorem pr_tree_remove_present:
  assumes "pr_inv s t" and "lookup_by (key_cmp s) k (entries t) = Some y"
  shows "\<exists>s' a x. pr_tree_remove s (Some k) = Some (0, s') \<and> pr_inv s' (del (key_cmp s) k t)
    \<and> entries (del (key_cmp s) k t) = del_by (key_cmp s) k (entries t)
    \<and> a \<in> set (addrs t) \<and> dom (heap s') = dom (heap s) - {a}
    \<and> key_cmp s k x = 0
    \<and> freed s' = (if del_func s then freed s @ [(x, y)] else freed s)"
proof -
  from assms obtain ctx l b x w r rv where
    p: "path_to (key_cmp s) k t [] 0 = (ctx, Nd l b x y w r, rv)" and x: "key_cmp s k x = 0"
    by (rule lookup_by_found)
  from path_to_plug [OF p] have "t = plug ctx (Nd l b x y w r)" by simp
  then have "b \<in> set (addrs t)" by simp
  with pr_tree_remove_found [OF assms(1) p] x show ?thesis by blast
qed

theorem pr_tree_remove_present_witness:
  "pr_inv (state_of int_cmp True tree4) tree4
   \<and> lookup_by int_cmp 20 (entries tree4) = Some 2
   \<and> (\<exists>s'. pr_tree_remove (state_of int_cmp True tree4) (Some 20) = Some (0, s')
        \<and> pr_inv s' (Nd (Nd Tip 1 10 1 2 Tip) 2 30 3 4 (Nd Tip 3 40 4 2 Tip))
        \<and> freed s' = [(20, 2)])"
proof -
  from pr_tree_remove_present [OF pr_inv_tree4, of True 20 2]
  obtain s' x where "pr_tree_remove (state_of int_cmp True tree4) (Some 20) = Some (0, s')"
    "pr_inv s' (Nd (Nd Tip 1 10 1 2 Tip) 2 30 3 4 (Nd Tip 3 40 4 2 Tip))"
    "int_cmp 20 x = 0" "freed s' = [(x, 2)]"
    by (auto simp: del_tree4) (auto simp: tree4_def int_cmp_def)
  then show ?thesis using pr_inv_tree4 [of True]
    by (auto simp: int_cmp_def) (simp_all add: tree4_def int_cmp_def)
qed

text \<open>
  C26 (error): removal of a key that is absent is reported as not found:
  \<^verbatim>\<open>pr_tree_remove\<close> returns -1 and the state is unchanged.
\<close>

theorem pr_tree_remove_absent:
  assumes "pr_inv s t" and "lookup_by (key_cmp s) k (entries t) = None"
  shows "pr_tree_remove s (Some k) = Some (- 1, s)"
  using assms by (rule lookup_by_vacant) (rule pr_tree_remove_vacant [OF assms(1)])

theorem pr_tree_remove_absent_witness:
  "pr_inv (state_of int_cmp True tree4) tree4
   \<and> lookup_by int_cmp 25 (entries tree4) = None
   \<and> pr_tree_remove (state_of int_cmp True tree4) (Some 25) = Some (- 1, state_of int_cmp True tree4)"
  using pr_tree_remove_absent [OF pr_inv_tree4, of True 25] pr_inv_tree4 [of True]
  by (simp add: tree4_def int_cmp_def)

text \<open>
  C10 (invariant): removal does not restore the balance condition. The tree with
  keys 10, 20, 30, 40 above is balanced; removing key 10 succeeds and leaves a
  state that satisfies the tree invariant for a tree in which the root has a left
  weight of 1 and a right-right grandchild of weight 2, so a single left rotation
  is due: the balance condition of the specification does not hold after
  \<^verbatim>\<open>pr_tree_remove\<close>.
\<close>

theorem remove_breaks_balance:
  "pr_inv (state_of int_cmp False tree4) tree4 \<and> balanced tree4
   \<and> (\<exists>s'. pr_tree_remove (state_of int_cmp False tree4) (Some 10) = Some (0, s')
        \<and> pr_inv s' (del int_cmp 10 tree4))
   \<and> \<not> balanced (del int_cmp 10 tree4)"
proof -
  have l: "lookup_by (key_cmp (state_of int_cmp False tree4)) 10 (entries tree4) = Some 1"
    by (simp add: tree4_def int_cmp_def)
  from pr_inv_tree4 l obtain ctx l b x w r rv where
    "path_to (key_cmp (state_of int_cmp False tree4)) 10 tree4 [] 0 = (ctx, Nd l b x 1 w r, rv)"
    by (rule lookup_by_found)
  from pr_tree_remove_found [OF pr_inv_tree4 this] pr_inv_tree4 [of False] show ?thesis
    by (auto simp: del_tree4) (simp_all add: tree4_def word_le_nat_alt)
qed

end
