(* ===== verification/PR_Metrics.thy ===== *)
theory PR_Metrics
  imports PR_Tree
begin

text \<open>
  The measurements of \<^verbatim>\<open>pr_tree.c\<close>: \<^verbatim>\<open>pr_tree_count\<close>, \<^verbatim>\<open>pr_tree_height\<close>,
  \<^verbatim>\<open>pr_tree_mheight\<close>, \<^verbatim>\<open>pr_tree_pathlen\<close> and the recursive functions
  \<^verbatim>\<open>node_height\<close>, \<^verbatim>\<open>node_mheight\<close>, \<^verbatim>\<open>node_pathlen\<close> behind them. Their
  results are \<^verbatim>\<open>unsigned\<close>, modelled as 32-bit words. The recursion of the C
  functions follows child pointers, so they are partial functions of the heap;
  on a represented tree they return the value of the corresponding function on
  labelled trees (\<open>height_w\<close>, \<open>mheight_w\<close>, \<open>pathlen_w\<close>, in word arithmetic),
  which agrees with the mathematical quantity (\<open>ht\<close>, \<open>mht\<close>, \<open>ipl\<close>) as long as
  that fits into 32 bits; the path length is correct modulo \<open>2 ^ 32\<close> without
  any bound.
\<close>

section \<open>The C functions\<close>

partial_function (option) node_height :: "('k, 'v) pr_state \<Rightarrow> addr \<Rightarrow> count_t option" where
  "node_height s node = do {
     n \<leftarrow> heap s node;
     l \<leftarrow> (case llink n of None \<Rightarrow> Some 0 | Some x \<Rightarrow> do { h \<leftarrow> node_height s x; Some (h + 1) });
     r \<leftarrow> (case rlink n of None \<Rightarrow> Some 0 | Some x \<Rightarrow> do { h \<leftarrow> node_height s x; Some (h + 1) });
     Some (max l r) }"

partial_function (option) node_mheight :: "('k, 'v) pr_state \<Rightarrow> addr \<Rightarrow> count_t option" where
  "node_mheight s node = do {
     n \<leftarrow> heap s node;
     l \<leftarrow> (case llink n of None \<Rightarrow> Some 0 | Some x \<Rightarrow> do { h \<leftarrow> node_mheight s x; Some (h + 1) });
     r \<leftarrow> (case rlink n of None \<Rightarrow> Some 0 | Some x \<Rightarrow> do { h \<leftarrow> node_mheight s x; Some (h + 1) });
     Some (min l r) }"

partial_function (option) node_pathlen ::
  "('k, 'v) pr_state \<Rightarrow> addr \<Rightarrow> count_t \<Rightarrow> count_t option" where
  "node_pathlen s node level = do {
     n \<leftarrow> heap s node;
     n1 \<leftarrow> (case llink n of None \<Rightarrow> Some 0
            | Some x \<Rightarrow> do { p \<leftarrow> node_pathlen s x (level + 1); Some (0 + (level + p)) });
     (case rlink n of None \<Rightarrow> Some n1
      | Some x \<Rightarrow> do { p \<leftarrow> node_pathlen s x (level + 1); Some (n1 + (level + p)) }) }"

definition pr_tree_count :: "('k, 'v) pr_state \<Rightarrow> count_t" where
  "pr_tree_count s = count s"

definition pr_tree_height :: "('k, 'v) pr_state \<Rightarrow> count_t option" where
  "pr_tree_height s = (case root s of None \<Rightarrow> Some 0 | Some a \<Rightarrow> node_height s a)"

definition pr_tree_mheight :: "('k, 'v) pr_state \<Rightarrow> count_t option" where
  "pr_tree_mheight s = (case root s of None \<Rightarrow> Some 0 | Some a \<Rightarrow> node_mheight s a)"

definition pr_tree_pathlen :: "('k, 'v) pr_state \<Rightarrow> count_t option" where
  "pr_tree_pathlen s = (case root s of None \<Rightarrow> Some 0 | Some a \<Rightarrow> node_pathlen s a 1)"

section \<open>The measurements on labelled trees\<close>

fun height_w :: "('k, 'v) ltree \<Rightarrow> count_t" where
  "height_w Tip = 0"
| "height_w (Nd l a k v w r) =
     max (if l = Tip then 0 else height_w l + 1) (if r = Tip then 0 else height_w r + 1)"

fun mheight_w :: "('k, 'v) ltree \<Rightarrow> count_t" where
  "mheight_w Tip = 0"
| "mheight_w (Nd l a k v w r) =
     min (if l = Tip then 0 else mheight_w l + 1) (if r = Tip then 0 else mheight_w r + 1)"

fun pathlen_w :: "count_t \<Rightarrow> ('k, 'v) ltree \<Rightarrow> count_t" where
  "pathlen_w level Tip = 0"
| "pathlen_w level (Nd l a k v w r) =
     (if l = Tip then 0 else level + pathlen_w (level + 1) l)
     + (if r = Tip then 0 else level + pathlen_w (level + 1) r)"

text \<open>
  The same quantities as natural numbers: the number of edges on a longest and on
  a shortest path from the root to a node with a missing child, and the sum of
  the depths of all nodes, where the root has depth \<open>d\<close>.
\<close>

fun ht :: "('k, 'v) ltree \<Rightarrow> nat" where
  "ht Tip = 0"
| "ht (Nd l a k v w r) = max (if l = Tip then 0 else ht l + 1) (if r = Tip then 0 else ht r + 1)"

fun mht :: "('k, 'v) ltree \<Rightarrow> nat" where
  "mht Tip = 0"
| "mht (Nd l a k v w r) = min (if l = Tip then 0 else mht l + 1) (if r = Tip then 0 else mht r + 1)"

fun ipl :: "nat \<Rightarrow> ('k, 'v) ltree \<Rightarrow> nat" where
  "ipl d Tip = 0"
| "ipl d (Nd l a k v w r) = d + ipl (d + 1) l + ipl (d + 1) r"

section \<open>Lemmas: refinement\<close>

lemma node_height_refines:
  "tree_at (heap s) par t \<Longrightarrow> rootp t = Some a \<Longrightarrow> node_height s a = Some (height_w t)"
proof (induction t arbitrary: par a)
  case (Nd l b k v w r)
  from Nd.prems have tl: "tree_at (heap s) (Some b) l" and tr: "tree_at (heap s) (Some b) r"
    by simp_all
  from Nd.prems Nd.IH(1) [OF tl] Nd.IH(2) [OF tr] show ?case
    by (subst node_height.simps) (cases l; cases r; simp)
qed simp

lemma node_mheight_refines:
  "tree_at (heap s) par t \<Longrightarrow> rootp t = Some a \<Longrightarrow> node_mheight s a = Some (mheight_w t)"
proof (induction t arbitrary: par a)
  case (Nd l b k v w r)
  from Nd.prems have tl: "tree_at (heap s) (Some b) l" and tr: "tree_at (heap s) (Some b) r"
    by simp_all
  from Nd.prems Nd.IH(1) [OF tl] Nd.IH(2) [OF tr] show ?case
    by (subst node_mheight.simps) (cases l; cases r; simp)
qed simp

lemma node_pathlen_refines:
  "tree_at (heap s) par t \<Longrightarrow> rootp t = Some a \<Longrightarrow>
   node_pathlen s a level = Some (pathlen_w level t)"
proof (induction t arbitrary: par a level)
  case (Nd l b k v w r)
  from Nd.prems have tl: "tree_at (heap s) (Some b) l" and tr: "tree_at (heap s) (Some b) r"
    by simp_all
  from Nd.prems Nd.IH(1) [OF tl, of _ "level + 1"] Nd.IH(2) [OF tr, of _ "level + 1"] show ?case
    by (subst node_pathlen.simps) (cases l; cases r; simp)
qed simp

section \<open>Lemmas: the word results and the natural numbers\<close>

lemma ht_less_size: "t \<noteq> Tip \<Longrightarrow> ht t < size t"
  by (induction t) (auto simp: max_def)

lemma mht_le_ht: "mht t \<le> ht t"
  by (induction t) (auto simp: max_def min_def)

lemma max_of_nat_count:
  "a < 2 ^ 32 \<Longrightarrow> b < 2 ^ 32 \<Longrightarrow> max (of_nat a :: count_t) (of_nat b) = of_nat (max a b)"
  by (simp add: max_def word_le_nat_alt unat_of_nat_count)

lemma min_of_nat_count:
  "a < 2 ^ 32 \<Longrightarrow> b < 2 ^ 32 \<Longrightarrow> min (of_nat a :: count_t) (of_nat b) = of_nat (min a b)"
  by (simp add: min_def word_le_nat_alt unat_of_nat_count)

lemma child_ht_bound: "size t < n \<Longrightarrow> (if t = Tip then 0 else ht t + 1) < n"
  using ht_less_size [of t] by auto

lemma child_mht_bound: "size t < n \<Longrightarrow> (if t = Tip then 0 else mht t + 1) < n"
  using ht_less_size [of t] mht_le_ht [of t] by auto

lemma height_w_ht: "size t < 2 ^ 32 \<Longrightarrow> height_w t = of_nat (ht t)"
proof (induction t)
  case (Nd l a k v w r)
  then have l: "(if l = Tip then 0 else height_w l + 1) = of_nat (if l = Tip then 0 else ht l + 1)"
    and r: "(if r = Tip then 0 else height_w r + 1) = of_nat (if r = Tip then 0 else ht r + 1)"
    by simp_all
  from Nd.prems have "size l < 2 ^ 32" "size r < 2 ^ 32" by simp_all
  from child_ht_bound [OF this(1)] child_ht_bound [OF this(2)] show ?case
    by (simp only: height_w.simps ht.simps l r max_of_nat_count)
qed simp

lemma mheight_w_mht: "size t < 2 ^ 32 \<Longrightarrow> mheight_w t = of_nat (mht t)"
proof (induction t)
  case (Nd l a k v w r)
  then have l: "(if l = Tip then 0 else mheight_w l + 1) = of_nat (if l = Tip then 0 else mht l + 1)"
    and r: "(if r = Tip then 0 else mheight_w r + 1) = of_nat (if r = Tip then 0 else mht r + 1)"
    by simp_all
  from Nd.prems have "size l < 2 ^ 32" "size r < 2 ^ 32" by simp_all
  from child_mht_bound [OF this(1)] child_mht_bound [OF this(2)] show ?case
    by (simp only: mheight_w.simps mht.simps l r min_of_nat_count)
qed simp

lemma pathlen_w_ipl:
  "(if t = Tip then 0 else of_nat d + pathlen_w (of_nat d + 1) t) = (of_nat (ipl d t) :: count_t)"
proof (induction t arbitrary: d)
  case (Nd l a k v w r)
  have l: "(if l = Tip then 0 else (of_nat d + 1) + pathlen_w (of_nat d + 1 + 1) l)
      = (of_nat (ipl (d + 1) l) :: count_t)"
    and r: "(if r = Tip then 0 else (of_nat d + 1) + pathlen_w (of_nat d + 1 + 1) r)
      = (of_nat (ipl (d + 1) r) :: count_t)"
    using Nd.IH(1) [of "d + 1"] Nd.IH(2) [of "d + 1"] by (simp_all only: of_nat_add of_nat_1)
  show ?case
    by (simp only: pathlen_w.simps ipl.simps l r ltree.distinct if_False)
      (simp only: of_nat_add add.assoc)
qed simp

lemma pathlen_w_root: "pathlen_w 1 t = of_nat (ipl 0 t)"
  using pathlen_w_ipl [of t 0] by (cases t) simp_all

section \<open>Lemmas: the tree-level functions\<close>

lemma repr_root_cases [consumes 1, case_names empty node]:
  assumes "repr s t"
    and "t = Tip \<Longrightarrow> root s = None \<Longrightarrow> P"
    and "\<And>a. tree_at (heap s) None t \<Longrightarrow> rootp t = Some a \<Longrightarrow> root s = Some a \<Longrightarrow> P"
  shows P
  using assms by (cases t) (auto simp: repr_def)

lemma pr_tree_height_refines: "repr s t \<Longrightarrow> pr_tree_height s = Some (height_w t)"
  by (cases rule: repr_root_cases) (auto simp: pr_tree_height_def node_height_refines)

lemma pr_tree_mheight_refines: "repr s t \<Longrightarrow> pr_tree_mheight s = Some (mheight_w t)"
  by (cases rule: repr_root_cases) (auto simp: pr_tree_mheight_def node_mheight_refines)

lemma pr_tree_pathlen_refines: "repr s t \<Longrightarrow> pr_tree_pathlen s = Some (of_nat (ipl 0 t))"
  by (cases rule: repr_root_cases)
    (auto simp: pr_tree_pathlen_def node_pathlen_refines pathlen_w_root)

lemma unat_ht: "size t < 2 ^ 32 \<Longrightarrow> unat (of_nat (ht t) :: count_t) = ht t"
  using ht_less_size [of t] by (cases "t = Tip") (simp_all add: unat_of_nat_count)

lemma unat_mht: "size t < 2 ^ 32 \<Longrightarrow> unat (of_nat (mht t) :: count_t) = mht t"
  using ht_less_size [of t] mht_le_ht [of t] by (cases "t = Tip") (simp_all add: unat_of_nat_count)

section \<open>Properties\<close>

definition skew3 :: "(int, nat) ltree" where
  "skew3 = Nd Tip 0 10 1 4 (Nd (Nd Tip 2 15 3 2 Tip) 1 20 2 3 Tip)"

lemma repr_skew3: "repr (state_of int_cmp d skew3) skew3"
  by (rule repr_state_of) (simp add: skew3_def)

text \<open>
  C30 (functional): \<^verbatim>\<open>pr_tree_height\<close>. On a state that represents a tree of
  fewer than \<open>2 ^ 32\<close> nodes the recursion of \<^verbatim>\<open>node_height\<close> returns, and its
  result, read as a number, is the number of edges on a longest path from the
  root downwards (0 for the empty tree and for a single node).
\<close>

theorem pr_tree_height_correct:
  assumes "repr s t" and "size t < 2 ^ 32"
  shows "\<exists>h. pr_tree_height s = Some h \<and> unat h = ht t"
  using pr_tree_height_refines [OF assms(1)] height_w_ht [OF assms(2)] unat_ht [OF assms(2)]
  by simp

theorem pr_tree_height_correct_witness:
  "\<exists>h. pr_tree_height (state_of int_cmp False skew3) = Some h \<and> unat h = 2"
  using pr_tree_height_correct [OF repr_skew3 [of False]] by (auto simp: skew3_def)

text \<open>
  C32 (functional): \<^verbatim>\<open>pr_tree_mheight\<close>. On a state that represents a tree of
  fewer than \<open>2 ^ 32\<close> nodes \<^verbatim>\<open>node_mheight\<close> returns the number of edges on a
  shortest path from the root to a node that lacks a child.
\<close>

theorem pr_tree_mheight_correct:
  assumes "repr s t" and "size t < 2 ^ 32"
  shows "\<exists>h. pr_tree_mheight s = Some h \<and> unat h = mht t"
  using pr_tree_mheight_refines [OF assms(1)] mheight_w_mht [OF assms(2)] unat_mht [OF assms(2)]
  by simp

theorem pr_tree_mheight_correct_witness:
  "\<exists>h. pr_tree_mheight (state_of int_cmp False skew3) = Some h \<and> unat h = 0"
  using pr_tree_mheight_correct [OF repr_skew3 [of False]] by (auto simp: skew3_def)

text \<open>
  C31 (functional): \<^verbatim>\<open>pr_tree_pathlen\<close>. On every represented tree
  \<^verbatim>\<open>node_pathlen\<close> returns, and the result is the sum of the depths of all nodes,
  the root counted at depth 0, modulo \<open>2 ^ 32\<close>.
\<close>

theorem pr_tree_pathlen_correct:
  assumes "repr s t"
  shows "pr_tree_pathlen s = Some (of_nat (ipl 0 t))"
  using assms by (rule pr_tree_pathlen_refines)

theorem pr_tree_pathlen_correct_witness:
  "pr_tree_pathlen (state_of int_cmp False skew3) = Some 3"
  using pr_tree_pathlen_correct [OF repr_skew3 [of False]] by (simp add: skew3_def)

text \<open>
  The path length of a single node: \<^verbatim>\<open>pr_tree_pathlen\<close> starts \<^verbatim>\<open>node_pathlen\<close>
  at level 1 for the children of the root, so the root itself contributes
  nothing. A tree of one node has path length 0, where a count with the root at
  depth 1 gives 1.
\<close>

lemma pathlen_single_node:
  "pr_tree_pathlen (state_of int_cmp False (Nd Tip 0 (10::int) (1::nat) 2 Tip)) = Some 0"
  using pr_tree_pathlen_refines [OF repr_state_of, of "Nd Tip 0 (10::int) (1::nat) 2 Tip" int_cmp False]
  by simp

text \<open>
  The minimal height of a root with one child: in \<open>skew3\<close> the root has no left
  child and the only leaf is two edges below the root; \<^verbatim>\<open>pr_tree_mheight\<close>
  returns 0, because a missing child counts as a path of length 0.
\<close>

lemma mheight_one_child:
  "pr_tree_mheight (state_of int_cmp False skew3) = Some 0
   \<and> pr_tree_height (state_of int_cmp False skew3) = Some 2"
  using pr_tree_mheight_refines [OF repr_skew3 [of False]]
    pr_tree_height_refines [OF repr_skew3 [of False]]
  by (simp add: skew3_def)

end
