(* ===== verification/PR_Life.thy ===== *)
theory PR_Life
  imports PR_Tree
begin

text \<open>
  Creation and disposal of a tree: \<^verbatim>\<open>pr_tree_new\<close>, \<^verbatim>\<open>pr_tree_empty\<close> and
  \<^verbatim>\<open>pr_tree_destroy\<close>. The loop of \<^verbatim>\<open>pr_tree_empty\<close> walks to a leaf (left
  child first), hands its key and datum to the deleter, frees it, clears the
  pointer to it in its parent and continues at the parent. The lemmas show that
  it returns on every represented tree, frees exactly the nodes of the tree and
  hands the entries to the deleter in post-order.
\<close>

section \<open>The C functions\<close>

text \<open>
  \<^verbatim>\<open>pr_tree_new\<close>: \<open>mem\<close> says whether \<^verbatim>\<open>MALLOC\<close> succeeds; the result \<open>None\<close> is
  the \<^verbatim>\<open>NULL\<close> the function returns when it does not. The default comparator
  \<^verbatim>\<open>dict_ptr_cmp\<close> belongs to the generic dictionary and is a parameter.
\<close>

definition pr_tree_new ::
  "('k \<Rightarrow> 'k \<Rightarrow> int) \<Rightarrow> ('k \<Rightarrow> 'k \<Rightarrow> int) option \<Rightarrow> bool \<Rightarrow> bool \<Rightarrow> ('k, 'v) pr_state option" where
  "pr_tree_new dict_ptr_cmp cmp del mem =
     (if \<not> mem then None
      else Some \<lparr>root = None, count = 0,
                 key_cmp = (case cmp of None \<Rightarrow> dict_ptr_cmp | Some c \<Rightarrow> c),
                 del_func = del, heap = Map.empty, freed = []\<rparr>)"

partial_function (option) empty_loop ::
  "('k, 'v) pr_state \<Rightarrow> ptr \<Rightarrow> ('k, 'v) pr_state option" where
  "empty_loop s node =
     (case node of
        None \<Rightarrow> Some s
      | Some a \<Rightarrow> do {
          n \<leftarrow> heap s a;
          if llink n \<noteq> None \<or> rlink n \<noteq> None
          then empty_loop s (if llink n \<noteq> None then llink n else rlink n)
          else do {
            s2 \<leftarrow> node_free a (call_del (key n) (datum n) s);
            s3 \<leftarrow> (case parent n of
                     None \<Rightarrow> Some s2
                   | Some p \<Rightarrow> do {
                       pn \<leftarrow> heap s2 p;
                       if llink pn = Some a then node_upd p (\<lambda>x. x\<lparr>llink := None\<rparr>) s2
                       else node_upd p (\<lambda>x. x\<lparr>rlink := None\<rparr>) s2 });
            empty_loop s3 (parent n) } })"

definition pr_tree_empty :: "('k, 'v) pr_state \<Rightarrow> (count_t \<times> ('k, 'v) pr_state) option" where
  "pr_tree_empty s = do {
     s' \<leftarrow> empty_loop s (root s);
     Some (count s, s'\<lparr>root := None, count := 0\<rparr>) }"

text \<open>
  \<^verbatim>\<open>pr_tree_destroy\<close> frees the tree object itself; what is left is the heap of
  nodes and the log of deleter calls.
\<close>

definition pr_tree_destroy ::
  "('k, 'v) pr_state \<Rightarrow> (count_t \<times> (addr \<rightharpoonup> ('k, 'v) pr_node) \<times> ('k \<times> 'v) list) option" where
  "pr_tree_destroy s =
     (if root s \<noteq> None
      then do { (n, s') \<leftarrow> pr_tree_empty s; Some (n, heap s', freed s') }
      else Some (0, heap s, freed s))"

section \<open>The order of disposal\<close>

fun postorder :: "('k, 'v) ltree \<Rightarrow> ('k \<times> 'v) list" where
  "postorder Tip = []"
| "postorder (Nd l a k v w r) = postorder l @ postorder r @ [(k, v)]"

fun fill :: "('k, 'v) frame \<Rightarrow> ('k, 'v) ltree \<Rightarrow> ('k, 'v) ltree" where
  "fill (LF a k v w r) t = Nd t a k v w r"
| "fill (RF l a k v w) t = Nd l a k v w t"

text \<open>
  What is disposed of after the subtree in the hole of a context: for every
  frame, innermost first, the sibling subtree and then the frame's node.
\<close>

fun drain :: "('k, 'v) frame list \<Rightarrow> ('k \<times> 'v) list" where
  "drain [] = []"
| "drain (f # c) = postorder (fill f Tip) @ drain c"

definition drained ::
  "('k, 'v) frame list \<Rightarrow> ('k, 'v) ltree \<Rightarrow> ('k, 'v) pr_state \<Rightarrow> ('k, 'v) pr_state" where
  "drained c t s =
     s\<lparr>heap := heap s |` (- set (addrs (plug c t))),
       freed := freed s @ (if del_func s then postorder t @ drain c else [])\<rparr>"

section \<open>Lemmas\<close>

lemma plug_fill: "plug (f # c) t = plug c (fill f t)"
  by (cases f) simp_all

lemma rootp_fill [simp]: "rootp (fill f t) = Some (faddr f)"
  by (cases f) simp_all

lemma fill_not_Tip [simp]: "fill f t \<noteq> Tip"
  by (cases f) simp_all

lemma length_postorder [simp]: "length (postorder t) = size t"
  by (induction t) simp_all

lemma set_postorder [simp]: "set (postorder t) = set (entries t)"
  by (induction t) auto

lemma length_ctx_le: "length c \<le> size (plug c t)"
proof -
  have "length c \<le> length (cpre c) + length (cpost c)"
    by (induction c rule: cpre.induct) simp_all
  then show ?thesis by (simp add: size_plug)
qed

lemma empty_loop_None [simp]: "empty_loop s None = Some s"
  by (subst empty_loop.simps) simp

lemma empty_descend_left:
  "heap s a = Some n \<Longrightarrow> llink n = Some b \<Longrightarrow> empty_loop s (Some a) = empty_loop s (Some b)"
  by (subst empty_loop.simps) simp

lemma empty_descend_right:
  "heap s a = Some n \<Longrightarrow> llink n = None \<Longrightarrow> rlink n = Some b \<Longrightarrow>
   empty_loop s (Some a) = empty_loop s (Some b)"
  by (subst empty_loop.simps) simp

lemma drained_left: "drained (LF a k v w r # c) l s = drained c (Nd l a k v w r) s"
  by (simp add: drained_def)

lemma drained_right: "drained (RF Tip a k v w # c) r s = drained c (Nd Tip a k v w r) s"
  by (simp add: drained_def)

lemma empty_leaf_root:
  assumes "heap s a = Some \<lparr>key = k, datum = v, parent = None, llink = None, rlink = None, weight = w\<rparr>"
  shows "empty_loop s (Some a) = Some (drained [] (Nd Tip a k v w Tip) s)"
  using assms
  by (subst empty_loop.simps) (auto simp: pr_prims drained_def restrict_map_def fun_eq_iff)

lemma empty_leaf_step:
  assumes c: "ctx_at (heap s) (f # c) (Some a)"
    and a: "heap s a = Some \<lparr>key = k, datum = v, parent = Some (faddr f), llink = None, rlink = None, weight = w\<rparr>"
    and d: "distinct (addrs (plug (f # c) (Nd Tip a k v w Tip)))"
  shows "\<exists>s3. empty_loop s (Some a) = empty_loop s3 (Some (faddr f))
           \<and> ctx_at (heap s3) c (Some (faddr f)) \<and> tree_at (heap s3) (ctxp c) (fill f Tip)
           \<and> drained c (fill f Tip) s3 = drained (f # c) (Nd Tip a k v w Tip) s"
proof (cases f)
  case (LF p kp vp wp r)
  let ?s3 = "(call_del k v s)\<lparr>heap := (heap s)(a := None,
    p \<mapsto> \<lparr>key = kp, datum = vp, parent = ctxp c, llink = None, rlink = rootp r, weight = wp\<rparr>)\<rparr>"
  from c a d LF have "empty_loop s (Some a) = empty_loop ?s3 (Some p)"
    by (subst empty_loop.simps) (auto simp: pr_prims)
  moreover from c d LF have "ctx_at (heap ?s3) c (Some p)" "tree_at (heap ?s3) (ctxp c) (fill f Tip)"
    by (auto simp: call_del_def)
  moreover from LF have "drained c (fill f Tip) ?s3 = drained (f # c) (Nd Tip a k v w Tip) s"
    by (auto simp: drained_def call_del_def restrict_map_def fun_eq_iff)
  ultimately show ?thesis using LF by auto
next
  case (RF l p kp vp wp)
  let ?s3 = "(call_del k v s)\<lparr>heap := (heap s)(a := None,
    p \<mapsto> \<lparr>key = kp, datum = vp, parent = ctxp c, llink = rootp l, rlink = None, weight = wp\<rparr>)\<rparr>"
  from c a d RF have "empty_loop s (Some a) = empty_loop ?s3 (Some p)"
    by (subst empty_loop.simps) (auto simp: pr_prims)
  moreover from c d RF have "ctx_at (heap ?s3) c (Some p)" "tree_at (heap ?s3) (ctxp c) (fill f Tip)"
    by (auto simp: call_del_def)
  moreover from RF have "drained c (fill f Tip) ?s3 = drained (f # c) (Nd Tip a k v w Tip) s"
    by (auto simp: drained_def call_del_def restrict_map_def fun_eq_iff)
  ultimately show ?thesis using RF by auto
qed

text \<open>
  The number of iterations the loop still makes at a node with subtree \<open>t\<close> in
  context \<open>c\<close> is \<open>2 * size (plug c t) - length c - 1\<close>; it is the measure of the
  induction.
\<close>

lemma empty_measure_down:
  "2 * size (plug (f # c) t) - length (f # c) < 2 * size (plug c (fill f t)) - length c"
  using length_ctx_le [of c "fill f t"] by (cases f) (auto simp: size_plug)

lemma empty_measure_up:
  "2 * size (plug c (fill f Tip)) - length c
     < 2 * size (plug (f # c) (Nd Tip a k v w Tip)) - length (f # c)"
  using length_ctx_le [of c "fill f Tip"] by (cases f) (auto simp: size_plug)

lemma distinct_fill_Tip:
  "distinct (addrs (plug (f # c) (Nd Tip a k v w Tip))) \<Longrightarrow> distinct (addrs (plug c (fill f Tip)))"
  by (cases f) auto

lemma empty_loop_refines:
  assumes "t \<noteq> Tip" and "ctx_at (heap s) c (rootp t)" and "tree_at (heap s) (ctxp c) t"
    and "distinct (addrs (plug c t))"
  shows "empty_loop s (rootp t) = Some (drained c t s)"
  using assms
proof (induction "2 * size (plug c t) - length c" arbitrary: c t s rule: less_induct)
  case less
  from less.prems(1) obtain l a k v w r where t: "t = Nd l a k v w r" by (cases t) auto
  note h = less.prems(2-4) [unfolded t]
  consider (left) "l \<noteq> Tip" | (right) "l = Tip" "r \<noteq> Tip" | (leaf) "l = Tip" "r = Tip" by blast
  then show ?case
  proof cases
    case left
    let ?c = "LF a k v w r # c"
    from left obtain b where b: "rootp l = Some b" by (cases l) auto
    with h have "empty_loop s (Some a) = empty_loop s (rootp l)"
      by (auto intro: empty_descend_left)
    also have "\<dots> = Some (drained ?c l s)"
      using h left empty_measure_down [of "LF a k v w r" c l]
      by (intro less.hyps) (auto simp: t)
    finally show ?thesis by (simp add: t drained_left)
  next
    case right
    let ?c = "RF Tip a k v w # c"
    from right obtain b where b: "rootp r = Some b" by (cases r) auto
    with h right have "empty_loop s (Some a) = empty_loop s (rootp r)"
      by (auto intro: empty_descend_right)
    also have "\<dots> = Some (drained ?c r s)"
      using h right empty_measure_down [of "RF Tip a k v w" c r]
      by (intro less.hyps) (auto simp: t)
    finally show ?thesis by (simp add: t right drained_right)
  next
    case leaf
    show ?thesis
    proof (cases c)
      case Nil
      with h leaf show ?thesis by (simp add: t empty_leaf_root)
    next
      case (Cons f c')
      from h leaf Cons have "ctx_at (heap s) (f # c') (Some a)"
        and "heap s a = Some \<lparr>key = k, datum = v, parent = Some (faddr f), llink = None,
          rlink = None, weight = w\<rparr>"
        and d: "distinct (addrs (plug (f # c') (Nd Tip a k v w Tip)))"
        by simp_all
      from empty_leaf_step [OF this] obtain s3 where
        s3: "empty_loop s (Some a) = empty_loop s3 (Some (faddr f))"
        "ctx_at (heap s3) c' (Some (faddr f))" "tree_at (heap s3) (ctxp c') (fill f Tip)"
        "drained c' (fill f Tip) s3 = drained (f # c') (Nd Tip a k v w Tip) s"
        by blast
      have "empty_loop s3 (rootp (fill f Tip)) = Some (drained c' (fill f Tip) s3)"
        using s3(2,3) distinct_fill_Tip [OF d] empty_measure_up [of c' f a k v w]
        by (intro less.hyps) (auto simp: t leaf Cons)
      with s3 show ?thesis by (simp add: t leaf Cons)
    qed
  qed
qed

lemma pr_tree_empty_refines:
  assumes "repr s t"
  shows "pr_tree_empty s = Some (count s,
    s\<lparr>root := None, count := 0, heap := heap s |` (- set (addrs t)),
      freed := freed s @ (if del_func s then postorder t else [])\<rparr>)"
proof (cases "t = Tip")
  case True
  with assms show ?thesis by (simp add: pr_tree_empty_def restrict_map_def)
next
  case False
  from assms have "ctx_at (heap s) [] (rootp t)" "tree_at (heap s) (ctxp []) t"
    "distinct (addrs (plug [] t))" "root s = rootp t"
    by (simp_all add: repr_def)
  from empty_loop_refines [OF False this(1-3)] this(4) show ?thesis
    by (simp add: pr_tree_empty_def drained_def)
qed

lemma pr_tree_empty_inv:
  assumes "pr_inv s t"
  shows "\<exists>s'. pr_tree_empty s = Some (of_nat (size t), s') \<and> pr_inv s' Tip
    \<and> heap s' = Map.empty \<and> freed s' = freed s @ (if del_func s then postorder t else [])
    \<and> key_cmp s' = key_cmp s \<and> del_func s' = del_func s"
proof -
  note I = pr_invD [OF assms]
  have "heap s |` (- set (addrs t)) = Map.empty"
    using I(6) by (auto simp: restrict_map_def fun_eq_iff)
  with pr_tree_empty_refines [OF I(1)] I(3,5) show ?thesis
    by (simp add: pr_inv_def wt_inv_def)
qed

lemma pr_tree_destroy_refines:
  assumes "pr_inv s t"
  shows "pr_tree_destroy s =
    Some (of_nat (size t), Map.empty, freed s @ (if del_func s then postorder t else []))"
proof (cases "t = Tip")
  case True
  with pr_invD [OF assms] show ?thesis by (simp add: pr_tree_destroy_def)
next
  case False
  with pr_invD(1) [OF assms] have "root s \<noteq> None" by (simp add: repr_def)
  with pr_tree_empty_inv [OF assms] show ?thesis by (auto simp: pr_tree_destroy_def)
qed

section \<open>Properties\<close>

definition tri :: "(int, nat) ltree" where
  "tri = Nd (Nd Tip 1 10 1 2 Tip) 0 20 2 4 (Nd Tip 2 30 3 2 Tip)"

lemma pr_inv_tri: "pr_inv (state_of int_cmp d tri) tri"
  by (rule pr_inv_state_of) (simp_all add: tri_def wt_inv_def int_cmp_def)

text \<open>
  C12 (functional): \<^verbatim>\<open>pr_tree_empty\<close>. On a state that satisfies the tree
  invariant the loop returns; the result is the previous count, every node of
  the tree has been freed (the heap is empty), the tree is the empty
  dictionary, and, when a deleter is set, it has received every entry once, a
  node after both of its subtrees (post-order).
\<close>

theorem pr_tree_empty_correct:
  assumes "pr_inv s t"
  shows "\<exists>s'. pr_tree_empty s = Some (count s, s') \<and> count s = of_nat (size t)
    \<and> pr_inv s' Tip \<and> heap s' = Map.empty
    \<and> freed s' = freed s @ (if del_func s then postorder t else [])"
  using pr_tree_empty_inv [OF assms] pr_invD(5) [OF assms] by auto

theorem pr_tree_empty_correct_witness:
  "\<exists>s'. pr_tree_empty (state_of int_cmp True tri) = Some (3, s') \<and> root s' = None
     \<and> heap s' = Map.empty \<and> freed s' = [(10, 1), (30, 3), (20, 2)]"
  using pr_tree_empty_correct [OF pr_inv_tri [of True]] by (auto simp: tri_def dest: pr_invD(1))

text \<open>
  C33 (functional): \<^verbatim>\<open>pr_tree_destroy\<close>. Destroying a tree that satisfies the
  invariant returns the number of entries, leaves no node allocated and hands
  every entry to the deleter.
\<close>

theorem pr_tree_destroy_correct:
  assumes "pr_inv s t"
  shows "pr_tree_destroy s =
    Some (of_nat (size t), Map.empty, freed s @ (if del_func s then postorder t else []))"
  using assms by (rule pr_tree_destroy_refines)

theorem pr_tree_destroy_correct_witness:
  "pr_tree_destroy (state_of int_cmp True tri) = Some (3, Map.empty, [(10, 1), (30, 3), (20, 2)])"
  using pr_tree_destroy_correct [OF pr_inv_tri [of True]] by (simp add: tri_def)

text \<open>
  C34 (functional): \<^verbatim>\<open>pr_tree_new\<close>. When the allocation succeeds the new tree is
  the empty dictionary under the given comparator (the default comparator when
  \<^verbatim>\<open>NULL\<close> is passed) and satisfies the tree invariant if that comparator is a
  total order; when the allocation fails the result is \<^verbatim>\<open>NULL\<close>.
\<close>

theorem pr_tree_new_correct:
  assumes "total_cmp (case cmp of None \<Rightarrow> d | Some c \<Rightarrow> c)"
  shows "(\<exists>s. pr_tree_new d cmp del True = Some s \<and> pr_inv s Tip
            \<and> key_cmp s = (case cmp of None \<Rightarrow> d | Some c \<Rightarrow> c) \<and> del_func s = del
            \<and> heap s = Map.empty \<and> freed s = [])
         \<and> pr_tree_new d cmp del False = None"
  using assms by (simp add: pr_tree_new_def pr_inv_def)

theorem pr_tree_new_correct_witness:
  "(\<exists>s. pr_tree_new int_cmp None True True = Some (s :: (int, nat) pr_state) \<and> pr_inv s Tip
      \<and> key_cmp s = int_cmp \<and> del_func s = True \<and> heap s = Map.empty \<and> freed s = [])
   \<and> pr_tree_new int_cmp None True False = (None :: (int, nat) pr_state option)"
  using pr_tree_new_correct [where cmp = None and d = int_cmp and del = True] by simp

end
