(* ===== verification/PR_Walk.thy ===== *)
theory PR_Walk
  imports PR_Search
begin

text \<open>
  In-order traversal: \<^verbatim>\<open>node_next\<close>, \<^verbatim>\<open>node_prev\<close> and \<^verbatim>\<open>pr_tree_walk\<close>. The
  successor of a node is the least node of its right subtree or, if there is
  none, the first ancestor reached from a left child; the climb uses the
  \<^verbatim>\<open>parent\<close> pointers only. The lemmas identify a node with its index in the
  in-order list of addresses: \<^verbatim>\<open>node_next\<close> maps index \<open>i\<close> to \<open>i + 1\<close> and the
  last index to \<^verbatim>\<open>NULL\<close>, \<^verbatim>\<open>node_prev\<close> maps \<open>i + 1\<close> to \<open>i\<close> and index 0 to
  \<^verbatim>\<open>NULL\<close>. The callback of \<^verbatim>\<open>pr_tree_walk\<close> is a predicate on key and datum;
  the model returns, beside the count, the sequence of pairs it was called on.
\<close>

section \<open>The C functions\<close>

text \<open>The second loop of \<^verbatim>\<open>node_next\<close>: climb while the node is a right child.\<close>

partial_function (option) climb_right :: "('k, 'v) pr_state \<Rightarrow> addr \<Rightarrow> ptr \<Rightarrow> ptr option" where
  "climb_right s node temp =
     (case temp of
        None \<Rightarrow> Some None
      | Some t \<Rightarrow> do {
          tn \<leftarrow> heap s t;
          if rlink tn = Some node then climb_right s t (parent tn) else Some (Some t) })"

partial_function (option) climb_left :: "('k, 'v) pr_state \<Rightarrow> addr \<Rightarrow> ptr \<Rightarrow> ptr option" where
  "climb_left s node temp =
     (case temp of
        None \<Rightarrow> Some None
      | Some t \<Rightarrow> do {
          tn \<leftarrow> heap s t;
          if llink tn = Some node then climb_left s t (parent tn) else Some (Some t) })"

text \<open>
  The first loop of \<^verbatim>\<open>node_next\<close> (\<^verbatim>\<open>node_prev\<close>) is the loop of \<^verbatim>\<open>node_min\<close>
  (\<^verbatim>\<open>node_max\<close>) started at the right (left) child.
\<close>

definition node_next :: "('k, 'v) pr_state \<Rightarrow> addr \<Rightarrow> ptr option" where
  "node_next s node = do {
     n \<leftarrow> heap s node;
     case rlink n of
       Some r \<Rightarrow> do { m \<leftarrow> node_min s r; Some (Some m) }
     | None \<Rightarrow> climb_right s node (parent n) }"

definition node_prev :: "('k, 'v) pr_state \<Rightarrow> addr \<Rightarrow> ptr option" where
  "node_prev s node = do {
     n \<leftarrow> heap s node;
     case llink n of
       Some l \<Rightarrow> do { m \<leftarrow> node_max s l; Some (Some m) }
     | None \<Rightarrow> climb_left s node (parent n) }"

partial_function (option) walk_loop ::
  "('k, 'v) pr_state \<Rightarrow> ('k \<Rightarrow> 'v \<Rightarrow> bool) \<Rightarrow> ptr \<Rightarrow> count_t \<Rightarrow> ('k \<times> 'v) list
   \<Rightarrow> (count_t \<times> ('k \<times> 'v) list) option" where
  "walk_loop s visit node cnt seen =
     (case node of
        None \<Rightarrow> Some (cnt, seen)
      | Some a \<Rightarrow> do {
          n \<leftarrow> heap s a;
          if \<not> visit (key n) (datum n) then Some (cnt + 1, seen @ [(key n, datum n)])
          else do {
            nx \<leftarrow> node_next s a;
            walk_loop s visit nx (cnt + 1) (seen @ [(key n, datum n)]) } })"

definition pr_tree_walk ::
  "('k, 'v) pr_state \<Rightarrow> ('k \<Rightarrow> 'v \<Rightarrow> bool) \<Rightarrow> (count_t \<times> ('k \<times> 'v) list) option" where
  "pr_tree_walk s visit =
     (case root s of
        None \<Rightarrow> Some (0, [])
      | Some r \<Rightarrow> do { m \<leftarrow> node_min s r; walk_loop s visit (Some m) 0 [] })"

section \<open>Traversal on lists\<close>

text \<open>The entries a walk visits: up to and including the first one the callback rejects.\<close>

fun visited :: "('k \<Rightarrow> 'v \<Rightarrow> bool) \<Rightarrow> ('k \<times> 'v) list \<Rightarrow> ('k \<times> 'v) list" where
  "visited p [] = []"
| "visited p (x # xs) = x # (if p (fst x) (snd x) then visited p xs else [])"

text \<open>The pointer to the node with in-order index \<open>i\<close>, \<^verbatim>\<open>NULL\<close> beyond the end.\<close>

definition nth_ptr :: "('k, 'v) ltree \<Rightarrow> nat \<Rightarrow> ptr" where
  "nth_ptr t i = (if i < size t then Some (addrs t ! i) else None)"

section \<open>Lemmas: contexts\<close>

lemma plug_append: "plug (c @ c') t = plug c' (plug c t)"
  by (induction c t rule: plug.induct) simp_all

lemma cpre_append: "cpre (c @ c') = cpre c' @ cpre c"
  by (induction c rule: cpre.induct) simp_all

lemma cpost_append: "cpost (c @ c') = cpost c @ cpost c'"
  by (induction c rule: cpre.induct) simp_all

text \<open>Every index of the in-order list is the position of a node in a context.\<close>

lemma focus:
  "i < size t \<Longrightarrow> \<exists>c l a k v w r. t = plug c (Nd l a k v w r) \<and> i = length (cpre c) + size l"
proof (induction t arbitrary: i)
  case (Nd L A K V W R)
  consider "i < size L" | "i = size L" | "size L < i" by linarith
  then show ?case
  proof cases
    case 1
    from Nd.IH(1) [OF this] obtain c l a k v w r where
      "L = plug c (Nd l a k v w r)" "i = length (cpre c) + size l" by blast
    then have "Nd L A K V W R = plug (c @ [LF A K V W R]) (Nd l a k v w r)
        \<and> i = length (cpre (c @ [LF A K V W R])) + size l"
      by (simp add: plug_append cpre_append)
    then show ?thesis by blast
  next
    case 2
    then have "Nd L A K V W R = plug [] (Nd L A K V W R) \<and> i = length (cpre []) + size L"
      by simp
    then show ?thesis by blast
  next
    case 3
    with Nd.prems have "i - size L - 1 < size R" by simp
    from Nd.IH(2) [OF this] obtain c l a k v w r where
      "R = plug c (Nd l a k v w r)" "i - size L - 1 = length (cpre c) + size l" by blast
    with 3 have "Nd L A K V W R = plug (c @ [RF L A K V W]) (Nd l a k v w r)
        \<and> i = length (cpre (c @ [RF L A K V W])) + size l"
      by (simp add: plug_append cpre_append)
    then show ?thesis by blast
  qed
qed simp

section \<open>Lemmas: successor and predecessor\<close>

lemma climb_right_refines:
  "ctx_at (heap s) c (Some a) \<Longrightarrow> a \<notin> set (cpre c) \<Longrightarrow> a \<notin> set (cpost c) \<Longrightarrow>
   distinct (cpre c @ cpost c) \<Longrightarrow>
   climb_right s a (ctxp c) = Some (case cpost c of [] \<Rightarrow> None | x # xs \<Rightarrow> Some x)"
proof (induction c arbitrary: a rule: cpre.induct)
  case 1
  show ?case by (subst climb_right.simps) simp
next
  case (2 p k v w r c)
  then show ?case by (subst climb_right.simps) auto
next
  case (3 l p k v w c)
  from "3.prems" have "climb_right s p (ctxp c) = Some (case cpost c of [] \<Rightarrow> None | x # xs \<Rightarrow> Some x)"
    by (intro "3.IH") auto
  with "3.prems" show ?case by (subst climb_right.simps) auto
qed

lemma climb_left_refines:
  "ctx_at (heap s) c (Some a) \<Longrightarrow> a \<notin> set (cpre c) \<Longrightarrow> a \<notin> set (cpost c) \<Longrightarrow>
   distinct (cpre c @ cpost c) \<Longrightarrow>
   climb_left s a (ctxp c) = Some (if cpre c = [] then None else Some (last (cpre c)))"
proof (induction c arbitrary: a rule: cpre.induct)
  case 1
  show ?case by (subst climb_left.simps) simp
next
  case (2 p k v w r c)
  from "2.prems" have "climb_left s p (ctxp c) = Some (if cpre c = [] then None else Some (last (cpre c)))"
    by (intro "2.IH") auto
  with "2.prems" show ?case by (subst climb_left.simps) auto
next
  case (3 l p k v w c)
  then show ?case by (subst climb_left.simps) auto
qed

lemma focus_facts:
  assumes "tree_at (heap s) None (plug c (Nd l a k v w r))"
    and "distinct (addrs (plug c (Nd l a k v w r)))"
  shows "ctx_at (heap s) c (Some a)" and "a \<notin> set (cpre c)" and "a \<notin> set (cpost c)"
    and "distinct (cpre c @ cpost c)"
    and "heap s a = Some \<lparr>key = k, datum = v, parent = ctxp c, llink = rootp l, rlink = rootp r,
      weight = w\<rparr>"
    and "tree_at (heap s) (Some a) l" and "tree_at (heap s) (Some a) r"
  using assms by (auto simp: tree_at_plug)

lemma node_next_focus:
  assumes "tree_at (heap s) None (plug c (Nd l a k v w r))"
    and "distinct (addrs (plug c (Nd l a k v w r)))"
  shows "node_next s a = Some (case addrs r @ cpost c of [] \<Rightarrow> None | x # xs \<Rightarrow> Some x)"
proof (cases "r = Tip")
  case True
  note f = focus_facts [OF assms]
  from climb_right_refines [OF f(1-4)] f(5) True show ?thesis
    by (simp add: node_next_def)
next
  case False
  note f = focus_facts [OF assms]
  from False obtain b where b: "rootp r = Some b" by (cases r) auto
  from False have "(case addrs r @ cpost c of [] \<Rightarrow> None | x # xs \<Rightarrow> Some x) = Some (hd (addrs r))"
    by (cases "addrs r") simp_all
  moreover from node_min_refines [OF f(7) b] False have "node_min s b = Some (hd (addrs r))"
    by (simp add: first_addr_hd)
  ultimately show ?thesis using f(5) b by (simp add: node_next_def)
qed

lemma node_prev_focus:
  assumes "tree_at (heap s) None (plug c (Nd l a k v w r))"
    and "distinct (addrs (plug c (Nd l a k v w r)))"
  shows "node_prev s a =
    Some (if cpre c @ addrs l = [] then None else Some (last (cpre c @ addrs l)))"
proof (cases "l = Tip")
  case True
  note f = focus_facts [OF assms]
  from climb_left_refines [OF f(1-4)] f(5) True show ?thesis
    by (simp add: node_prev_def)
next
  case False
  note f = focus_facts [OF assms]
  from False obtain b where b: "rootp l = Some b" by (cases l) auto
  from node_max_refines [OF f(6) b] False have "node_max s b = Some (last (addrs l))"
    by (simp add: last_addr_last)
  with f(5) b False show ?thesis by (simp add: node_prev_def)
qed

lemma nth_ptr_split:
  assumes "addrs t = pre @ a # post"
  shows "nth_ptr t (length pre) = Some a"
    and "nth_ptr t (Suc (length pre)) = (case post of [] \<Rightarrow> None | x # xs \<Rightarrow> Some x)"
    and "nth_ptr t (length pre - 1) = (if pre = [] then Some a else Some (last pre))"
  using assms length_addrs [of t]
  by (auto simp: nth_ptr_def nth_append last_conv_nth simp del: length_addrs split: list.splits)

lemma node_next_refines:
  assumes "tree_at (heap s) None t" and "distinct (addrs t)" and "i < size t"
  shows "node_next s (addrs t ! i) = Some (nth_ptr t (Suc i))"
proof -
  from focus [OF assms(3)] obtain c l a k v w r where
    t: "t = plug c (Nd l a k v w r)" and i: "i = length (cpre c @ addrs l)" by auto
  have "addrs t = (cpre c @ addrs l) @ a # (addrs r @ cpost c)" by (simp add: t)
  from nth_ptr_split(1,2) [OF this]
  have "nth_ptr t i = Some a"
    and "nth_ptr t (Suc i) = (case addrs r @ cpost c of [] \<Rightarrow> None | x # xs \<Rightarrow> Some x)"
    by (simp_all only: i)
  moreover from this(1) assms(3) have "addrs t ! i = a" by (simp add: nth_ptr_def)
  ultimately show ?thesis using node_next_focus [OF assms(1,2) [unfolded t]] by simp
qed

lemma node_prev_refines:
  assumes "tree_at (heap s) None t" and "distinct (addrs t)" and "i < size t"
  shows "node_prev s (addrs t ! i) = Some (if i = 0 then None else nth_ptr t (i - 1))"
proof -
  from focus [OF assms(3)] obtain c l a k v w r where
    t: "t = plug c (Nd l a k v w r)" and i: "i = length (cpre c @ addrs l)" by auto
  have "addrs t = (cpre c @ addrs l) @ a # (addrs r @ cpost c)" by (simp add: t)
  from nth_ptr_split(1,3) [OF this]
  have "nth_ptr t i = Some a"
    and "nth_ptr t (i - 1) = (if cpre c @ addrs l = [] then Some a else Some (last (cpre c @ addrs l)))"
    by (simp_all only: i)
  moreover from this(1) assms(3) have "addrs t ! i = a" by (simp add: nth_ptr_def)
  moreover have "(i = 0) = (cpre c @ addrs l = [])" by (simp only: i length_0_conv)
  ultimately show ?thesis using node_prev_focus [OF assms(1,2) [unfolded t]] by simp
qed

section \<open>Lemmas: the walk\<close>

lemma nth_ptr_end [simp]: "nth_ptr t (size t) = None"
  by (simp add: nth_ptr_def)

lemma size_pos_iff [simp]: "(0 < size t) = (t \<noteq> Tip)"
  by (cases t) simp_all

lemma nth_ptr_first: "t \<noteq> Tip \<Longrightarrow> first_addr t = nth_ptr t 0"
  using first_addr_hd [of t] by (simp add: nth_ptr_def hd_conv_nth)

lemma nth_ptr_last: "t \<noteq> Tip \<Longrightarrow> last_addr t = nth_ptr t (size t - 1)"
  using last_addr_last [of t] by (simp add: nth_ptr_def last_conv_nth)

lemma walk_loop_refines:
  assumes "tree_at (heap s) None t" and "distinct (addrs t)" and "i \<le> size t"
  shows "walk_loop s p (nth_ptr t i) cnt seen =
    Some (cnt + of_nat (length (visited p (drop i (entries t)))),
          seen @ visited p (drop i (entries t)))"
  using assms(3)
proof (induction "size t - i" arbitrary: i cnt seen)
  case 0
  then have "nth_ptr t i = None" "drop i (entries t) = []" by (simp_all add: nth_ptr_def)
  then show ?case by (subst walk_loop.simps) simp
next
  case (Suc d)
  then have i: "i < size t" by simp
  from tree_at_key [OF assms(1) i] obtain n where
    n: "heap s (addrs t ! i) = Some n" "(key n, datum n) = entries t ! i" by auto
  have e: "drop i (entries t) = (key n, datum n) # drop (Suc i) (entries t)"
    using i n(2) by (simp add: Cons_nth_drop_Suc)
  have "walk_loop s p (nth_ptr t (Suc i)) (cnt + 1) (seen @ [(key n, datum n)]) =
      Some (cnt + 1 + of_nat (length (visited p (drop (Suc i) (entries t)))),
            (seen @ [(key n, datum n)]) @ visited p (drop (Suc i) (entries t)))"
    using Suc.hyps(2) i by (intro Suc.hyps(1)) simp_all
  with n(1) node_next_refines [OF assms(1,2) i] i show ?case
    by (subst walk_loop.simps) (simp add: e nth_ptr_def)
qed

lemma pr_tree_walk_refines:
  assumes "repr s t"
  shows "pr_tree_walk s p = Some (of_nat (length (visited p (entries t))), visited p (entries t))"
proof (cases "t = Tip")
  case True
  with assms show ?thesis by (simp add: pr_tree_walk_def)
next
  case False
  then obtain a where a: "rootp t = Some a" by (cases t) auto
  from assms have r: "tree_at (heap s) None t" "distinct (addrs t)" "root s = rootp t"
    by (simp_all add: repr_def)
  from node_min_refines [OF r(1) a] False have "node_min s a = Some (addrs t ! 0)"
    by (simp add: nth_ptr_first nth_ptr_def)
  moreover from False have "nth_ptr t 0 = Some (addrs t ! 0)" by (simp add: nth_ptr_def)
  ultimately show ?thesis
    using walk_loop_refines [OF r(1,2), of 0 p 0 "[]"] r(3) a by (simp add: pr_tree_walk_def)
qed

lemma length_visited: "length (visited p xs) \<le> length xs"
  by (induction xs) simp_all

lemma visited_all: "\<forall>x\<in>set xs. p (fst x) (snd x) \<Longrightarrow> visited p xs = xs"
  by (induction xs) simp_all

section \<open>Properties\<close>

text \<open>
  C14 (functional): \<^verbatim>\<open>node_next\<close>. In a represented tree the successor of the
  node with in-order index \<open>i\<close> is the node with index \<open>i + 1\<close>, and \<^verbatim>\<open>NULL\<close> for
  the last node; both loops of \<^verbatim>\<open>node_next\<close> terminate.
\<close>

theorem node_next_correct:
  assumes "repr s t" and "i < size t"
  shows "node_next s (addrs t ! i) = Some (nth_ptr t (Suc i))"
  using assms by (intro node_next_refines) (simp_all add: repr_def)

theorem node_next_correct_witness:
  "node_next ex_state 1 = Some (Some 0) \<and> node_next ex_state 0 = Some (Some 2)
   \<and> node_next ex_state 2 = Some None"
  using node_next_correct [OF repr_ex_state, of 0] node_next_correct [OF repr_ex_state, of 1]
    node_next_correct [OF repr_ex_state, of 2]
  by (simp add: ex_tree_def nth_ptr_def)

text \<open>
  C22 (functional): \<^verbatim>\<open>node_prev\<close>. In a represented tree the predecessor of the
  node with in-order index \<open>i\<close> is the node with index \<open>i - 1\<close>, and \<^verbatim>\<open>NULL\<close> for
  the first node.
\<close>

theorem node_prev_correct:
  assumes "repr s t" and "i < size t"
  shows "node_prev s (addrs t ! i) = Some (if i = 0 then None else nth_ptr t (i - 1))"
  using assms by (intro node_prev_refines) (simp_all add: repr_def)

theorem node_prev_correct_witness:
  "node_prev ex_state 1 = Some None \<and> node_prev ex_state 0 = Some (Some 1)
   \<and> node_prev ex_state 2 = Some (Some 0)"
  using node_prev_correct [OF repr_ex_state, of 0] node_prev_correct [OF repr_ex_state, of 1]
    node_prev_correct [OF repr_ex_state, of 2]
  by (simp add: ex_tree_def nth_ptr_def)

text \<open>
  C13 (functional): \<^verbatim>\<open>pr_tree_walk\<close>. On a represented tree the walk returns; the
  callback is called on the entries in in-order sequence, up to and including
  the first entry it rejects, and the result is the number of calls (modulo
  \<open>2 ^ 32\<close>).
\<close>

theorem pr_tree_walk_correct:
  assumes "repr s t"
  shows "pr_tree_walk s p = Some (of_nat (length (visited p (entries t))), visited p (entries t))"
  using assms by (rule pr_tree_walk_refines)

theorem pr_tree_walk_correct_witness:
  "pr_tree_walk ex_state (\<lambda>k v. k < 20) = Some (2, [(10, 1), (20, 2)])
   \<and> pr_tree_walk ex_state (\<lambda>k v. True) = Some (3, [(10, 1), (20, 2), (30, 3)])"
  using pr_tree_walk_correct [OF repr_ex_state, of "\<lambda>k v. k < 20"]
    pr_tree_walk_correct [OF repr_ex_state, of "\<lambda>k v. True"]
  by (simp add: ex_tree_def)

end
