(* ===== verification/PR_Itor.thy ===== *)
theory PR_Itor
  imports PR_Walk
begin

text \<open>
  The cursor of \<^verbatim>\<open>pr_tree.c\<close>: \<^verbatim>\<open>struct pr_itor\<close> and the functions
  \<^verbatim>\<open>pr_itor_*\<close>. A cursor holds a pointer to its tree and a pointer to the
  current node, \<^verbatim>\<open>NULL\<close> when it is unbound. In the model the tree is the state
  the operation is applied to, so the record has the field \<open>node\<close> only. Every
  function returns its C result beside the updated cursor; \<^verbatim>\<open>RETVALID\<close> is the
  integer 1 or 0.

  The positions of a cursor are the indices \<open>0 \<dots> size t\<close> of the in-order list,
  \<open>size t\<close> standing for the unbound cursor (\<open>nth_ptr t (size t) = None\<close>); the
  lemmas describe every movement as a function on indices. The operations are
  then collected into the dispatch table \<^verbatim>\<open>pr_tree_itor_vtable\<close>, a function
  from operation names to cursor functions, and the runs of that machine are an
  inductive relation.
\<close>

section \<open>The cursor and its functions\<close>

record pr_itor =
  node :: ptr

definition RETVALID :: "pr_itor \<Rightarrow> int" where
  "RETVALID it = (if node it \<noteq> None then 1 else 0)"

definition pr_itor_valid :: "pr_itor \<Rightarrow> int" where
  "pr_itor_valid it = RETVALID it"

definition pr_itor_invalidate :: "pr_itor \<Rightarrow> pr_itor" where
  "pr_itor_invalidate it = it\<lparr>node := None\<rparr>"

definition pr_itor_first :: "('k, 'v) pr_state \<Rightarrow> pr_itor \<Rightarrow> (int \<times> pr_itor) option" where
  "pr_itor_first s it = do {
     it' \<leftarrow> (case root s of
              None \<Rightarrow> Some (it\<lparr>node := None\<rparr>)
            | Some r \<Rightarrow> do { m \<leftarrow> node_min s r; Some (it\<lparr>node := Some m\<rparr>) });
     Some (RETVALID it', it') }"

definition pr_itor_last :: "('k, 'v) pr_state \<Rightarrow> pr_itor \<Rightarrow> (int \<times> pr_itor) option" where
  "pr_itor_last s it = do {
     it' \<leftarrow> (case root s of
              None \<Rightarrow> Some (it\<lparr>node := None\<rparr>)
            | Some r \<Rightarrow> do { m \<leftarrow> node_max s r; Some (it\<lparr>node := Some m\<rparr>) });
     Some (RETVALID it', it') }"

definition pr_itor_next :: "('k, 'v) pr_state \<Rightarrow> pr_itor \<Rightarrow> (int \<times> pr_itor) option" where
  "pr_itor_next s it = do {
     it' \<leftarrow> (case node it of
              None \<Rightarrow> map_option snd (pr_itor_first s it)
            | Some a \<Rightarrow> do { nx \<leftarrow> node_next s a; Some (it\<lparr>node := nx\<rparr>) });
     Some (RETVALID it', it') }"

definition pr_itor_prev :: "('k, 'v) pr_state \<Rightarrow> pr_itor \<Rightarrow> (int \<times> pr_itor) option" where
  "pr_itor_prev s it = do {
     it' \<leftarrow> (case node it of
              None \<Rightarrow> map_option snd (pr_itor_last s it)
            | Some a \<Rightarrow> do { nx \<leftarrow> node_prev s a; Some (it\<lparr>node := nx\<rparr>) });
     Some (RETVALID it', it') }"

text \<open>
  The loop \<^verbatim>\<open>while (count-- && itor->node)\<close> of \<^verbatim>\<open>pr_itor_nextn\<close> and
  \<^verbatim>\<open>pr_itor_prevn\<close>, with the stepping function as a parameter. The counter is
  an \<^verbatim>\<open>unsigned\<close>; the loop ends because it decreases.
\<close>

function stepn_loop ::
  "(addr \<Rightarrow> ptr option) \<Rightarrow> pr_itor \<Rightarrow> count_t \<Rightarrow> pr_itor option" where
  "stepn_loop step it c =
     (if c = 0 then Some it
      else case node it of
             None \<Rightarrow> Some it
           | Some a \<Rightarrow> (case step a of
                          None \<Rightarrow> None
                        | Some nx \<Rightarrow> stepn_loop step (it\<lparr>node := nx\<rparr>) (c - 1)))"
  by pat_completeness auto

termination
  by (relation "measure (\<lambda>(step, it, c). unat c)") (auto simp: unat_pred_less)

declare stepn_loop.simps [simp del]

definition pr_itor_nextn ::
  "('k, 'v) pr_state \<Rightarrow> pr_itor \<Rightarrow> count_t \<Rightarrow> (int \<times> pr_itor) option" where
  "pr_itor_nextn s it cnt = do {
     it' \<leftarrow> (if cnt \<noteq> 0 then do {
               (it1, c1) \<leftarrow> (if node it = None
                              then do { (r, i) \<leftarrow> pr_itor_first s it; Some (i, cnt - 1) }
                              else Some (it, cnt));
               stepn_loop (node_next s) it1 c1 }
             else Some it);
     Some (RETVALID it', it') }"

definition pr_itor_prevn ::
  "('k, 'v) pr_state \<Rightarrow> pr_itor \<Rightarrow> count_t \<Rightarrow> (int \<times> pr_itor) option" where
  "pr_itor_prevn s it cnt = do {
     it' \<leftarrow> (if cnt \<noteq> 0 then do {
               (it1, c1) \<leftarrow> (if node it = None
                              then do { (r, i) \<leftarrow> pr_itor_last s it; Some (i, cnt - 1) }
                              else Some (it, cnt));
               stepn_loop (node_prev s) it1 c1 }
             else Some it);
     Some (RETVALID it', it') }"

text \<open>The descent of \<^verbatim>\<open>pr_itor_search\<close>; it returns the node, not the datum.\<close>

partial_function (option) search_node :: "('k, 'v) pr_state \<Rightarrow> 'k \<Rightarrow> ptr \<Rightarrow> ptr option" where
  "search_node s k p =
     (case p of
        None \<Rightarrow> Some None
      | Some a \<Rightarrow> do {
          n \<leftarrow> heap s a;
          if key_cmp s k (key n) < 0 then search_node s k (llink n)
          else if key_cmp s k (key n) > 0 then search_node s k (rlink n)
          else Some (Some a) })"

definition pr_itor_search ::
  "('k, 'v) pr_state \<Rightarrow> pr_itor \<Rightarrow> 'k \<Rightarrow> (int \<times> pr_itor) option" where
  "pr_itor_search s it k = do {
     p \<leftarrow> search_node s k (root s);
     Some (RETVALID (it\<lparr>node := p\<rparr>), it\<lparr>node := p\<rparr>) }"

definition pr_itor_key :: "('k, 'v) pr_state \<Rightarrow> pr_itor \<Rightarrow> 'k option option" where
  "pr_itor_key s it =
     (case node it of None \<Rightarrow> Some None | Some a \<Rightarrow> do { n \<leftarrow> heap s a; Some (Some (key n)) })"

definition pr_itor_data :: "('k, 'v) pr_state \<Rightarrow> pr_itor \<Rightarrow> 'v option option" where
  "pr_itor_data s it =
     (case node it of None \<Rightarrow> Some None | Some a \<Rightarrow> do { n \<leftarrow> heap s a; Some (Some (datum n)) })"

definition pr_itor_cdata :: "('k, 'v) pr_state \<Rightarrow> pr_itor \<Rightarrow> 'v option option" where
  "pr_itor_cdata s it =
     (case node it of None \<Rightarrow> Some None | Some a \<Rightarrow> do { n \<leftarrow> heap s a; Some (Some (datum n)) })"

text \<open>
  \<^verbatim>\<open>pr_itor_set_data\<close>: \<open>want_old\<close> says whether \<^verbatim>\<open>old_datum\<close> is non-null; the
  second result is what is stored through it. The old datum is not handed to
  the deleter.
\<close>

definition pr_itor_set_data ::
  "('k, 'v) pr_state \<Rightarrow> pr_itor \<Rightarrow> 'v \<Rightarrow> bool \<Rightarrow> (int \<times> 'v option \<times> ('k, 'v) pr_state) option" where
  "pr_itor_set_data s it d want_old =
     (case node it of
        None \<Rightarrow> Some (- 1, None, s)
      | Some a \<Rightarrow> do {
          n \<leftarrow> heap s a;
          s' \<leftarrow> node_upd a (\<lambda>x. x\<lparr>datum := d\<rparr>) s;
          Some (0, if want_old then Some (datum n) else None, s') })"

text \<open>
  \<^verbatim>\<open>pr_itor_new\<close>: \<open>mem\<close> says whether \<^verbatim>\<open>MALLOC\<close> succeeds and \<open>junk\<close> is the
  content of the fresh, uninitialised \<^verbatim>\<open>node\<close> field; the result \<open>None\<close> is
  \<^verbatim>\<open>NULL\<close>. \<^verbatim>\<open>pr_itor_destroy\<close> frees the cursor: no cursor is left.
\<close>

definition pr_itor_new :: "('k, 'v) pr_state \<Rightarrow> bool \<Rightarrow> ptr \<Rightarrow> pr_itor option option" where
  "pr_itor_new s mem junk =
     (if \<not> mem then Some None
      else do { (r, it) \<leftarrow> pr_itor_first s \<lparr>node = junk\<rparr>; Some (Some it) })"

definition pr_itor_destroy :: "pr_itor \<Rightarrow> pr_itor option" where
  "pr_itor_destroy it = None"

section \<open>The dispatch table and the cursor machine\<close>

text \<open>
  \<^verbatim>\<open>pr_tree_itor_vtable\<close> has one slot per cursor operation of the generic
  dictionary; the slots \<^verbatim>\<open>iremove\<close> and \<^verbatim>\<open>compare\<close> hold \<^verbatim>\<open>NULL\<close>. An operation
  name carries the arguments of the call; the results of the different
  functions are injected into one type.
\<close>

datatype ('k, 'v) itor_op =
  Op_destroy | Op_valid | Op_invalidate | Op_next | Op_prev | Op_nextn count_t | Op_prevn count_t
| Op_first | Op_last | Op_key | Op_data | Op_cdata | Op_dataset 'v bool | Op_iremove | Op_compare

datatype ('k, 'v) itor_res =
  R_void | R_int int | R_key "'k option" | R_datum "'v option" | R_old int "'v option"

type_synonym ('k, 'v) itor_fun =
  "('k, 'v) pr_state \<Rightarrow> pr_itor \<Rightarrow> (('k, 'v) itor_res \<times> ('k, 'v) pr_state \<times> pr_itor option) option"

definition moved :: "('k, 'v) pr_state \<Rightarrow> (int \<times> pr_itor) option
    \<Rightarrow> (('k, 'v) itor_res \<times> ('k, 'v) pr_state \<times> pr_itor option) option" where
  "moved s m = map_option (\<lambda>(r, it). (R_int r, s, Some it)) m"

definition pr_tree_itor_vtable :: "('k, 'v) itor_op \<Rightarrow> ('k, 'v) itor_fun option" where
  "pr_tree_itor_vtable op =
     (case op of
        Op_destroy \<Rightarrow> Some (\<lambda>s it. Some (R_void, s, pr_itor_destroy it))
      | Op_valid \<Rightarrow> Some (\<lambda>s it. Some (R_int (pr_itor_valid it), s, Some it))
      | Op_invalidate \<Rightarrow> Some (\<lambda>s it. Some (R_void, s, Some (pr_itor_invalidate it)))
      | Op_next \<Rightarrow> Some (\<lambda>s it. moved s (pr_itor_next s it))
      | Op_prev \<Rightarrow> Some (\<lambda>s it. moved s (pr_itor_prev s it))
      | Op_nextn c \<Rightarrow> Some (\<lambda>s it. moved s (pr_itor_nextn s it c))
      | Op_prevn c \<Rightarrow> Some (\<lambda>s it. moved s (pr_itor_prevn s it c))
      | Op_first \<Rightarrow> Some (\<lambda>s it. moved s (pr_itor_first s it))
      | Op_last \<Rightarrow> Some (\<lambda>s it. moved s (pr_itor_last s it))
      | Op_key \<Rightarrow> Some (\<lambda>s it. map_option (\<lambda>k. (R_key k, s, Some it)) (pr_itor_key s it))
      | Op_data \<Rightarrow> Some (\<lambda>s it. map_option (\<lambda>d. (R_datum d, s, Some it)) (pr_itor_data s it))
      | Op_cdata \<Rightarrow> Some (\<lambda>s it. map_option (\<lambda>d. (R_datum d, s, Some it)) (pr_itor_cdata s it))
      | Op_dataset d o_p \<Rightarrow>
          Some (\<lambda>s it. map_option (\<lambda>(r, old, s'). (R_old r old, s', Some it))
                         (pr_itor_set_data s it d o_p))
      | Op_iremove \<Rightarrow> None
      | Op_compare \<Rightarrow> None)"

text \<open>
  A call through the table, as the generic cursor makes it: calling an empty
  slot has no defined result.
\<close>

definition itor_call :: "('k, 'v) itor_op \<Rightarrow> ('k, 'v) itor_fun" where
  "itor_call op s it = (case pr_tree_itor_vtable op of None \<Rightarrow> None | Some f \<Rightarrow> f s it)"

text \<open>The states a live cursor and its tree can reach by calls through the table.\<close>

inductive itor_reach ::
  "('k, 'v) pr_state \<Rightarrow> pr_itor \<Rightarrow> ('k, 'v) pr_state \<Rightarrow> pr_itor \<Rightarrow> bool"
  for s0 :: "('k, 'v) pr_state" and it0 :: pr_itor where
  start: "itor_reach s0 it0 s0 it0"
| step: "itor_reach s0 it0 s it \<Longrightarrow> itor_call op s it = Some (r, s', Some it')
         \<Longrightarrow> itor_reach s0 it0 s' it'"

text \<open>A cursor is well-formed for a tree when it is unbound or points at one of its nodes.\<close>

definition itor_ok :: "('k, 'v) ltree \<Rightarrow> pr_itor \<Rightarrow> bool" where
  "itor_ok t it = (case node it of None \<Rightarrow> True | Some a \<Rightarrow> a \<in> set (addrs t))"

text \<open>
  Reading a tree through a cursor: key and datum at the current node, then
  \<^verbatim>\<open>pr_itor_next\<close>, until the cursor is unbound. \<open>fuel\<close> bounds the number of
  steps.
\<close>

fun itor_collect ::
  "nat \<Rightarrow> ('k, 'v) pr_state \<Rightarrow> pr_itor \<Rightarrow> ('k \<times> 'v) list option" where
  "itor_collect fuel s it =
     (if node it = None then Some []
      else case fuel of
             0 \<Rightarrow> None
           | Suc f \<Rightarrow> do {
               k \<leftarrow> pr_itor_key s it;
               d \<leftarrow> pr_itor_data s it;
               (r, it') \<leftarrow> pr_itor_next s it;
               rest \<leftarrow> itor_collect f s it';
               Some ((the k, the d) # rest) })"

declare itor_collect.simps [simp del]

section \<open>Positions\<close>

text \<open>
  The movements on positions \<open>0 \<dots> n\<close> of a list of length \<open>n\<close>, position \<open>n\<close>
  being the unbound cursor.
\<close>

definition next_pos :: "nat \<Rightarrow> nat \<Rightarrow> nat" where
  "next_pos n i = (if i < n then Suc i else 0)"

definition prev_pos :: "nat \<Rightarrow> nat \<Rightarrow> nat" where
  "prev_pos n i = (if i < n then (if i = 0 then n else i - 1) else n - 1)"

definition back_pos :: "nat \<Rightarrow> nat \<Rightarrow> nat \<Rightarrow> nat" where
  "back_pos n i c = (if i < n \<and> c \<le> i then i - c else n)"

definition nextn_pos :: "nat \<Rightarrow> nat \<Rightarrow> nat \<Rightarrow> nat" where
  "nextn_pos n i c = (if c = 0 then i else if i < n then i + c else c - 1)"

definition prevn_pos :: "nat \<Rightarrow> nat \<Rightarrow> nat \<Rightarrow> nat" where
  "prevn_pos n i c = (if c = 0 then i else if i < n then back_pos n i c else back_pos n (n - 1) (c - 1))"

fun lookup_addr :: "('k \<Rightarrow> 'k \<Rightarrow> int) \<Rightarrow> 'k \<Rightarrow> ('k, 'v) ltree \<Rightarrow> ptr" where
  "lookup_addr c k Tip = None"
| "lookup_addr c k (Nd l a x v w r) =
     (if c k x < 0 then lookup_addr c k l else if c k x > 0 then lookup_addr c k r else Some a)"

section \<open>The cursor over a list\<close>

text \<open>
  The specification of the cursor machine: a cursor over a list of entries is
  a position \<open>i \<le> length es\<close>, and every operation of the dispatch table is a
  function on positions; \<^verbatim>\<open>set_data\<close> replaces the datum at the position. The
  cursor is gone (\<open>None\<close>) after \<^verbatim>\<open>destroy\<close>.
\<close>

definition goto :: "('k \<times> 'v) list \<Rightarrow> nat
    \<Rightarrow> (('k, 'v) itor_res \<times> ('k \<times> 'v) list \<times> nat option) option" where
  "goto es j = Some (R_int (if j < length es then 1 else 0), es, Some (min j (length es)))"

definition abs_call :: "('k, 'v) itor_op \<Rightarrow> ('k \<times> 'v) list \<Rightarrow> nat
    \<Rightarrow> (('k, 'v) itor_res \<times> ('k \<times> 'v) list \<times> nat option) option" where
  "abs_call op es i =
     (case op of
        Op_destroy \<Rightarrow> Some (R_void, es, None)
      | Op_valid \<Rightarrow> Some (R_int (if i < length es then 1 else 0), es, Some i)
      | Op_invalidate \<Rightarrow> Some (R_void, es, Some (length es))
      | Op_next \<Rightarrow> goto es (next_pos (length es) i)
      | Op_prev \<Rightarrow> goto es (prev_pos (length es) i)
      | Op_nextn c \<Rightarrow> goto es (nextn_pos (length es) i (unat c))
      | Op_prevn c \<Rightarrow> goto es (prevn_pos (length es) i (unat c))
      | Op_first \<Rightarrow> goto es 0
      | Op_last \<Rightarrow> goto es (length es - 1)
      | Op_key \<Rightarrow> Some (R_key (if i < length es then Some (fst (es ! i)) else None), es, Some i)
      | Op_data \<Rightarrow> Some (R_datum (if i < length es then Some (snd (es ! i)) else None), es, Some i)
      | Op_cdata \<Rightarrow> Some (R_datum (if i < length es then Some (snd (es ! i)) else None), es, Some i)
      | Op_dataset d o_p \<Rightarrow>
          (if i < length es
           then Some (R_old 0 (if o_p then Some (snd (es ! i)) else None),
                      es[i := (fst (es ! i), d)], Some i)
           else Some (R_old (- 1) None, es, Some i))
      | Op_iremove \<Rightarrow> None
      | Op_compare \<Rightarrow> None)"

text \<open>The cursor \<open>c\<close> (if it still exists) stands at position \<open>p\<close> of tree \<open>t\<close>.\<close>

definition cur_rel :: "('k, 'v) ltree \<Rightarrow> pr_itor option \<Rightarrow> nat option \<Rightarrow> bool" where
  "cur_rel t c p =
     (case p of
        None \<Rightarrow> c = None
      | Some j \<Rightarrow> j \<le> size t \<and> (case c of None \<Rightarrow> False | Some it \<Rightarrow> node it = nth_ptr t j))"

text \<open>
  The invariant of the cursor machine started on tree \<open>t0\<close>: the state still
  satisfies the tree invariant for a tree with the nodes and keys of \<open>t0\<close> in
  the same order, and the cursor is well-formed for it.
\<close>

definition itor_inv :: "('k, 'v) ltree \<Rightarrow> ('k, 'v) pr_state \<Rightarrow> pr_itor \<Rightarrow> bool" where
  "itor_inv t0 s it \<longleftrightarrow>
     (\<exists>t. pr_inv s t \<and> addrs t = addrs t0 \<and> map fst (entries t) = map fst (entries t0)
        \<and> itor_ok t it)"

section \<open>Lemmas: movements\<close>

lemma nth_ptr_beyond [simp]: "size t \<le> i \<Longrightarrow> nth_ptr t i = None"
  by (simp add: nth_ptr_def)

lemma nth_ptr_None_iff: "(nth_ptr t i = None) = (size t \<le> i)"
  by (auto simp: nth_ptr_def)

lemma nth_ptr_Some: "i < size t \<Longrightarrow> nth_ptr t i = Some (addrs t ! i)"
  by (simp add: nth_ptr_def)

lemma itor_same [simp]: "node it = p \<Longrightarrow> it\<lparr>node := p\<rparr> = it"
  by (cases it) simp

lemma pr_itor_first_refines:
  assumes "repr s t"
  shows "pr_itor_first s it = Some (if 0 < size t then 1 else 0, it\<lparr>node := nth_ptr t 0\<rparr>)"
proof (cases "t = Tip")
  case True
  with assms show ?thesis by (simp add: pr_itor_first_def RETVALID_def)
next
  case False
  then obtain a where a: "rootp t = Some a" by (cases t) auto
  from assms have r: "tree_at (heap s) None t" "root s = rootp t" by (simp_all add: repr_def)
  from node_min_refines [OF r(1) a] False a r(2) show ?thesis
    by (simp add: pr_itor_first_def RETVALID_def nth_ptr_first nth_ptr_def)
qed

lemma pr_itor_last_refines:
  assumes "repr s t"
  shows "pr_itor_last s it =
    Some (if size t - 1 < size t then 1 else 0, it\<lparr>node := nth_ptr t (size t - 1)\<rparr>)"
proof (cases "t = Tip")
  case True
  with assms show ?thesis by (simp add: pr_itor_last_def RETVALID_def)
next
  case False
  then obtain a where a: "rootp t = Some a" by (cases t) auto
  from assms have r: "tree_at (heap s) None t" "root s = rootp t" by (simp_all add: repr_def)
  from node_max_refines [OF r(1) a] False a r(2) show ?thesis
    by (simp add: pr_itor_last_def RETVALID_def nth_ptr_last nth_ptr_def)
qed

lemma pr_itor_next_refines:
  assumes "repr s t" and "node it = nth_ptr t i"
  shows "pr_itor_next s it =
    Some (if next_pos (size t) i < size t then 1 else 0, it\<lparr>node := nth_ptr t (next_pos (size t) i)\<rparr>)"
proof (cases "i < size t")
  case True
  from assms(1) have "tree_at (heap s) None t" "distinct (addrs t)" by (simp_all add: repr_def)
  from node_next_refines [OF this True] True assms(2) show ?thesis
    by (simp add: pr_itor_next_def RETVALID_def next_pos_def nth_ptr_def)
next
  case False
  with assms(2) pr_itor_first_refines [OF assms(1), of it] show ?thesis
    by (simp add: pr_itor_next_def RETVALID_def next_pos_def nth_ptr_def)
qed

lemma pr_itor_prev_refines:
  assumes "repr s t" and "node it = nth_ptr t i"
  shows "pr_itor_prev s it =
    Some (if prev_pos (size t) i < size t then 1 else 0, it\<lparr>node := nth_ptr t (prev_pos (size t) i)\<rparr>)"
proof (cases "i < size t")
  case True
  from assms(1) have "tree_at (heap s) None t" "distinct (addrs t)" by (simp_all add: repr_def)
  from node_prev_refines [OF this True] True assms(2) show ?thesis
    by (auto simp: pr_itor_prev_def RETVALID_def prev_pos_def nth_ptr_def)
next
  case False
  with assms(2) pr_itor_last_refines [OF assms(1), of it] show ?thesis
    by (auto simp: pr_itor_prev_def RETVALID_def prev_pos_def nth_ptr_def)
qed

lemma stepn_next:
  assumes "repr s t"
  shows "node it = nth_ptr t i \<Longrightarrow>
    stepn_loop (node_next s) it c = Some (it\<lparr>node := nth_ptr t (i + unat c)\<rparr>)"
proof (induction "unat c" arbitrary: c i it)
  case 0
  then show ?case by (subst stepn_loop.simps) (simp add: unat_eq_0)
next
  case (Suc n)
  from Suc.hyps(2) have "c \<noteq> 0" by auto
  with Suc.hyps(2) have c: "c \<noteq> 0" "n = unat (c - 1)" using unat_pred [of c] by simp_all
  from assms have r: "tree_at (heap s) None t" "distinct (addrs t)" by (simp_all add: repr_def)
  show ?case
  proof (cases "i < size t")
    case True
    have "stepn_loop (node_next s) (it\<lparr>node := nth_ptr t (Suc i)\<rparr>) (c - 1) =
        Some (it\<lparr>node := nth_ptr t (Suc i), node := nth_ptr t (Suc i + unat (c - 1))\<rparr>)"
      by (rule Suc.hyps(1) [OF c(2)]) simp
    with node_next_refines [OF r True] True Suc.prems c(1) Suc.hyps(2) show ?thesis
      by (subst stepn_loop.simps) (simp add: nth_ptr_def unat_pred)
  next
    case False
    with Suc.prems show ?thesis by (subst stepn_loop.simps) simp
  qed
qed

lemma back_pos_step:
  "i < n \<Longrightarrow> (if c = 0 then (if i = 0 then n else i - 1)
                else back_pos n (if i = 0 then n else i - 1) c) = back_pos n i (Suc c)"
  by (auto simp: back_pos_def)

lemma stepn_prev:
  assumes "repr s t"
  shows "node it = nth_ptr t i \<Longrightarrow> i \<le> size t \<Longrightarrow>
    stepn_loop (node_prev s) it c =
      Some (it\<lparr>node := nth_ptr t (if unat c = 0 then i else back_pos (size t) i (unat c))\<rparr>)"
proof (induction "unat c" arbitrary: c i it)
  case 0
  then show ?case by (subst stepn_loop.simps) (simp add: unat_eq_0)
next
  case (Suc n)
  from Suc.hyps(2) have "c \<noteq> 0" by auto
  with Suc.hyps(2) have c: "c \<noteq> 0" "n = unat (c - 1)" using unat_pred [of c] by simp_all
  from assms have r: "tree_at (heap s) None t" "distinct (addrs t)" by (simp_all add: repr_def)
  show ?case
  proof (cases "i < size t")
    case True
    let ?j = "if i = 0 then size t else i - 1"
    have "stepn_loop (node_prev s) (it\<lparr>node := nth_ptr t ?j\<rparr>) (c - 1) =
        Some (it\<lparr>node := nth_ptr t ?j, node := nth_ptr t
          (if unat (c - 1) = 0 then ?j else back_pos (size t) ?j (unat (c - 1)))\<rparr>)"
      using True by (intro Suc.hyps(1) [OF c(2)]) auto
    then have "stepn_loop (node_prev s) (it\<lparr>node := nth_ptr t ?j\<rparr>) (c - 1) =
        Some (it\<lparr>node := nth_ptr t (back_pos (size t) i (unat c))\<rparr>)"
      by (simp only: c(2) [symmetric] Suc.hyps(2) [symmetric] back_pos_step [OF True])
        simp
    moreover have "node_prev s (addrs t ! i) = Some (nth_ptr t ?j)"
      using node_prev_refines [OF r True] by simp
    ultimately show ?thesis using True Suc.prems c(1) Suc.hyps(2) [symmetric]
      by (subst stepn_loop.simps) (simp add: nth_ptr_Some)
  next
    case False
    with Suc.prems Suc.hyps(2) [symmetric] show ?thesis
      by (subst stepn_loop.simps) (simp add: back_pos_def)
  qed
qed

lemma pr_itor_nextn_refines:
  assumes "repr s t" and "node it = nth_ptr t i" and "i \<le> size t"
  shows "pr_itor_nextn s it c =
    Some (if nextn_pos (size t) i (unat c) < size t then 1 else 0,
          it\<lparr>node := nth_ptr t (nextn_pos (size t) i (unat c))\<rparr>)"
proof -
  consider (zero) "c = 0" | (bound) "c \<noteq> 0" "i < size t" | (unbound) "c \<noteq> 0" "i = size t"
    using assms(3) by fastforce
  then show ?thesis
  proof cases
    case zero
    with assms(2) show ?thesis
      by (simp add: pr_itor_nextn_def nextn_pos_def RETVALID_def nth_ptr_None_iff)
  next
    case bound
    with assms(2) stepn_next [OF assms(1,2), of c] show ?thesis
      by (simp add: pr_itor_nextn_def nextn_pos_def RETVALID_def nth_ptr_None_iff unat_eq_0
          nth_ptr_Some)
  next
    case unbound
    have "stepn_loop (node_next s) (it\<lparr>node := nth_ptr t 0\<rparr>) (c - 1) =
        Some (it\<lparr>node := nth_ptr t 0, node := nth_ptr t (0 + unat (c - 1))\<rparr>)"
      by (rule stepn_next [OF assms(1)]) simp
    with unbound assms(2) pr_itor_first_refines [OF assms(1), of it] show ?thesis
      by (simp add: pr_itor_nextn_def nextn_pos_def RETVALID_def nth_ptr_None_iff unat_eq_0
          unat_pred)
  qed
qed

lemma pr_itor_prevn_refines:
  assumes "repr s t" and "node it = nth_ptr t i" and "i \<le> size t"
  shows "pr_itor_prevn s it c =
    Some (if prevn_pos (size t) i (unat c) < size t then 1 else 0,
          it\<lparr>node := nth_ptr t (prevn_pos (size t) i (unat c))\<rparr>)"
proof -
  consider (zero) "c = 0" | (bound) "c \<noteq> 0" "i < size t" | (unbound) "c \<noteq> 0" "i = size t"
    using assms(3) by fastforce
  then show ?thesis
  proof cases
    case zero
    with assms(2) show ?thesis
      by (simp add: pr_itor_prevn_def prevn_pos_def RETVALID_def nth_ptr_None_iff)
  next
    case bound
    with assms(2) stepn_prev [OF assms(1,2,3), of c] show ?thesis
      by (simp add: pr_itor_prevn_def prevn_pos_def RETVALID_def nth_ptr_None_iff unat_eq_0
          nth_ptr_Some)
  next
    case unbound
    have "stepn_loop (node_prev s) (it\<lparr>node := nth_ptr t (size t - 1)\<rparr>) (c - 1) =
        Some (it\<lparr>node := nth_ptr t (size t - 1), node := nth_ptr t
          (if unat (c - 1) = 0 then size t - 1 else back_pos (size t) (size t - 1) (unat (c - 1)))\<rparr>)"
      by (rule stepn_prev [OF assms(1)]) simp_all
    moreover have "nth_ptr t (if unat (c - 1) = 0 then size t - 1
        else back_pos (size t) (size t - 1) (unat (c - 1)))
      = nth_ptr t (back_pos (size t) (size t - 1) (unat (c - 1)))"
      by (auto simp: back_pos_def nth_ptr_def)
    ultimately show ?thesis
      using unbound assms(2) pr_itor_last_refines [OF assms(1), of it]
      by (simp add: pr_itor_prevn_def prevn_pos_def RETVALID_def nth_ptr_None_iff unat_eq_0
          unat_pred)
  qed
qed

section \<open>Lemmas: search, access and update\<close>

lemma search_node_refines:
  "tree_at (heap s) par t \<Longrightarrow> search_node s k (rootp t) = Some (lookup_addr (key_cmp s) k t)"
proof (induction t arbitrary: par)
  case Tip
  show ?case by (subst search_node.simps) simp
next
  case (Nd l a x v w r)
  from Nd.prems have "tree_at (heap s) (Some a) l" "tree_at (heap s) (Some a) r" by simp_all
  from Nd.IH(1) [OF this(1)] Nd.IH(2) [OF this(2)] Nd.prems
  show ?case by (subst search_node.simps) simp
qed

text \<open>The node the descent returns holds an equal key, and the datum \<open>lookup\<close> finds.\<close>

lemma lookup_addr_None: "lookup_addr c k t = None \<Longrightarrow> lookup c k t = None"
  by (induction t) (auto split: if_splits)

lemma lookup_addr_Some:
  "lookup_addr c k t = Some a \<Longrightarrow>
   \<exists>i. i < size t \<and> a = addrs t ! i \<and> c k (fst (entries t ! i)) = 0
     \<and> lookup c k t = Some (snd (entries t ! i))"
proof (induction t)
  case (Nd l b x v w r)
  consider (lt) "c k x < 0" | (gt) "\<not> c k x < 0" "c k x > 0" | (eq) "\<not> c k x < 0" "\<not> c k x > 0"
    by blast
  then show ?case
  proof cases
    case lt
    with Nd obtain i where "i < size l" "a = addrs l ! i" "c k (fst (entries l ! i)) = 0"
      "lookup c k l = Some (snd (entries l ! i))" by auto
    with lt show ?thesis by (intro exI [of _ i]) (simp add: nth_append)
  next
    case gt
    with Nd obtain i where "i < size r" "a = addrs r ! i" "c k (fst (entries r ! i)) = 0"
      "lookup c k r = Some (snd (entries r ! i))" by auto
    with gt show ?thesis by (intro exI [of _ "size l + 1 + i"]) (simp add: nth_append)
  next
    case eq
    with Nd.prems show ?thesis by (intro exI [of _ "size l"]) (simp add: nth_append)
  qed
qed simp

lemma pr_itor_search_refines:
  assumes "repr s t"
  shows "pr_itor_search s it k =
    Some (if lookup_addr (key_cmp s) k t = None then 0 else 1,
          it\<lparr>node := lookup_addr (key_cmp s) k t\<rparr>)"
  using assms search_node_refines [of s None t k]
  by (simp add: pr_itor_search_def repr_def RETVALID_def)

lemma pr_itor_access:
  assumes "repr s t" and "node it = nth_ptr t i"
  shows "pr_itor_key s it = Some (if i < size t then Some (fst (entries t ! i)) else None)"
    and "pr_itor_data s it = Some (if i < size t then Some (snd (entries t ! i)) else None)"
    and "pr_itor_cdata s it = pr_itor_data s it"
proof -
  from assms(1) have r: "tree_at (heap s) None t" by (simp add: repr_def)
  show "pr_itor_cdata s it = pr_itor_data s it" by (simp add: pr_itor_cdata_def pr_itor_data_def)
  show "pr_itor_key s it = Some (if i < size t then Some (fst (entries t ! i)) else None)"
    using assms(2) tree_at_key [OF r, of i] by (auto simp: pr_itor_key_def nth_ptr_def)
  show "pr_itor_data s it = Some (if i < size t then Some (snd (entries t ! i)) else None)"
    using assms(2) tree_at_key [OF r, of i] by (auto simp: pr_itor_data_def nth_ptr_def)
qed

lemma length_epre [simp]: "length (epre c) = length (cpre c)"
  by (induction c rule: cpre.induct) simp_all

lemma map_fst_update_same: "i < length xs \<Longrightarrow> map fst (xs[i := (fst (xs ! i), d)]) = map fst xs"
  by (simp add: map_update list_update_same_conv)

lemma pr_itor_set_data_refines:
  fixes s :: "('k, 'v) pr_state"
  assumes "pr_inv s t" and "node it = nth_ptr t i" and "i < size t"
  shows "\<exists>s' t'. pr_itor_set_data s it d o_p =
        Some (0, if o_p then Some (snd (entries t ! i)) else None, s')
      \<and> pr_inv s' t' \<and> addrs t' = addrs t
      \<and> entries t' = (entries t)[i := (fst (entries t ! i), d)]
      \<and> key_cmp s' = key_cmp s \<and> del_func s' = del_func s \<and> freed s' = freed s"
proof -
  note I = pr_invD [OF assms(1)]
  from focus [OF assms(3)] obtain c l a k v w r where
    t: "t = plug c (Nd l a k v w r)" and i: "i = length (epre c @ entries l)" by auto
  let ?t' = "plug c (Nd l a k d w r)"
  let ?f = "\<lambda>x :: ('k, 'v) pr_node. x\<lparr>datum := d\<rparr>"
  have e: "entries t = (epre c @ entries l) @ (k, v) # (entries r @ epost c)" by (simp add: t)
  have y: "yields (node_upd a ?f s) s ?t'"
    by (rule yields_node_upd [OF I(1) [unfolded t]]) simp
  then obtain s' where s': "node_upd a ?f s = Some s'" by (rule yieldsE)
  note F = yields_fields [OF y s']
  have a: "node it = Some a" "heap s a = Some \<lparr>key = k, datum = v, parent = ctxp c,
      llink = rootp l, rlink = rootp r, weight = w\<rparr>"
    using assms(2,3) repr_plug_node [OF I(1) [unfolded t]] nth_ptr_split(1) [of t "cpre c @ addrs l" a]
    by (simp_all add: t i)
  have u: "entries ?t' = (entries t)[i := (fst (entries t ! i), d)]"
    unfolding e i by (simp only: list_update_length nth_append_length) simp
  have "pr_inv s' ?t'"
  proof (rule pr_invI [OF F(5)])
    show "wt_inv ?t'" using I(2) by (auto simp: t wt_inv_def wt_ok_plug size_plug)
    show "total_cmp (key_cmp s')" using I(3) by (simp add: F(2))
    show "sorted_by (key_cmp s') (entries ?t')" using I(4) by (simp add: F(2) t)
    show "count s' = of_nat (size ?t')" using I(5) by (simp add: F(1) t size_plug)
    show "dom (heap s') = set (addrs ?t')" using I(6) by (simp add: F(6) t)
  qed
  moreover have "pr_itor_set_data s it d o_p =
      Some (0, if o_p then Some (snd (entries t ! i)) else None, s')"
    using a s' by (simp add: pr_itor_set_data_def e i nth_append)
  ultimately show ?thesis using u F(2,3,4) by (auto simp: t)
qed

section \<open>Lemmas: the machine refines the cursor over a list\<close>

lemma nth_ptr_min [simp]: "nth_ptr t (min j (size t)) = nth_ptr t j"
  by (simp add: nth_ptr_def min_def)

lemma nth_ptr_addrs_cong: "addrs t' = addrs t \<Longrightarrow> nth_ptr t' = nth_ptr t"
  using length_addrs [of t] length_addrs [of t']
  by (simp add: nth_ptr_def fun_eq_iff del: length_addrs)

lemma itor_ok_pos: "itor_ok t it \<Longrightarrow> \<exists>i. i \<le> size t \<and> node it = nth_ptr t i"
proof (cases "node it")
  case None
  then show ?thesis by (intro exI [of _ "size t"]) simp
next
  case (Some a)
  assume "itor_ok t it"
  with Some obtain i where "i < size t" "addrs t ! i = a"
    by (auto simp: itor_ok_def in_set_conv_nth)
  with Some show ?thesis by (intro exI [of _ i]) (simp add: nth_ptr_def)
qed

lemma itor_ok_nth: "node it = nth_ptr t i \<Longrightarrow> itor_ok t it"
  by (simp add: itor_ok_def nth_ptr_def)

text \<open>The shape of a simulation step: what the concrete call must deliver.\<close>

definition sim_step ::
  "(('k, 'v) itor_res \<times> ('k, 'v) pr_state \<times> pr_itor option) option \<Rightarrow> ('k, 'v) pr_state
    \<Rightarrow> ('k, 'v) ltree \<Rightarrow> (('k, 'v) itor_res \<times> ('k \<times> 'v) list \<times> nat option) option \<Rightarrow> bool" where
  "sim_step m s t a =
     (case a of
        None \<Rightarrow> m = None
      | Some (r, es, p) \<Rightarrow>
          (\<exists>s' t' c. m = Some (r, s', c) \<and> pr_inv s' t' \<and> entries t' = es \<and> addrs t' = addrs t
             \<and> cur_rel t' c p \<and> key_cmp s' = key_cmp s \<and> del_func s' = del_func s
             \<and> freed s' = freed s))"

lemma sim_stepI:
  "m = Some (r, s', c) \<Longrightarrow> pr_inv s' t' \<Longrightarrow> entries t' = es \<Longrightarrow> addrs t' = addrs t \<Longrightarrow>
   cur_rel t' c p \<Longrightarrow> key_cmp s' = key_cmp s \<Longrightarrow> del_func s' = del_func s \<Longrightarrow>
   freed s' = freed s \<Longrightarrow> sim_step m s t (Some (r, es, p))"
  unfolding sim_step_def by (simp only: option.case prod.case) blast

lemma sim_stay:
  "pr_inv s t \<Longrightarrow> node it = nth_ptr t i \<Longrightarrow> i \<le> size t \<Longrightarrow>
   sim_step (Some (r, s, Some it)) s t (Some (r, entries t, Some i))"
  by (auto simp: sim_step_def cur_rel_def)

lemma sim_moved:
  assumes "pr_inv s t"
    and "m = Some (if j < size t then 1 else 0, it\<lparr>node := nth_ptr t j\<rparr>)"
  shows "sim_step (moved s m) s t (goto (entries t) j)"
  using assms by (auto simp: sim_step_def cur_rel_def moved_def goto_def)

lemma sim_dataset:
  fixes s :: "('k, 'v) pr_state"
  assumes "pr_inv s t" and "node it = nth_ptr t i" and "i \<le> size t"
  shows "sim_step (itor_call (Op_dataset d o_p) s it) s t (abs_call (Op_dataset d o_p) (entries t) i)"
proof (cases "i < size t")
  case True
  from pr_itor_set_data_refines [OF assms(1,2) True, of d o_p] obtain s' t' where
    run: "pr_itor_set_data s it d o_p = Some (0, if o_p then Some (snd (entries t ! i)) else None, s')"
    and t': "pr_inv s' t'" "entries t' = (entries t)[i := (fst (entries t ! i), d)]"
      "addrs t' = addrs t" "key_cmp s' = key_cmp s" "del_func s' = del_func s" "freed s' = freed s"
    by blast
  from arg_cong [OF t'(3), of length] have "size t' = size t" by simp
  moreover note nth_ptr_addrs_cong [OF t'(3)]
  ultimately have "size t' = size t" "nth_ptr t' = nth_ptr t" .
  with True assms(2) have c: "cur_rel t' (Some it) (Some i)" by (simp add: cur_rel_def)
  have "abs_call (Op_dataset d o_p) (entries t) i =
      Some (R_old 0 (if o_p then Some (snd (entries t ! i)) else None),
            (entries t)[i := (fst (entries t ! i), d)], Some i)"
    using True by (simp add: abs_call_def)
  moreover have "itor_call (Op_dataset d o_p) s it =
      Some (R_old 0 (if o_p then Some (snd (entries t ! i)) else None), s', Some it)"
    by (simp add: itor_call_def pr_tree_itor_vtable_def run)
  ultimately show ?thesis using sim_stepI [OF refl t'(1) refl t'(3) c t'(4-6)] by (simp add: t'(2))
next
  case False
  with assms(2) have "itor_call (Op_dataset d o_p) s it = Some (R_old (- 1) None, s, Some it)"
    by (simp add: itor_call_def pr_tree_itor_vtable_def pr_itor_set_data_def)
  moreover from False have "abs_call (Op_dataset d o_p) (entries t) i =
      Some (R_old (- 1) None, entries t, Some i)"
    by (simp add: abs_call_def)
  ultimately show ?thesis using sim_stay [OF assms] by simp
qed

lemma itor_call_sim:
  fixes s :: "('k, 'v) pr_state"
  assumes "pr_inv s t" and "node it = nth_ptr t i" and "i \<le> size t"
  shows "sim_step (itor_call op s it) s t (abs_call op (entries t) i)"
proof -
  note r = pr_invD(1) [OF assms(1)]
  note stay = sim_stay [OF assms] and mv = sim_moved [OF assms(1)]
  note defs = itor_call_def pr_tree_itor_vtable_def abs_call_def
  show ?thesis
  proof (cases op)
    case Op_destroy
    with assms(1) show ?thesis
      by (auto simp: defs sim_step_def cur_rel_def pr_itor_destroy_def)
  next
    case Op_valid
    with stay [of "R_int 1"] stay [of "R_int 0"] assms(2) show ?thesis
      by (auto simp: defs pr_itor_valid_def RETVALID_def nth_ptr_def)
  next
    case Op_invalidate
    with sim_stay [OF assms(1), of "pr_itor_invalidate it" "size t" R_void] show ?thesis
      by (simp add: defs pr_itor_invalidate_def)
  next
    case Op_next
    with mv [OF pr_itor_next_refines [OF r assms(2)]] show ?thesis by (simp add: defs)
  next
    case Op_prev
    with mv [OF pr_itor_prev_refines [OF r assms(2)]] show ?thesis by (simp add: defs)
  next
    case (Op_nextn c)
    with mv [OF pr_itor_nextn_refines [OF r assms(2,3)]] show ?thesis by (simp add: defs)
  next
    case (Op_prevn c)
    with mv [OF pr_itor_prevn_refines [OF r assms(2,3)]] show ?thesis by (simp add: defs)
  next
    case Op_first
    with mv [OF pr_itor_first_refines [OF r]] show ?thesis by (simp add: defs)
  next
    case Op_last
    with mv [OF pr_itor_last_refines [OF r]] show ?thesis
      by (simp add: defs)
  next
    case Op_key
    with stay pr_itor_access(1) [OF r assms(2)] show ?thesis by (simp add: defs)
  next
    case Op_data
    with stay pr_itor_access(2) [OF r assms(2)] show ?thesis by (simp add: defs)
  next
    case Op_cdata
    with stay pr_itor_access(2,3) [OF r assms(2)] show ?thesis by (simp add: defs)
  next
    case (Op_dataset d o_p)
    with sim_dataset [OF assms] show ?thesis by simp
  qed (simp_all add: defs sim_step_def)
qed

section \<open>Lemmas: reachable states and traversal\<close>

inductive_cases itor_reach_cases: "itor_reach s0 it0 s it"

lemma abs_call_keys:
  "abs_call op es i = Some (r, es', p) \<Longrightarrow> map fst es' = map fst es"
  by (cases op) (auto simp: abs_call_def goto_def map_fst_update_same split: if_splits)

lemma abs_call_slot: "(abs_call op es i = None) = (pr_tree_itor_vtable op = None)"
  by (cases op) (simp_all add: abs_call_def goto_def pr_tree_itor_vtable_def)

lemma itor_invI:
  "pr_inv s t \<Longrightarrow> addrs t = addrs t0 \<Longrightarrow> map fst (entries t) = map fst (entries t0) \<Longrightarrow>
   itor_ok t it \<Longrightarrow> itor_inv t0 s it"
  unfolding itor_inv_def by blast

lemma cur_rel_ok: "cur_rel t (Some it) p \<Longrightarrow> itor_ok t it"
  by (auto simp: cur_rel_def itor_ok_nth split: option.splits)

lemma itor_step_inv:
  fixes s :: "('k, 'v) pr_state"
  assumes "itor_inv t0 s it" and "itor_call op s it = Some (r, s', Some it')"
  shows "itor_inv t0 s' it'"
proof -
  from assms(1) obtain t where t: "pr_inv s t" "addrs t = addrs t0"
    "map fst (entries t) = map fst (entries t0)" "itor_ok t it"
    unfolding itor_inv_def by blast
  from itor_ok_pos [OF t(4)] obtain i where i: "i \<le> size t" "node it = nth_ptr t i" by blast
  from itor_call_sim [OF t(1) i(2,1), of op] assms(2) obtain es p t' where
    a: "abs_call op (entries t) i = Some (r, es, p)"
    and t': "pr_inv s' t'" "entries t' = es" "addrs t' = addrs t" "cur_rel t' (Some it') p"
    by (auto simp: sim_step_def split: option.splits)
  from abs_call_keys [OF a] t' t(2,3) cur_rel_ok [OF t'(4)] show ?thesis
    by (intro itor_invI [of s' t']) simp_all
qed

lemma itor_reach_inv:
  fixes s :: "('k, 'v) pr_state"
  shows "itor_reach s0 it0 s it \<Longrightarrow> itor_inv t0 s0 it0 \<Longrightarrow> itor_inv t0 s it"
  by (induction rule: itor_reach.induct) (auto intro: itor_step_inv)

lemma itor_collect_refines:
  assumes "repr s t"
  shows "node it = nth_ptr t i \<Longrightarrow> i \<le> size t \<Longrightarrow> size t - i \<le> fuel \<Longrightarrow>
    itor_collect fuel s it = Some (drop i (entries t))"
proof (induction fuel arbitrary: i it)
  case 0
  then show ?case by (subst itor_collect.simps) simp
next
  case (Suc f)
  show ?case
  proof (cases "i < size t")
    case True
    have "itor_collect f s (it\<lparr>node := nth_ptr t (Suc i)\<rparr>) = Some (drop (Suc i) (entries t))"
      using True Suc.prems by (intro Suc.IH [where i = "Suc i"]) simp_all
    with True Suc.prems(1) pr_itor_access(1,2) [OF assms Suc.prems(1)]
      pr_itor_next_refines [OF assms Suc.prems(1)] show ?thesis
      by (subst itor_collect.simps)
        (simp add: nth_ptr_Some next_pos_def Cons_nth_drop_Suc [symmetric])
  next
    case False
    with Suc.prems show ?thesis by (subst itor_collect.simps) simp
  qed
qed

lemma sim_step_SomeD:
  fixes t :: "('k, 'v) ltree"
  assumes "sim_step m s t (Some (r, es, Some j))"
  shows "\<exists>s' it'. m = Some (r, s', Some it') \<and> node it' = nth_ptr t j"
proof -
  from assms obtain s' c and t' :: "('k, 'v) ltree" where
    m: "m = Some (r, s', c)" and a: "addrs t' = addrs t" and c: "cur_rel t' c (Some j)"
    by (auto simp: sim_step_def)
  from c obtain it' where "c = Some it'" "node it' = nth_ptr t' j"
    by (auto simp: cur_rel_def split: option.splits)
  with m nth_ptr_addrs_cong [OF a] show ?thesis by simp
qed

lemma pr_itor_new_refines:
  assumes "repr s t"
  shows "pr_itor_new s True junk = Some (Some \<lparr>node = nth_ptr t 0\<rparr>)"
    and "pr_itor_new s False junk = Some None"
  using pr_itor_first_refines [OF assms, of "\<lparr>node = junk\<rparr>"] by (simp_all add: pr_itor_new_def)

text \<open>With too little fuel the traversal does not finish.\<close>

lemma itor_collect_short:
  assumes "repr s t"
  shows "node it = nth_ptr t i \<Longrightarrow> i \<le> size t \<Longrightarrow> fuel < size t - i \<Longrightarrow>
    itor_collect fuel s it = None"
proof (induction fuel arbitrary: i it)
  case 0
  then show ?case by (subst itor_collect.simps) (simp add: nth_ptr_Some)
next
  case (Suc f)
  then have i: "i < size t" by simp
  have "itor_collect f s (it\<lparr>node := nth_ptr t (Suc i)\<rparr>) = None"
    using Suc.prems by (intro Suc.IH [where i = "Suc i"]) simp_all
  with i Suc.prems(1) pr_itor_access(1,2) [OF assms Suc.prems(1)]
    pr_itor_next_refines [OF assms Suc.prems(1)] show ?case
    by (subst itor_collect.simps) (simp add: nth_ptr_Some next_pos_def)
qed

section \<open>Properties\<close>

lemma pr_inv_ex_state: "pr_inv ex_state ex_tree"
  unfolding ex_state_def
  by (rule pr_inv_state_of) (simp_all add: ex_tree_def wt_inv_def int_cmp_def)

lemma ex_pos: "node \<lparr>node = Some 0\<rparr> = nth_ptr ex_tree 1" "node \<lparr>node = None\<rparr> = nth_ptr ex_tree 3"
  by (simp_all add: nth_ptr_def ex_tree_def)

text \<open>
  C16 (refinement): the cursor functions implement the cursor over a list. For a
  state that satisfies the tree invariant and a cursor at position \<open>i\<close> of the
  in-order list, every call through \<^verbatim>\<open>pr_tree_itor_vtable\<close> returns what the
  list cursor \<open>abs_call\<close> returns at position \<open>i\<close> of the entries, leaves a
  state that satisfies the invariant for the entries \<open>abs_call\<close> yields, with
  the same nodes, and leaves the cursor at the position \<open>abs_call\<close> yields; a
  call through an empty slot has no result in both.
\<close>

theorem itor_call_refines:
  fixes s :: "('k, 'v) pr_state"
  assumes "pr_inv s t" and "node it = nth_ptr t i" and "i \<le> size t"
  shows "sim_step (itor_call op s it) s t (abs_call op (entries t) i)"
  using assms by (rule itor_call_sim)

theorem itor_call_refines_witness:
  "\<exists>s' it'. itor_call Op_prev ex_state \<lparr>node = Some 0\<rparr> = Some (R_int 1, s', Some it')
     \<and> node it' = Some 1"
proof -
  from itor_call_refines [OF pr_inv_ex_state ex_pos(1), of Op_prev]
  have "sim_step (itor_call Op_prev ex_state \<lparr>node = Some 0\<rparr>) ex_state ex_tree
      (Some (R_int 1, entries ex_tree, Some 0))"
    by (simp add: abs_call_def goto_def prev_pos_def ex_tree_def)
  from sim_step_SomeD [OF this] show ?thesis by (simp add: nth_ptr_def ex_tree_def)
qed

text \<open>
  C17 (safety): a cursor never dangles. Starting from a state that satisfies the
  tree invariant and a cursor that is unbound or points at a node of the tree,
  every state reached by calls through the dispatch table satisfies the tree
  invariant for a tree with the same nodes and the same keys in the same
  order, and the cursor is unbound or points at one of its nodes.
\<close>

theorem itor_reach_safe:
  fixes s :: "('k, 'v) pr_state"
  assumes "pr_inv s0 t0" and "itor_ok t0 it0" and "itor_reach s0 it0 s it"
  shows "\<exists>t. pr_inv s t \<and> addrs t = addrs t0 \<and> map fst (entries t) = map fst (entries t0)
    \<and> itor_ok t it"
  using itor_reach_inv [OF assms(3), of t0] itor_invI [OF assms(1) refl refl assms(2)]
  by (simp add: itor_inv_def)

theorem itor_reach_safe_witness:
  "\<exists>s it t. itor_reach ex_state \<lparr>node = Some 0\<rparr> s it \<and> node it = Some 2 \<and> pr_inv s t
     \<and> addrs t = [1, 0, 2] \<and> itor_ok t it"
proof -
  have "sim_step (itor_call Op_next ex_state \<lparr>node = Some 0\<rparr>) ex_state ex_tree
      (Some (R_int 1, entries ex_tree, Some 2))"
    using itor_call_sim [OF pr_inv_ex_state ex_pos(1), of Op_next]
    by (simp add: abs_call_def goto_def next_pos_def ex_tree_def numeral_2_eq_2)
  from sim_step_SomeD [OF this] obtain s' it' where
    c: "itor_call Op_next ex_state \<lparr>node = Some 0\<rparr> = Some (R_int 1, s', Some it')"
    and n: "node it' = Some 2"
    by (auto simp: nth_ptr_def ex_tree_def)
  have r: "itor_reach ex_state \<lparr>node = Some 0\<rparr> s' it'"
    by (rule itor_reach.step [OF itor_reach.start c])
  have "itor_ok ex_tree \<lparr>node = Some 0\<rparr>" by (simp add: itor_ok_def ex_tree_def)
  from itor_reach_safe [OF pr_inv_ex_state this r] r n show ?thesis
    by (auto simp: ex_tree_def)
qed

text \<open>
  C35 (termination): every cursor operation returns. In a state that satisfies
  the tree invariant, with a cursor that is unbound or points at a node of the
  tree, a call through any slot of the dispatch table that is not \<^verbatim>\<open>NULL\<close> has
  a result: the loops of \<^verbatim>\<open>node_next\<close>, \<^verbatim>\<open>node_prev\<close>, \<^verbatim>\<open>node_min\<close>,
  \<^verbatim>\<open>node_max\<close> and the counting loops of \<^verbatim>\<open>pr_itor_nextn\<close> and
  \<^verbatim>\<open>pr_itor_prevn\<close> end and no \<^verbatim>\<open>NULL\<close> pointer is dereferenced.
\<close>

theorem itor_call_total:
  fixes s :: "('k, 'v) pr_state"
  assumes "pr_inv s t" and "itor_ok t it" and "pr_tree_itor_vtable op \<noteq> (None :: ('k, 'v) itor_fun option)"
  shows "\<exists>r s' c. itor_call op s it = Some (r, s', c)"
proof -
  from itor_ok_pos [OF assms(2)] obtain i where i: "i \<le> size t" "node it = nth_ptr t i" by blast
  from assms(3) obtain r es p where "abs_call op (entries t) i = Some (r, es, p)"
    using abs_call_slot [of op "entries t" i] by (cases "abs_call op (entries t) i") auto
  with itor_call_sim [OF assms(1) i(2,1), of op] show ?thesis by (auto simp: sim_step_def)
qed

theorem itor_call_total_witness:
  "\<exists>r s' c. itor_call (Op_prevn 5) ex_state \<lparr>node = Some 0\<rparr> = Some (r, s', c)"
proof -
  have "itor_ok ex_tree \<lparr>node = Some 0\<rparr>" by (simp add: itor_ok_def ex_tree_def)
  from itor_call_total [OF pr_inv_ex_state this, of "Op_prevn 5"] show ?thesis
    by (simp add: pr_tree_itor_vtable_def)
qed

text \<open>
  C36 (functional): \<^verbatim>\<open>pr_itor_nextn\<close>. From position \<open>i\<close> of the in-order list
  (position \<open>size t\<close> is the unbound cursor) and with count \<open>c\<close>, the cursor
  moves to position \<open>i + c\<close> when it is bound, and to position \<open>c - 1\<close> when it
  is unbound and \<open>c\<close> is not 0, the first step being the move to the first
  entry; it is unbound when that position is beyond the end, and the result
  says whether it is bound.
\<close>

theorem pr_itor_nextn_correct:
  assumes "repr s t" and "node it = nth_ptr t i" and "i \<le> size t"
  shows "pr_itor_nextn s it c =
    Some (if nextn_pos (size t) i (unat c) < size t then 1 else 0,
          it\<lparr>node := nth_ptr t (nextn_pos (size t) i (unat c))\<rparr>)"
  using assms by (rule pr_itor_nextn_refines)

theorem pr_itor_nextn_correct_witness:
  "pr_itor_nextn ex_state \<lparr>node = None\<rparr> 2 = Some (1, \<lparr>node = Some 0\<rparr>)
   \<and> pr_itor_nextn ex_state \<lparr>node = Some 0\<rparr> 7 = Some (0, \<lparr>node = None\<rparr>)"
  using pr_itor_nextn_correct [OF repr_ex_state ex_pos(2), of 2]
    pr_itor_nextn_correct [OF repr_ex_state ex_pos(1), of 7]
  by (simp add: nextn_pos_def nth_ptr_def ex_tree_def)

text \<open>
  C37 (functional): \<^verbatim>\<open>pr_itor_search\<close>. Under the tree invariant the descent
  returns. If no entry has a key equal to the argument the cursor becomes
  unbound and the result is 0; otherwise the result is 1 and the cursor is
  bound to an entry of the in-order list whose key compares equal and whose
  datum is the one the dictionary holds for the key.
\<close>

theorem pr_itor_search_correct:
  assumes "pr_inv s t"
  shows "\<exists>r it'. pr_itor_search s it k = Some (r, it') \<and>
    (case node it' of
       None \<Rightarrow> r = 0 \<and> lookup_by (key_cmp s) k (entries t) = None
     | Some a \<Rightarrow> r = 1 \<and> (\<exists>i. i < size t \<and> a = addrs t ! i
         \<and> key_cmp s k (fst (entries t ! i)) = 0
         \<and> lookup_by (key_cmp s) k (entries t) = Some (snd (entries t ! i))))"
proof -
  note I = pr_invD [OF assms]
  note L = lookup_sorted [OF I(3,4), of k]
  show ?thesis
  proof (cases "lookup_addr (key_cmp s) k t")
    case None
    with pr_itor_search_refines [OF I(1), of it k] lookup_addr_None [OF None] L show ?thesis
      by simp
  next
    case (Some a)
    with pr_itor_search_refines [OF I(1), of it k] lookup_addr_Some [OF Some] L show ?thesis
      by auto
  qed
qed

theorem pr_itor_search_correct_witness:
  "pr_itor_search ex_state \<lparr>node = None\<rparr> 30 = Some (1, \<lparr>node = Some 2\<rparr>)
   \<and> pr_itor_search ex_state \<lparr>node = Some 0\<rparr> 15 = Some (0, \<lparr>node = None\<rparr>)"
proof -
  from pr_itor_search_correct [OF pr_inv_ex_state, of "\<lparr>node = None\<rparr>" 30]
  have "pr_itor_search ex_state \<lparr>node = None\<rparr> 30 \<noteq> None" by auto
  moreover from pr_itor_search_refines [OF repr_ex_state]
  have "pr_itor_search ex_state \<lparr>node = None\<rparr> 30 = Some (1, \<lparr>node = Some 2\<rparr>)"
    "pr_itor_search ex_state \<lparr>node = Some 0\<rparr> 15 = Some (0, \<lparr>node = None\<rparr>)"
    by (simp_all add: ex_tree_def ex_state_def int_cmp_def)
  ultimately show ?thesis by simp
qed

text \<open>
  C38 (functional): \<^verbatim>\<open>pr_itor_set_data\<close>. With the cursor bound to entry \<open>i\<close>
  the function returns 0, stores the old datum through \<^verbatim>\<open>old_datum\<close> when that
  is given, and replaces the datum of entry \<open>i\<close>; key, order, nodes, tree
  invariant and the deleter log are unchanged (the old datum is not destroyed).
  With an unbound cursor it returns -1 and changes nothing.
\<close>

theorem pr_itor_set_data_correct:
  fixes s :: "('k, 'v) pr_state"
  assumes "pr_inv s t" and "node it = nth_ptr t i" and "i \<le> size t"
  shows "if i < size t
    then \<exists>s' t'. pr_itor_set_data s it d o_p =
             Some (0, if o_p then Some (snd (entries t ! i)) else None, s')
           \<and> pr_inv s' t' \<and> addrs t' = addrs t
           \<and> entries t' = (entries t)[i := (fst (entries t ! i), d)]
           \<and> key_cmp s' = key_cmp s \<and> del_func s' = del_func s \<and> freed s' = freed s
    else pr_itor_set_data s it d o_p = Some (- 1, None, s)"
proof (cases "i < size t")
  case True
  with pr_itor_set_data_refines [OF assms(1,2) True, of d o_p] show ?thesis by simp
next
  case False
  with assms(2) show ?thesis by (simp add: pr_itor_set_data_def)
qed

theorem pr_itor_set_data_correct_witness:
  "\<exists>s' t'. pr_itor_set_data ex_state \<lparr>node = Some 0\<rparr> 7 True = Some (0, Some 2, s')
     \<and> entries t' = [(10, 1), (20, 7), (30, 3)] \<and> repr s' t'"
  using pr_itor_set_data_correct [OF pr_inv_ex_state ex_pos(1), of 7 True]
  by (auto simp: ex_tree_def dest: pr_invD(1))

end
