(* ===== verification/PR_Balance.thy ===== *)
theory PR_Balance
  imports PR_Remove PR_Metrics
begin

text \<open>
  What the rebalancing pass of \<^verbatim>\<open>pr_tree.c\<close> achieves. Every rotation
  \<^verbatim>\<open>fixup\<close> makes shortens the internal path length of the tree, so an
  insertion lengthens it by at most the depth of the new node. The
  path-reduction balance condition of the specification (\<open>balanced\<close>, in
  \<open>PR_Tree\<close>) is a fixed point: on a balanced tree \<^verbatim>\<open>fixup\<close> changes nothing,
  and a balanced tree with correct weights is at most
  \<open>log\<^bsub>3/2\<^esub> ((n + 1) / 2)\<close> high. The condition is not an invariant of
  \<^verbatim>\<open>pr_tree_insert\<close>: in its double-rotation branches \<^verbatim>\<open>fixup\<close> calls itself
  on a subtree that the rotations did not touch and never on the node
  \<^verbatim>\<open>temp\<close>, whose subtree they changed. \<open>bal14\<close> is a tree built by fourteen
  insertions at which the fifteenth leaves \<^verbatim>\<open>temp\<close> out of balance.
\<close>

section \<open>Definitions\<close>

text \<open>The tree \<^verbatim>\<open>pr_tree_insert\<close> builds from the empty tree for a list of keys;
  the datum and the address of a node are its index in the list.\<close>

definition ins_all :: "int list \<Rightarrow> (int, nat) ltree" where
  "ins_all ks = foldl (\<lambda>t (a, k). ins int_cmp k a a t) Tip (zip [0 ..< length ks] ks)"

definition bal14 :: "(int, nat) ltree" where
  "bal14 =
     Nd (Nd (Nd Tip 6 0 6 3 (Nd Tip 7 1 7 2 Tip)) 5 2 5 5 (Nd Tip 2 3 2 2 Tip)) 0 4 0 15
        (Nd (Nd (Nd (Nd Tip 12 5 12 2 Tip) 4 7 4 3 Tip) 8 8 8 5 (Nd Tip 9 9 9 2 Tip)) 3 10 3 10
            (Nd (Nd Tip 11 11 11 3 (Nd Tip 13 12 13 2 Tip)) 10 13 10 5 (Nd Tip 1 14 1 2 Tip)))"

definition unbal15 :: "(int, nat) ltree" where
  "unbal15 =
     Nd (Nd (Nd (Nd Tip 6 0 6 3 (Nd Tip 7 1 7 2 Tip)) 5 2 5 5 (Nd Tip 2 3 2 2 Tip)) 0 4 0 9
            (Nd (Nd Tip 12 5 12 2 Tip) 14 6 14 4 (Nd Tip 4 7 4 2 Tip))) 8 8 8 16
        (Nd (Nd Tip 9 9 9 2 Tip) 3 10 3 7
            (Nd (Nd Tip 11 11 11 3 (Nd Tip 13 12 13 2 Tip)) 10 13 10 5 (Nd Tip 1 14 1 2 Tip)))"

section \<open>Lemmas: \<^verbatim>\<open>fixup\<close> on a balanced tree\<close>

lemma balanced_right_heavy:
  "balanced (Nd l a k v w (Nd rl d kd vd wd rr)) \<Longrightarrow> wt l < wd \<Longrightarrow> wt rr \<le> wt l \<and> wt rl \<le> wt l"
  by simp

lemma balanced_left_heavy:
  "balanced (Nd (Nd ll b kb vb wb lr) a k v w r) \<Longrightarrow> wt r < wb \<Longrightarrow> wt ll \<le> wt r \<and> wt lr \<le> wt r"
  by (auto split: if_splits)

lemma rebal_balanced_Nd:
  assumes "wt_inv (Nd l a k v w r)" and b: "balanced (Nd l a k v w r)"
  shows "rebal (Nd l a k v w r) = Nd l a k v w r"
  using assms(1)
proof (cases rule: rebal_cases)
  case (LL rl d kd vd wd rr)
  with balanced_right_heavy [OF b [unfolded LL(1)]] show ?thesis by (simp add: not_less [symmetric])
next
  case (RL c1 c kc vc wc c2 d kd vd wd rr)
  with balanced_right_heavy [OF b [unfolded RL(1)]] show ?thesis by (simp add: not_less [symmetric])
next
  case (RR ll b kb vb wb lr)
  with balanced_left_heavy [OF b [unfolded RR(1)]] show ?thesis by (simp add: not_less [symmetric])
next
  case (LR ll b kb vb wb c1 c kc vc wc c2)
  with balanced_left_heavy [OF b [unfolded LR(1)]] show ?thesis by (simp add: not_less [symmetric])
qed (simp_all add: rebal_bal_right rebal_bal_left rebal_bal_eq)

lemma rebal_balanced: "wt_inv t \<Longrightarrow> balanced t \<Longrightarrow> rebal t = t"
  by (cases t) (simp_all add: rebal_balanced_Nd del: balanced.simps)

section \<open>Lemmas: the height of a balanced tree\<close>

lemma wt_inv_le: "wt_inv l \<Longrightarrow> wt_inv r \<Longrightarrow> (wt l \<le> wt r) = (size l \<le> size r)"
  by (simp add: word_le_nat_alt wt_inv_unat)

text \<open>In a balanced tree a child carries at most two thirds of its parent's weight.\<close>

lemma balanced_children:
  assumes "balanced (Nd l a k v w r)" and "wt_inv (Nd l a k v w r)"
  shows "size r + 1 \<le> 2 * (size l + 1)" and "size l + 1 \<le> 2 * (size r + 1)"
proof -
  note I = wt_inv_NdD [OF assms(2)]
  show "size r + 1 \<le> 2 * (size l + 1)"
  proof (cases "size l < size r")
    case True
    then obtain rl d kd vd wd rr where r: "r = Nd rl d kd vd wd rr" by (cases r) auto
    from I(2) have J: "wt_inv rl" "wt_inv rr" unfolding r by (rule wt_inv_NdD)+
    from True have "wt l < wd" using wt_inv_less [OF I(1,2)] by (simp add: r)
    from balanced_right_heavy [OF assms(1) [unfolded r] this]
    have "size rr \<le> size l" "size rl \<le> size l"
      by (simp_all add: wt_inv_le [OF J(2) I(1)] wt_inv_le [OF J(1) I(1)])
    with r show ?thesis by simp
  qed simp
  show "size l + 1 \<le> 2 * (size r + 1)"
  proof (cases "size r < size l")
    case True
    then obtain ll b kb vb wb lr where l: "l = Nd ll b kb vb wb lr" by (cases l) auto
    from I(1) have J: "wt_inv ll" "wt_inv lr" unfolding l by (rule wt_inv_NdD)+
    from True have "wt r < wb" using wt_inv_less [OF I(2,1)] by (simp add: l)
    from balanced_left_heavy [OF assms(1) [unfolded l] this]
    have "size ll \<le> size r" "size lr \<le> size r"
      by (simp_all add: wt_inv_le [OF J(1) I(2)] wt_inv_le [OF J(2) I(2)])
    with l show ?thesis by simp
  qed simp
qed

lemma height_step:
  fixes c n h :: nat
  assumes "2 * 3 ^ h \<le> 2 ^ h * c" and "3 * c \<le> 2 * n"
  shows "2 * 3 ^ Suc h \<le> 2 ^ Suc h * n"
proof -
  have "(2::nat) * 3 ^ Suc h = 3 * (2 * 3 ^ h)" by simp
  also have "\<dots> \<le> 3 * (2 ^ h * c)" using assms(1) by (rule mult_le_mono2)
  also have "\<dots> = 2 ^ h * (3 * c)" by simp
  also have "\<dots> \<le> 2 ^ h * (2 * n)" using assms(2) by (rule mult_le_mono2)
  finally show ?thesis by simp
qed

lemma balanced_height:
  "wt_inv t \<Longrightarrow> balanced t \<Longrightarrow> t \<noteq> Tip \<Longrightarrow> 2 * 3 ^ ht t \<le> 2 ^ ht t * (size t + 1)"
proof (induction t)
  case (Nd l a k v w r)
  note I = wt_inv_NdD [OF Nd.prems(1)] and B = balanced_children [OF Nd.prems(2,1)]
  from Nd.prems(2) have bl: "balanced l" and br: "balanced r" by simp_all
  have L: "2 * 3 ^ Suc (ht l) \<le> 2 ^ Suc (ht l) * (size (Nd l a k v w r) + 1)" if "l \<noteq> Tip"
    using Nd.IH(1) [OF I(1) bl that] B(2) by (intro height_step [where c = "size l + 1"]) simp_all
  have R: "2 * 3 ^ Suc (ht r) \<le> 2 ^ Suc (ht r) * (size (Nd l a k v w r) + 1)" if "r \<noteq> Tip"
    using Nd.IH(2) [OF I(2) br that] B(1) by (intro height_step [where c = "size r + 1"]) simp_all
  show ?case
  proof (cases "l = Tip")
    case lt: True
    show ?thesis
    proof (cases "r = Tip")
      case True
      with lt show ?thesis by simp
    next
      case False
      with lt R show ?thesis by simp
    qed
  next
    case lf: False
    show ?thesis
    proof (cases "r = Tip")
      case True
      with lf L show ?thesis by simp
    next
      case False
      with lf L R show ?thesis by (cases "ht l \<le> ht r") (simp_all add: max_def)
    qed
  qed
qed simp

section \<open>Lemmas: rotations shorten the paths\<close>

lemma ipl_Suc: "ipl (Suc d) t = size t + ipl d t"
  by (induction t arbitrary: d) simp_all

lemma ipl_leI: "t' = t \<or> ipl d t' < ipl d t \<Longrightarrow> ipl d t' \<le> ipl d t"
  by auto


lemma ipl_plug_mono:
  "size t' = size t \<Longrightarrow> ipl 0 t' \<le> ipl 0 t \<Longrightarrow> ipl 0 (plug c t') \<le> ipl 0 (plug c t)"
proof (induction c t arbitrary: t' rule: plug.induct)
  case (2 a k v w r c t)
  from "2.prems" show ?case
    by (simp only: plug.simps) (rule "2.IH", simp_all add: ipl_Suc)
next
  case (3 l a k v w c t)
  from "3.prems" show ?case
    by (simp only: plug.simps) (rule "3.IH", simp_all add: ipl_Suc)
qed simp

lemma ipl_plug_strict:
  "size t' = size t \<Longrightarrow> ipl 0 t' < ipl 0 t \<Longrightarrow> ipl 0 (plug c t') < ipl 0 (plug c t)"
proof (induction c t arbitrary: t' rule: plug.induct)
  case (2 a k v w r c t)
  from "2.prems" show ?case
    by (simp only: plug.simps) (rule "2.IH", simp_all add: ipl_Suc)
next
  case (3 l a k v w c t)
  from "3.prems" show ?case
    by (simp only: plug.simps) (rule "3.IH", simp_all add: ipl_Suc)
qed simp

text \<open>The depth of the hole of a context is its length.\<close>

lemma ipl_plug_leaf:
  "size t' = size t + 1 \<Longrightarrow> ipl 0 t' = ipl 0 t + n \<Longrightarrow>
   ipl 0 (plug c t') = ipl 0 (plug c t) + (n + length c)"
proof (induction c t arbitrary: t' n rule: plug.induct)
  case (2 a k v w r c t)
  from "2.prems" "2.IH" [of "Nd t' a k v w r" "Suc n"] show ?case by (simp add: ipl_Suc)
next
  case (3 l a k v w c t)
  from "3.prems" "3.IH" [of "Nd l a k v w t'" "Suc n"] show ?case by (simp add: ipl_Suc)
qed simp

lemma rebal_ipl: "wt_inv t \<Longrightarrow> rebal t = t \<or> ipl d (rebal t) < ipl d t"
proof (induction t arbitrary: d rule: rebal_induct)
  case (LL l n k v w rl b kb vb wb rr)
  note I = wt_inv_NdD [OF LL(1)] and K = rebal_keeps [OF LL(4)]
  from LL(3) wt_inv_less [OF I(1) wt_inv_NdD(2) [OF I(2)]] have "size l < size rr" by simp
  with ipl_leI [OF LL.IH, of "Suc d"] K show ?case
    by (simp add: rebal_LL LL(2,3) ipl_Suc)
next
  case (RL l n k v w c1 c kc vc wc c2 b kb vb wb rr)
  note I = wt_inv_NdD [OF RL(1)] and K = rebal_keeps [OF RL(5)]
  note J = wt_inv_NdD [OF I(2)]
  from RL(4) wt_inv_less [OF I(1) J(1)] have "size l < size c1 + size c2 + 1" by simp
  with ipl_leI [OF RL.IH(1), of "Suc d"] ipl_leI [OF RL.IH(2), of "Suc (Suc d)"] K
    rebal_keeps [OF J(2)] show ?case
    by (simp add: rebal_RL RL(2,3,4) ipl_Suc)
next
  case (RR ll b kb vb wb lr n k v w r)
  note I = wt_inv_NdD [OF RR(1)] and K = rebal_keeps [OF RR(5)]
  from RR(4) wt_inv_less [OF I(2) wt_inv_NdD(1) [OF I(1)]] have "size r < size ll" by simp
  with ipl_leI [OF RR.IH, of "Suc d"] K show ?case
    by (simp add: rebal_RR RR(2,3,4) ipl_Suc)
next
  case (LR ll b kb vb wb c1 c kc vc wc c2 n k v w r)
  note I = wt_inv_NdD [OF LR(1)] and K = rebal_keeps [OF LR(6)]
  note J = wt_inv_NdD [OF I(1)]
  from LR(5) wt_inv_less [OF I(2) J(2)] have "size r < size c1 + size c2 + 1" by simp
  with ipl_leI [OF LR.IH(1), of "Suc (Suc d)"] ipl_leI [OF LR.IH(2), of "Suc d"] K
    rebal_keeps [OF J(1)] show ?case
    by (simp add: rebal_LR LR(2,3,4,5) ipl_Suc)
qed (simp_all add: rebal_bal_right rebal_bal_left rebal_bal_eq)

lemma rebal_ipl_le: "wt_inv t \<Longrightarrow> ipl d (rebal t) \<le> ipl d t"
  by (rule ipl_leI) (rule rebal_ipl)

lemma ipl_plug_cong:
  "size t' = size t \<Longrightarrow> ipl 0 t' = ipl 0 t \<Longrightarrow> ipl 0 (plug c t') = ipl 0 (plug c t)"
  using ipl_plug_mono [of t' t c] ipl_plug_mono [of t t' c] by simp

text \<open>The walk back to the root after an insertion only shortens paths.\<close>

lemma ins_up_le:
  assumes inv: "wt_inv (Nd l a k v (w + 1) r)"
    and IH: "ipl 0 (ins_up c (rebal (Nd l a k v (w + 1) r))) \<le> ipl 0 (plug c (rebal (Nd l a k v (w + 1) r)))"
  shows "ipl 0 (ins_up c (rebal (Nd l a k v (w + 1) r))) \<le> ipl 0 (plug c (Nd l a k v w r))"
proof -
  note IH
  also have "ipl 0 (plug c (rebal (Nd l a k v (w + 1) r))) \<le> ipl 0 (plug c (Nd l a k v (w + 1) r))"
    using rebal_keeps [OF inv] rebal_ipl_le [OF inv, of 0] by (intro ipl_plug_mono) simp_all
  also have "\<dots> = ipl 0 (plug c (Nd l a k v w r))"
    by (rule ipl_plug_cong) simp_all
  finally show ?thesis .
qed

lemma ins_up_ipl:
  "wt_ok t \<Longrightarrow> ctx_wt c (wt t - 1) \<Longrightarrow> size (plug c t) + 1 < 2 ^ 64 \<Longrightarrow>
   ipl 0 (ins_up c t) \<le> ipl 0 (plug c t)"
proof (induction c t rule: ins_up.induct)
  case (2 a k v w r c t)
  from "2.prems" have "wt_ok t" "wt_ok r" "w + 1 = wt t + wt r" "ctx_wt c w"
    "size (plug c (Nd t a k v w r)) + 1 < 2 ^ 64"
    by auto
  note S = ins_up_step [OF this]
  from ins_up_le [OF S(1) "2.IH" [OF S(2,3,4)]] show ?case by simp
next
  case (3 l a k v w c t)
  from "3.prems" have "wt_ok l" "wt_ok t" "w + 1 = wt l + wt t" "ctx_wt c w"
    "size (plug c (Nd l a k v w t)) + 1 < 2 ^ 64"
    by auto
  note S = ins_up_step [OF this]
  from ins_up_le [OF S(1) "3.IH" [OF S(2,3,4)]] show ?case by simp
qed simp

text \<open>The descent ends at most one level below the deepest node.\<close>

lemma path_to_depth:
  "path_to c k t acc rv = (ctx, sub, rv') \<Longrightarrow>
   length ctx \<le> length acc + (if t = Tip then 0 else ht t + 1)"
  by (induction c k t acc rv rule: path_to.induct) (auto split: if_splits simp: max_def)

lemma ins_ipl:
  assumes "wt_inv t" and p: "path_to c k t [] 0 = (ctx, Tip, rv)" and "size t + 2 < 2 ^ 64"
  shows "ipl 0 (ins c k v m t) \<le> ipl 0 t + length ctx"
proof -
  from path_to_plug [OF p] have t: "t = plug ctx Tip" by simp
  from assms(1,3) have "ipl 0 (ins_up ctx (Nd Tip m k v 2 Tip)) \<le> ipl 0 (plug ctx (Nd Tip m k v 2 Tip))"
    by (intro ins_up_ipl) (simp_all add: t wt_inv_def wt_ok_plug size_plug)
  with ipl_plug_leaf [of "Nd Tip m k v 2 Tip" Tip 0 ctx] show ?thesis
    by (simp add: ins_def p t [symmetric])
qed

section \<open>Lemmas: the example\<close>

lemma pr_inv_bal14: "pr_inv (state_of int_cmp d bal14) bal14"
  by (rule pr_inv_state_of) (simp_all add: bal14_def wt_inv_def int_cmp_def)

lemma balanced_bal14: "balanced bal14"
  by (simp add: bal14_def word_le_nat_alt word_less_nat_alt)

lemma ins_bal14: "ins int_cmp 6 14 14 bal14 = unbal15"
  by (simp add: ins_def bal14_def unbal15_def int_cmp_def rebal.simps)

lemma unbalanced_unbal15: "\<not> balanced unbal15"
  by (simp add: unbal15_def word_le_nat_alt word_less_nat_alt)

lemma ins_all_bal14: "ins_all [4, 14, 3, 10, 7, 2, 0, 1, 8, 9, 13, 11, 5, 12] = bal14"
  by (simp add: ins_all_def upt_rec ins_def bal14_def int_cmp_def rebal.simps)

text \<open>Two heaps that hold the same tree agree on its nodes.\<close>

lemma tree_at_unique:
  "tree_at h par t \<Longrightarrow> tree_at h' par t \<Longrightarrow> x \<in> set (addrs t) \<Longrightarrow> h x = h' x"
  by (induction t arbitrary: par) auto

text \<open>Where \<open>rebal\<close> changes nothing, \<^verbatim>\<open>fixup\<close> leaves the state as it is.\<close>

lemma fixup_fixpoint:
  assumes "pr_inv s (plug c t)" and "rebal t = t" and "rootp t = Some a"
  shows "fixup s a = Some s"
proof -
  note I = pr_invD [OF assms(1)]
  from fixup_refines [OF wt_inv_plugD(1) [OF I(2)] I(1) assms(3)]
  have y: "yields (fixup s a) s (plug c t)"
    by (simp add: assms(2))
  then obtain s' where s': "fixup s a = Some s'" "repr s' (plug c t)"
    "s' = s\<lparr>root := root s', heap := heap s'\<rparr>" "dom (heap s') = dom (heap s)"
    by (rule yieldsE)
  have "heap s' x = heap s x" for x
  proof (cases "x \<in> set (addrs (plug c t))")
    case True
    with s'(2) I(1) show ?thesis by (auto simp: repr_def intro: tree_at_unique)
  next
    case False
    with I(6) s'(4) have "x \<notin> dom (heap s)" "x \<notin> dom (heap s')" by simp_all
    then show ?thesis by (simp add: domIff)
  qed
  then have "heap s' = heap s" by (rule ext)
  moreover from s'(2) I(1) have "root s' = root s" by (simp add: repr_def)
  ultimately have "s' = s" by (subst s'(3)) simp
  with s'(1) show ?thesis by simp
qed

lemma fixup_balanced:
  assumes "pr_inv s (plug c t)" and "balanced t" and "rootp t = Some a"
  shows "fixup s a = Some s"
  using assms(1) rebal_balanced [OF wt_inv_plugD(1) [OF pr_invD(2) [OF assms(1)]] assms(2)] assms(3)
  by (rule fixup_fixpoint)

text \<open>Path lengths below \<open>2 ^ 32\<close> are compared as the words \<^verbatim>\<open>pr_tree_pathlen\<close> returns.\<close>

lemma of_nat_count_less:
  "a < b \<Longrightarrow> b < 2 ^ 32 \<Longrightarrow> (of_nat a :: count_t) < of_nat b"
  by (simp add: word_less_nat_alt unat_of_nat_count)

lemma fixup_pathlen:
  assumes inv: "pr_inv s (plug c t)" and a: "rootp t = Some a" and b: "ipl 0 (plug c t) < 2 ^ 32"
  shows "\<exists>s' p p'. fixup s a = Some s' \<and> repr s' (plug c (rebal t))
    \<and> pr_tree_pathlen s = Some p \<and> pr_tree_pathlen s' = Some p'
    \<and> (if rebal t = t then s' = s else p' < p)"
proof (cases "rebal t = t")
  case True
  with fixup_fixpoint [OF inv True a] pr_tree_pathlen_refines [OF pr_invD(1) [OF inv]]
    pr_invD(1) [OF inv]
  show ?thesis by simp
next
  case False
  note I = pr_invD [OF inv]
  note w = wt_inv_plugD(1) [OF I(2)]
  from fixup_refines [OF w I(1) a] obtain s' where
    s': "fixup s a = Some s'" "repr s' (plug c (rebal t))"
    by (rule yieldsE)
  from False rebal_ipl [OF w, of 0] rebal_keeps [OF w]
  have "ipl 0 (plug c (rebal t)) < ipl 0 (plug c t)"
    by (intro ipl_plug_strict) simp_all
  from of_nat_count_less [OF this b] s' pr_tree_pathlen_refines [OF I(1)]
    pr_tree_pathlen_refines [OF s'(2)] False
  show ?thesis by simp
qed

text \<open>
  An insertion of an absent key lengthens the paths by at most the height plus
  one: the new node hangs at most one level below the deepest node, and the
  rebalancing on the way up does not lengthen any path.
\<close>

lemma insert_pathlen:
  assumes inv: "pr_inv s t" and k: "lookup_by (key_cmp s) k (entries t) = None"
    and m: "m \<notin> dom (heap s)" and b: "ipl 0 t + size t < 2 ^ 32"
  shows "\<exists>s' p h p'. pr_tree_insert s k v ov (Some m) = Some (0, s')
    \<and> pr_tree_pathlen s = Some p \<and> pr_tree_height s = Some h \<and> pr_tree_pathlen s' = Some p'
    \<and> unat p' \<le> unat p + unat h + 1"
proof -
  note I = pr_invD [OF inv]
  from inv k obtain ctx rv where p: "path_to (key_cmp s) k t [] 0 = (ctx, Tip, rv)"
    by (rule lookup_by_vacant)
  from b have sz: "size t + 2 < 2 ^ 64" "size t < 2 ^ 32" by simp_all
  from pr_tree_insert_vacant [OF inv p m sz(1), of v ov] obtain s' where
    s': "pr_tree_insert s k v ov (Some m) = Some (0, s')" "pr_inv s' (ins (key_cmp s) k v m t)"
    by blast
  from ins_ipl [OF I(2) p sz(1), of v m] path_to_depth [OF p]
  have le: "ipl 0 (ins (key_cmp s) k v m t) \<le> ipl 0 t + ht t + 1" by (simp split: if_splits)
  moreover from ht_less_size [of t] b have "ipl 0 t + ht t + 1 < 2 ^ 32 \<or> t = Tip" by auto
  moreover have "t = Tip \<Longrightarrow> ipl 0 (ins (key_cmp s) k v m t) = 0" by (simp add: ins_def)
  ultimately have "unat (of_nat (ipl 0 (ins (key_cmp s) k v m t)) :: count_t)
      \<le> unat (of_nat (ipl 0 t) :: count_t) + unat (of_nat (ht t) :: count_t) + 1"
    using b by (auto simp: unat_of_nat_count unat_ht [OF sz(2)])
  with s'(1) pr_tree_pathlen_refines [OF I(1)] pr_tree_pathlen_refines [OF pr_invD(1) [OF s'(2)]]
    pr_tree_height_refines [OF I(1)] height_w_ht [OF sz(2)]
  show ?thesis by simp
qed

section \<open>Properties\<close>

text \<open>
  C9 (invariant): insertion does not maintain the balance condition. \<open>bal14\<close> is
  the tree that fourteen insertions build from the empty tree; it is balanced
  and its state satisfies the tree invariant. Inserting key 6 succeeds and
  leaves a state that satisfies the tree invariant for the tree \<open>unbal15\<close>,
  in which the node with key 10 has a left subtree of weight 2 and a
  right-left grandchild of weight 3: a double rotation is due there. That node
  is \<^verbatim>\<open>temp\<close> of the double rotation at the root; \<^verbatim>\<open>fixup\<close> continues at
  \<^verbatim>\<open>temp->rlink\<close> and at \<^verbatim>\<open>node\<close>, never at \<^verbatim>\<open>temp\<close>.
\<close>

theorem insert_breaks_balance:
  "ins_all [4, 14, 3, 10, 7, 2, 0, 1, 8, 9, 13, 11, 5, 12] = bal14
   \<and> pr_inv (state_of int_cmp False bal14) bal14 \<and> balanced bal14
   \<and> (\<exists>s'. pr_tree_insert (state_of int_cmp False bal14) 6 14 0 (Some 14) = Some (0, s')
        \<and> pr_inv s' unbal15)
   \<and> \<not> balanced unbal15"
proof -
  let ?s = "state_of int_cmp False bal14"
  have "lookup_by (key_cmp ?s) 6 (entries bal14) = None"
    by (simp add: bal14_def int_cmp_def)
  with pr_inv_bal14 obtain ctx rv where "path_to (key_cmp ?s) 6 bal14 [] 0 = (ctx, Tip, rv)"
    by (rule lookup_by_vacant)
  moreover have "14 \<notin> dom (heap ?s)" "size bal14 + 2 < 2 ^ 64" by (simp_all add: bal14_def)
  ultimately obtain s' where "pr_tree_insert ?s 6 14 0 (Some 14) = Some (0, s')"
    "pr_inv s' (ins (key_cmp ?s) 6 14 14 bal14)"
    using pr_tree_insert_vacant [OF pr_inv_bal14, of False 6 ctx rv 14 14 0] by blast
  then have "\<exists>s'. pr_tree_insert ?s 6 14 0 (Some 14) = Some (0, s') \<and> pr_inv s' unbal15"
    by (simp add: ins_bal14)
  with ins_all_bal14 pr_inv_bal14 [of False] balanced_bal14 unbalanced_unbal15 show ?thesis
    by simp
qed

text \<open>
  C19 (bounds): the height of a balanced tree. If the tree of a state that
  satisfies the tree invariant is balanced, not empty and has fewer than
  \<open>2 ^ 32\<close> nodes, the height \<open>h\<close> that \<^verbatim>\<open>pr_tree_height\<close> returns satisfies
  \<open>2 * (3/2) ^ h \<le> n + 1\<close> for the number \<open>n\<close> of nodes: the height is at most
  \<open>log\<^bsub>3/2\<^esub> ((n + 1) / 2)\<close>, about \<open>1.71 * log\<^bsub>2\<^esub> n\<close>.
\<close>

theorem balanced_height_bound:
  assumes "pr_inv s t" and "balanced t" and "t \<noteq> Tip" and "size t < 2 ^ 32"
  shows "\<exists>h. pr_tree_height s = Some h \<and> 2 * 3 ^ unat h \<le> 2 ^ unat h * (size t + 1)"
  using pr_tree_height_refines [OF pr_invD(1) [OF assms(1)]] height_w_ht [OF assms(4)]
    unat_ht [OF assms(4)] balanced_height [OF pr_invD(2) [OF assms(1)] assms(2,3)]
  by simp

theorem balanced_height_bound_witness:
  "\<exists>h. pr_tree_height (state_of int_cmp False bal14) = Some h \<and> unat h = 4
     \<and> (2::nat) * 3 ^ unat h \<le> 2 ^ unat h * 15"
proof -
  have "bal14 \<noteq> Tip" "size bal14 < 2 ^ 32" "size bal14 + 1 = 15" by (simp_all add: bal14_def)
  with balanced_height_bound [OF pr_inv_bal14 [of False] balanced_bal14 this(1,2)]
    pr_tree_height_refines [OF pr_invD(1) [OF pr_inv_bal14 [of False]]]
    height_w_ht [of bal14] unat_ht [of bal14]
  show ?thesis by (simp add: bal14_def)
qed

text \<open>
  C39 (functional): \<^verbatim>\<open>fixup\<close> on a balanced subtree. On a state that satisfies
  the tree invariant, \<^verbatim>\<open>fixup\<close> at the root of a balanced subtree returns and
  leaves the state as it is. The recursive calls in the double-rotation
  branches are made on such a subtree whenever the tree was balanced before.
\<close>

theorem fixup_balanced_noop:
  assumes "pr_inv s (plug c t)" and "balanced t" and "rootp t = Some a"
  shows "fixup s a = Some s"
  using assms by (rule fixup_balanced)

theorem fixup_balanced_noop_witness:
  "fixup (state_of int_cmp False bal14) 3 = Some (state_of int_cmp False bal14)"
proof -
  let ?l = "Nd (Nd Tip 6 0 6 3 (Nd Tip 7 1 7 2 Tip)) 5 2 5 5 (Nd Tip 2 3 2 2 Tip)"
  let ?r = "Nd (Nd (Nd (Nd Tip 12 5 12 2 Tip) 4 7 4 3 Tip) 8 8 8 5 (Nd Tip 9 9 9 2 Tip)) 3 10 3 10
            (Nd (Nd Tip 11 11 11 3 (Nd Tip 13 12 13 2 Tip)) 10 13 10 5 (Nd Tip 1 14 1 2 Tip))"
  have p: "bal14 = plug [RF ?l 0 4 0 15] ?r" by (simp add: bal14_def)
  have b: "balanced ?r" using balanced_bal14 by (simp add: bal14_def)
  have r: "rootp ?r = Some 3" by simp
  from pr_inv_bal14 [of False] have "pr_inv (state_of int_cmp False bal14) (plug [RF ?l 0 4 0 15] ?r)"
    by (simp only: p [symmetric])
  from fixup_balanced_noop [OF this b r] show ?thesis .
qed

text \<open>
  C11 (functional): \<^verbatim>\<open>fixup\<close> rotates only where that shortens the paths. On
  a state that satisfies the tree invariant and whose internal path length is
  below \<open>2 ^ 32\<close>, \<^verbatim>\<open>fixup\<close> at any node returns and leaves the tree with
  the subtree of that node rebalanced. Where the rebalanced subtree is the
  subtree itself the state is unchanged; otherwise the value that
  \<^verbatim>\<open>pr_tree_pathlen\<close> returns afterwards is strictly smaller than before.
\<close>

theorem fixup_shortens_paths:
  assumes "pr_inv s (plug c t)" and "rootp t = Some a" and "ipl 0 (plug c t) < 2 ^ 32"
  shows "\<exists>s' p p'. fixup s a = Some s' \<and> repr s' (plug c (rebal t))
    \<and> pr_tree_pathlen s = Some p \<and> pr_tree_pathlen s' = Some p'
    \<and> (if rebal t = t then s' = s else p' < p)"
  using assms by (rule fixup_pathlen)

theorem fixup_shortens_paths_witness:
  "pr_inv (state_of int_cmp False chain3) (plug [] chain3) \<and> rootp chain3 = Some 0
   \<and> ipl 0 (plug [] chain3) < 2 ^ 32 \<and> rebal chain3 \<noteq> chain3
   \<and> (\<exists>s' p'. fixup (state_of int_cmp False chain3) 0 = Some s'
        \<and> repr s' (Nd (Nd Tip 0 10 1 2 Tip) 1 20 2 4 (Nd Tip 2 30 3 2 Tip))
        \<and> pr_tree_pathlen (state_of int_cmp False chain3) = Some 3
        \<and> pr_tree_pathlen s' = Some p' \<and> p' < 3)"
proof -
  let ?s = "state_of int_cmp False chain3"
  have inv: "pr_inv ?s (plug [] chain3)"
    by (simp, rule pr_inv_state_of) (simp_all add: chain3_def wt_inv_def int_cmp_def)
  have a: "rootp chain3 = Some 0" and b: "ipl 0 (plug [] chain3) < 2 ^ 32"
    and n: "rebal chain3 \<noteq> chain3"
    by (simp_all add: rebal_chain3) (simp_all add: chain3_def)
  from fixup_shortens_paths [OF inv a b] pr_tree_pathlen_refines [OF pr_invD(1) [OF inv]]
    inv a b n show ?thesis
    by (auto simp: rebal_chain3) (simp_all add: chain3_def)
qed

text \<open>
  Insertion and the path length, on the chain of \<open>PR_Insert\<close>: inserting key 30
  below the two-node chain lengthens the paths by at most the height plus
  one; here the rotation at the root even keeps the path length at 2.
\<close>

lemma insert_pathlen_chain2:
  "\<exists>s' p'. pr_tree_insert (state_of int_cmp False chain2) 30 3 0 (Some 2) = Some (0, s')
     \<and> pr_tree_pathlen (state_of int_cmp False chain2) = Some 1
     \<and> pr_tree_height (state_of int_cmp False chain2) = Some 1
     \<and> pr_tree_pathlen s' = Some p' \<and> unat p' \<le> 3"
proof -
  note inv = pr_inv_chain2 [of False]
  have "lookup_by (key_cmp (state_of int_cmp False chain2)) 30 (entries chain2) = None"
    "2 \<notin> dom (heap (state_of int_cmp False chain2))" "ipl 0 chain2 + size chain2 < 2 ^ 32"
    by (simp_all add: chain2_def int_cmp_def)
  from insert_pathlen [OF inv this, of 3 0] pr_tree_pathlen_refines [OF pr_invD(1) [OF inv]]
    pr_tree_height_refines [OF pr_invD(1) [OF inv]]
  show ?thesis by (auto simp: chain2_def)
qed

end
