(* ===== verification/PR_Nodes.thy ===== *)
theory PR_Nodes
  imports PR_Remove PR_Itor
begin

text \<open>
  Nodes keep their identity. Rotations relink nodes and never copy them, so a
  pointer to a node stays a pointer to the holder of the same key for as long
  as that key is in the dictionary. \<open>nodes\<close> lists the nodes of a tree in order,
  each with its address; \<open>kept c t t'\<close> says that every node of \<open>t\<close> whose key is
  still an entry of \<open>t'\<close> is a node of \<open>t'\<close> and holds that key. \<open>rank\<close> is the
  position of a key in a sorted list of entries.
\<close>

section \<open>Definitions\<close>

definition nodes :: "('k, 'v) ltree \<Rightarrow> (addr \<times> 'k \<times> 'v) list" where
  "nodes t = zip (addrs t) (entries t)"

definition rank :: "('k \<Rightarrow> 'k \<Rightarrow> int) \<Rightarrow> 'k \<Rightarrow> ('k \<times> 'v) list \<Rightarrow> nat" where
  "rank c k es = length (filter (\<lambda>p. c (fst p) k < 0) es)"

definition kept :: "('k \<Rightarrow> 'k \<Rightarrow> int) \<Rightarrow> ('k, 'v) ltree \<Rightarrow> ('k, 'v) ltree \<Rightarrow> bool" where
  "kept c t t' \<longleftrightarrow>
     (\<forall>(b, x, v) \<in> set (nodes t). lookup_by c x (entries t') \<noteq> None \<longrightarrow>
        (\<exists>(b', x', v') \<in> set (nodes t'). b' = b \<and> c x' x = 0))"

section \<open>Lemmas: the nodes of a tree\<close>

lemma nodes_Tip [simp]: "nodes Tip = []"
  by (simp add: nodes_def)

lemma nodes_Nd [simp]: "nodes (Nd l a k v w r) = nodes l @ (a, k, v) # nodes r"
  by (simp add: nodes_def)

lemma length_epost [simp]: "length (epost c) = length (cpost c)"
  by (induction c rule: cpost.induct) simp_all

lemma nodes_plug: "nodes (plug c t) = zip (cpre c) (epre c) @ nodes t @ zip (cpost c) (epost c)"
  by (simp add: nodes_def)

lemma nodes_cong: "addrs t' = addrs t \<Longrightarrow> entries t' = entries t \<Longrightarrow> nodes t' = nodes t"
  by (simp add: nodes_def)

lemma in_nodes_iff:
  "((a, e) \<in> set (nodes t)) = (\<exists>i. i < size t \<and> addrs t ! i = a \<and> entries t ! i = e)"
  by (auto simp: nodes_def in_set_zip)

lemma nth_in_nodes: "i < size t \<Longrightarrow> (addrs t ! i, entries t ! i) \<in> set (nodes t)"
  by (auto simp: in_nodes_iff)

section \<open>Lemmas: positions in a sorted list\<close>

lemma rank_eq_cong: "total_cmp c \<Longrightarrow> c k' k = 0 \<Longrightarrow> rank c k' es = rank c k es"
proof -
  assume c: "total_cmp c" and e: "c k' k = 0"
  then have "(c a k' < 0) = (c a k < 0)" for a
    by (metis cmp_lt_eq cmp_sym)
  then show ?thesis by (simp add: rank_def)
qed

lemma rank_nth:
  assumes c: "total_cmp c"
  shows "sorted_by c es \<Longrightarrow> i < length es \<Longrightarrow> rank c (fst (es ! i)) es = i"
proof (induction es arbitrary: i)
  case (Cons p ps)
  show ?case
  proof (cases i)
    case 0
    from Cons.prems(1) have "\<forall>q \<in> set ps. c (fst p) (fst q) < 0" by simp
    then have "\<forall>q \<in> set ps. \<not> c (fst q) (fst p) < 0"
      using cmp_antisym [OF c] by force
    then have "filter (\<lambda>q. c (fst q) (fst p) < 0) ps = []" by (simp add: filter_empty_conv)
    with 0 c show ?thesis by (simp add: rank_def)
  next
    case (Suc j)
    with Cons.prems have "c (fst p) (fst (ps ! j)) < 0" by simp
    with Suc Cons.IH [of j] Cons.prems show ?thesis by (simp add: rank_def)
  qed
qed simp

lemma nth_ptr_rank:
  assumes "total_cmp c" and "sorted_by c (entries t)" and "(a, x', v') \<in> set (nodes t)"
    and "c x' x = 0"
  shows "nth_ptr t (rank c x (entries t)) = Some a"
proof -
  from assms(3) obtain i where i: "i < size t" "addrs t ! i = a" "entries t ! i = (x', v')"
    by (auto simp: in_nodes_iff)
  from rank_nth [OF assms(1,2), of i] i rank_eq_cong [OF assms(1,4), of "entries t"]
  show ?thesis by (simp add: nth_ptr_def)
qed

section \<open>Lemmas: what the operations keep\<close>

lemma keptI:
  assumes "\<And>b x v. (b, x, v) \<in> set (nodes t) \<Longrightarrow> lookup_by c x (entries t') \<noteq> None \<Longrightarrow>
    \<exists>x' v'. (b, x', v') \<in> set (nodes t') \<and> c x' x = 0"
  shows "kept c t t'"
  unfolding kept_def using assms by fastforce

lemma keptD:
  assumes "kept c t t'" and "(b, x, v) \<in> set (nodes t)" and "lookup_by c x (entries t') \<noteq> None"
  obtains x' v' where "(b, x', v') \<in> set (nodes t')" and "c x' x = 0"
  using assms unfolding kept_def by fastforce

lemma kept_subset: "total_cmp c \<Longrightarrow> set (nodes t) \<subseteq> set (nodes t') \<Longrightarrow> kept c t t'"
  by (rule keptI) (auto intro: cmp_refl)

lemma kept_refl: "total_cmp c \<Longrightarrow> kept c t t"
  by (rule kept_subset) simp_all

lemma kept_Tip: "kept c t Tip"
  by (rule keptI) simp

lemma nodes_ins_vacant:
  assumes "wt_inv t" and p: "path_to c k t [] 0 = (ctx, Tip, rv)" and sz: "size t + 2 < 2 ^ 64"
  shows "set (nodes (ins c k v m t)) = insert (m, k, v) (set (nodes t))"
proof -
  from path_to_plug [OF p] have t: "t = plug ctx Tip" by simp
  then have nt: "nodes t = zip (cpre ctx) (epre ctx) @ zip (cpost ctx) (epost ctx)"
    by (simp add: nodes_plug)
  from assms(1) have "ctx_wt ctx 1" by (simp add: t wt_inv_def wt_ok_plug)
  with ins_up_keeps [of "Nd Tip m k v 2 Tip" ctx] sz
  have "nodes (ins_up ctx (Nd Tip m k v 2 Tip)) = nodes (plug ctx (Nd Tip m k v 2 Tip))"
    by (intro nodes_cong) (simp_all add: t size_plug)
  then show ?thesis by (simp add: ins_def p nodes_plug nt)
qed

lemma nodes_ins_found:
  assumes p: "path_to c k t [] 0 = (ctx, Nd l b x y w r, rv)"
  shows "set (nodes t) \<subseteq> insert (b, x, y) (set (nodes (ins c k v a t)))"
    and "(b, k, v) \<in> set (nodes (ins c k v a t))" and "c k x = 0"
proof -
  from path_to_plug [OF p] have "t = plug ctx (Nd l b x y w r)" by simp
  then have nt: "nodes t = zip (cpre ctx) (epre ctx) @ nodes (Nd l b x y w r)
      @ zip (cpost ctx) (epost ctx)"
    by (simp add: nodes_plug)
  show "set (nodes t) \<subseteq> insert (b, x, y) (set (nodes (ins c k v a t)))"
    and "(b, k, v) \<in> set (nodes (ins c k v a t))"
    by (auto simp: ins_def p nodes_plug nt)
  from path_to_lookup [OF p] show "c k x = 0" by simp
qed

lemma nodes_splice:
  "lx = Tip \<or> rx = Tip \<Longrightarrow>
   set (nodes (Nd lx a x v w rx)) = insert (a, x, v) (set (nodes (splice_out (Nd lx a x v w rx))))"
  by (cases lx) auto

lemma nodes_del_found:
  assumes inv: "wt_inv t" and p: "path_to c k t [] 0 = (ctx, Nd l a x v w r, rv)"
  shows "set (nodes t) = insert (a, x, v) (set (nodes (del c k t)))"
proof -
  let ?T = "Nd l a x v w r"
  let ?c' = "fst (sink_path ctx ?T)" and ?t' = "snd (sink_path ctx ?T)"
  from path_to_plug [OF p] have t: "t = plug ctx ?T" by simp
  note iT = wt_inv_plugD [OF inv [unfolded t]]
  from sink_shape [OF iT(1) refl, of ctx] obtain lx wx rx where
    t': "?t' = Nd lx a x v wx rx" and sh: "lx = Tip \<or> rx = Tip"
    by blast
  have D: "del c k t = plug (map dec_frame ?c') (splice_out ?t')"
    by (simp add: del_def p split: prod.splits)
  from sink_entries [OF iT(1), of ctx] have "nodes (plug ?c' ?t') = nodes t"
    by (intro nodes_cong) (simp_all only: t)
  then have "set (nodes t) = set (nodes (plug ?c' ?t'))" by simp
  also have "\<dots> = insert (a, x, v) (set (nodes (del c k t)))"
    unfolding D t' by (simp add: nodes_plug nodes_splice [OF sh] del: nodes_Nd splice_out.simps)
  finally show ?thesis .
qed

lemma kept_ins_vacant:
  "total_cmp c \<Longrightarrow> wt_inv t \<Longrightarrow> path_to c k t [] 0 = (ctx, Tip, rv) \<Longrightarrow> size t + 2 < 2 ^ 64 \<Longrightarrow>
   kept c t (ins c k v m t)"
  by (rule kept_subset) (auto simp: nodes_ins_vacant)

lemma kept_ins_found:
  assumes c: "total_cmp c" and p: "path_to c k t [] 0 = (ctx, Nd l b x y w r, rv)"
  shows "kept c t (ins c k v a t)"
proof (rule keptI)
  fix b' x' v' assume "(b', x', v') \<in> set (nodes t)"
  with nodes_ins_found(1) [OF p, of v a]
  consider "(b', x', v') = (b, x, y)" | "(b', x', v') \<in> set (nodes (ins c k v a t))" by blast
  then show "\<exists>x'' v''. (b', x'', v'') \<in> set (nodes (ins c k v a t)) \<and> c x'' x' = 0"
  proof cases
    case 1
    with nodes_ins_found(2) [OF p, of v a] nodes_ins_found(3) [OF p] show ?thesis by blast
  next
    case 2
    with c show ?thesis by (blast intro: cmp_refl)
  qed
qed

lemma kept_del:
  assumes c: "total_cmp c" and s: "sorted_by c (entries t)" and inv: "wt_inv t"
    and d: "distinct (addrs t)" and p: "path_to c k t [] 0 = (ctx, Nd l a x v w r, rv)"
  shows "kept c t (del c k t)"
proof (rule keptI)
  fix b' x' v'
  assume n: "(b', x', v') \<in> set (nodes t)" and "lookup_by c x' (entries (del c k t)) \<noteq> None"
  with lookup_by_del_by [OF c s, of x' k] del_found(2) [OF inv c s d p]
  have "c x' k \<noteq> 0" by (auto split: if_splits)
  moreover from path_to_lookup [OF p] have "c k x = 0" by simp
  ultimately have "(b', x', v') \<noteq> (a, x, v)" by (auto simp: cmp_sym [OF c])
  with n nodes_del_found [OF inv p] c
  show "\<exists>x'' v''. (b', x'', v'') \<in> set (nodes (del c k t)) \<and> c x'' x' = 0"
    by (blast intro: cmp_refl)
qed

section \<open>Lemmas: where a pointer stands afterwards\<close>

lemma nth_ptr_kept:
  assumes "total_cmp c" and "sorted_by c (entries t')" and "kept c t t'" and "i < size t"
    and "lookup_by c (fst (entries t ! i)) (entries t') \<noteq> None"
  shows "nth_ptr t' (rank c (fst (entries t ! i)) (entries t')) = nth_ptr t i"
proof -
  from nth_in_nodes [OF assms(4)]
  have "(addrs t ! i, fst (entries t ! i), snd (entries t ! i)) \<in> set (nodes t)" by simp
  from keptD [OF assms(3) this assms(5)] obtain x' v' where
    "(addrs t ! i, x', v') \<in> set (nodes t')" "c x' (fst (entries t ! i)) = 0"
    by blast
  from nth_ptr_rank [OF assms(1,2) this] assms(4) show ?thesis by (simp add: nth_ptr_def)
qed

lemma node_of_key:
  assumes "total_cmp c" and "sorted_by c (entries t)" and "(a, x, v) \<in> set (nodes t)"
    and "(a', x', v') \<in> set (nodes t)" and "c x' x = 0"
  shows "a' = a"
  using nth_ptr_rank [OF assms(1,2,3), of x] nth_ptr_rank [OF assms(1,2,4,5)] assms(1)
  by simp

end
