(* ===== verification/PR_Dict.thy ===== *)
theory PR_Dict
  imports PR_Life PR_Metrics PR_Nodes
begin

text \<open>
  The generic-dictionary layer of \<^verbatim>\<open>pr_tree.c\<close>: the dispatch table
  \<^verbatim>\<open>pr_tree_vtable\<close>, \<^verbatim>\<open>pr_dict_new\<close> and \<^verbatim>\<open>pr_dict_itor_new\<close>. The table is a
  function from operation names (one per slot, with the arguments of the call)
  to tree functions whose results are injected into one type. A dictionary is
  the tree object together with its table; the handles are allocated and freed
  in a set of live addresses. The operations are specified by a dictionary over
  a sorted association list (\<open>abs_dict\<close>); the theorems show that every call
  through the table implements it, keeps the tree invariant and leaves every
  node whose key stays in the dictionary where it was, for every sequence of
  calls.
\<close>

section \<open>The dispatch table\<close>

datatype ('k, 'v) dict_op =
  D_inew bool ptr | D_destroy | D_insert 'k 'v int ptr | D_probe 'k 'v ptr | D_search 'k
| D_csearch 'k | D_remove 'k | D_empty | D_walk "'k \<Rightarrow> 'v \<Rightarrow> bool" | D_count

datatype ('k, 'v) dict_res =
  Dr_itor "pr_itor option" | Dr_count count_t | Dr_int int | Dr_probe int 'v
| Dr_datum "'v option" | Dr_walk count_t "('k \<times> 'v) list"

text \<open>The state after a call is \<open>None\<close> when the call has freed the tree object.\<close>

type_synonym ('k, 'v) dict_fun =
  "('k, 'v) pr_state \<Rightarrow> (('k, 'v) dict_res \<times> ('k, 'v) pr_state option) option"

definition pr_tree_vtable :: "('k, 'v) dict_op \<Rightarrow> ('k, 'v) dict_fun" where
  "pr_tree_vtable op s =
     (case op of
        D_inew mem junk \<Rightarrow> map_option (\<lambda>i. (Dr_itor i, Some s)) (pr_itor_new s mem junk)
      | D_destroy \<Rightarrow> map_option (\<lambda>(n, h, f). (Dr_count n, None)) (pr_tree_destroy s)
      | D_insert k v ov m \<Rightarrow>
          map_option (\<lambda>(r, s'). (Dr_int r, Some s')) (pr_tree_insert s k v ov m)
      | D_probe k v m \<Rightarrow> map_option (\<lambda>(r, d, s'). (Dr_probe r d, Some s')) (pr_tree_probe s k v m)
      | D_search k \<Rightarrow> map_option (\<lambda>d. (Dr_datum d, Some s)) (pr_tree_search s k)
      | D_csearch k \<Rightarrow> map_option (\<lambda>d. (Dr_datum d, Some s)) (pr_tree_csearch s k)
      | D_remove k \<Rightarrow> map_option (\<lambda>(r, s'). (Dr_int r, Some s')) (pr_tree_remove s (Some k))
      | D_empty \<Rightarrow> map_option (\<lambda>(n, s'). (Dr_count n, Some s')) (pr_tree_empty s)
      | D_walk p \<Rightarrow> map_option (\<lambda>(n, seen). (Dr_walk n seen, Some s)) (pr_tree_walk s p)
      | D_count \<Rightarrow> Some (Dr_count (pr_tree_count s), Some s))"

section \<open>Dictionaries and cursors of the generic layer\<close>

record ('k, 'v) dict =
  dict_object :: "('k, 'v) pr_state"
  dict_vtable :: "('k, 'v) dict_op \<Rightarrow> ('k, 'v) dict_fun"

record ('k, 'v) dict_itor =
  itor_object :: pr_itor
  itor_vtable :: "('k, 'v) itor_op \<Rightarrow> ('k, 'v) itor_fun option"

text \<open>
  The handles of the generic layer are objects of their own, allocated with
  \<^verbatim>\<open>MALLOC\<close> and released with \<^verbatim>\<open>FREE\<close>. \<open>live\<close> is the set of the addresses
  of the handles that are allocated. As in \<open>node_new\<close>, \<^verbatim>\<open>MALLOC\<close> is given the
  address it returns, \<open>None\<close> for \<^verbatim>\<open>NULL\<close>; \<^verbatim>\<open>FREE\<close> removes the address from
  the set. \<^verbatim>\<open>pr_dict_new\<close> allocates the handle and then the tree (\<open>mem\<close> says
  whether that allocation succeeds, as in \<open>pr_tree_new\<close>) and frees the handle
  again when there is no tree; \<^verbatim>\<open>pr_dict_itor_new\<close> does the same with a
  cursor.
\<close>

definition pr_dict_new ::
  "('k \<Rightarrow> 'k \<Rightarrow> int) \<Rightarrow> ('k \<Rightarrow> 'k \<Rightarrow> int) option \<Rightarrow> bool \<Rightarrow> ptr \<Rightarrow> bool \<Rightarrow> addr set
    \<Rightarrow> ('k, 'v) dict option \<times> addr set" where
  "pr_dict_new dict_ptr_cmp cmp dl m mem live =
     (case m of
        None \<Rightarrow> (None, live)
      | Some dct \<Rightarrow>
          (case pr_tree_new dict_ptr_cmp cmp dl mem of
             None \<Rightarrow> (None, insert dct live - {dct})
           | Some tree \<Rightarrow>
               (Some \<lparr>dict_object = tree, dict_vtable = pr_tree_vtable\<rparr>, insert dct live)))"

definition pr_dict_itor_new ::
  "('k, 'v) pr_state \<Rightarrow> ptr \<Rightarrow> bool \<Rightarrow> ptr \<Rightarrow> addr set
    \<Rightarrow> (('k, 'v) dict_itor option \<times> addr set) option" where
  "pr_dict_itor_new s m mem junk live =
     (case m of
        None \<Rightarrow> Some (None, live)
      | Some itor \<Rightarrow> do {
          it \<leftarrow> pr_itor_new s mem junk;
          case it of
            None \<Rightarrow> Some (None, insert itor live - {itor})
          | Some i \<Rightarrow>
              Some (Some \<lparr>itor_object = i, itor_vtable = pr_tree_itor_vtable\<rparr>, insert itor live) })"

text \<open>A call through the table of a dictionary.\<close>

definition dict_call ::
  "('k, 'v) dict_op \<Rightarrow> ('k, 'v) dict \<Rightarrow> (('k, 'v) dict_res \<times> ('k, 'v) dict option) option" where
  "dict_call op d =
     map_option (\<lambda>(r, so). (r, map_option (\<lambda>s'. d\<lparr>dict_object := s'\<rparr>) so))
       (dict_vtable d op (dict_object d))"

text \<open>
  What the allocator may answer: \<^verbatim>\<open>NULL\<close>, or an address that is not in use,
  while fewer than \<open>2 ^ 64 - 2\<close> nodes are allocated.
\<close>

definition alloc_ok :: "('k, 'v) dict_op \<Rightarrow> ('k, 'v) pr_state \<Rightarrow> bool" where
  "alloc_ok op s =
     (let ok = (\<lambda>m. case m of None \<Rightarrow> True
                    | Some a \<Rightarrow> a \<notin> dom (heap s) \<and> card (dom (heap s)) + 2 < 2 ^ 64)
      in case op of D_insert k v ov m \<Rightarrow> ok m | D_probe k v m \<Rightarrow> ok m | _ \<Rightarrow> True)"

text \<open>
  The runs of a dictionary: sequences of calls through its table, recorded with
  their results, in which the allocator behaves.
\<close>

inductive dict_run ::
  "('k, 'v) dict \<Rightarrow> (('k, 'v) dict_op \<times> ('k, 'v) dict_res) list \<Rightarrow> ('k, 'v) dict \<Rightarrow> bool"
  for d0 :: "('k, 'v) dict" where
  start: "dict_run d0 [] d0"
| step: "dict_run d0 tr d \<Longrightarrow> alloc_ok op (dict_object d) \<Longrightarrow> dict_call op d = Some (r, Some d')
         \<Longrightarrow> dict_run d0 (tr @ [(op, r)]) d'"

section \<open>The dictionary over a sorted association list\<close>

datatype ('k, 'v) dict_ares = Ar_cursor "nat option" | Ar "('k, 'v) dict_res"

definition abs_dict ::
  "('k \<Rightarrow> 'k \<Rightarrow> int) \<Rightarrow> ('k, 'v) dict_op \<Rightarrow> ('k \<times> 'v) list
    \<Rightarrow> ('k, 'v) dict_ares \<times> ('k \<times> 'v) list option" where
  "abs_dict c op es =
     (case op of
        D_inew mem junk \<Rightarrow> (Ar_cursor (if mem then Some 0 else None), Some es)
      | D_destroy \<Rightarrow> (Ar (Dr_count (of_nat (length es))), None)
      | D_insert k v ov m \<Rightarrow>
          (case lookup_by c k es of
             None \<Rightarrow> (case m of None \<Rightarrow> (Ar (Dr_int (- 1)), Some es)
                       | Some a \<Rightarrow> (Ar (Dr_int 0), Some (upd_by c k v es)))
           | Some d \<Rightarrow> if ov \<noteq> 0 then (Ar (Dr_int 0), Some (upd_by c k v es))
                       else (Ar (Dr_int 1), Some es))
      | D_probe k v m \<Rightarrow>
          (case lookup_by c k es of
             None \<Rightarrow> (case m of None \<Rightarrow> (Ar (Dr_probe (- 1) v), Some es)
                       | Some a \<Rightarrow> (Ar (Dr_probe 1 v), Some (upd_by c k v es)))
           | Some d \<Rightarrow> (Ar (Dr_probe 0 d), Some es))
      | D_search k \<Rightarrow> (Ar (Dr_datum (lookup_by c k es)), Some es)
      | D_csearch k \<Rightarrow> (Ar (Dr_datum (lookup_by c k es)), Some es)
      | D_remove k \<Rightarrow>
          (case lookup_by c k es of
             None \<Rightarrow> (Ar (Dr_int (- 1)), Some es)
           | Some d \<Rightarrow> (Ar (Dr_int 0), Some (del_by c k es)))
      | D_empty \<Rightarrow> (Ar (Dr_count (of_nat (length es))), Some [])
      | D_walk p \<Rightarrow> (Ar (Dr_walk (of_nat (length (visited p es))) (visited p es)), Some es)
      | D_count \<Rightarrow> (Ar (Dr_count (of_nat (length es))), Some es))"

text \<open>
  The entries after a recorded run, if the abstract dictionary can make it:
  every recorded result must be the one the abstract dictionary gives (the
  identity of a new cursor is not compared).
\<close>

fun abs_trace ::
  "('k \<Rightarrow> 'k \<Rightarrow> int) \<Rightarrow> ('k \<times> 'v) list \<Rightarrow> (('k, 'v) dict_op \<times> ('k, 'v) dict_res) list
    \<Rightarrow> ('k \<times> 'v) list option" where
  "abs_trace c es [] = Some es"
| "abs_trace c es ((op, r) # tr) =
     (case abs_dict c op es of
        (a, None) \<Rightarrow> None
      | (Ar x, Some es') \<Rightarrow> if x = r then abs_trace c es' tr else None
      | (Ar_cursor p, Some es') \<Rightarrow> abs_trace c es' tr)"

text \<open>
  \<open>dict_sim m s t a\<close>: the concrete call \<open>m\<close> on state \<open>s\<close> with tree \<open>t\<close>
  delivers the abstract outcome \<open>a\<close>: the same result (a new cursor stands at
  the position the abstract result names), and a state that satisfies the tree
  invariant for the abstract entries, in which every node whose key is still
  an entry is the node it was; or no tree when the abstract dictionary is gone.
\<close>

definition dict_sim ::
  "(('k, 'v) dict_res \<times> ('k, 'v) pr_state option) option \<Rightarrow> ('k, 'v) pr_state \<Rightarrow> ('k, 'v) ltree
    \<Rightarrow> ('k, 'v) dict_ares \<times> ('k \<times> 'v) list option \<Rightarrow> bool" where
  "dict_sim m s t a =
     (\<exists>r so. m = Some (r, so)
        \<and> (case fst a of
              Ar x \<Rightarrow> r = x
            | Ar_cursor None \<Rightarrow> r = Dr_itor None
            | Ar_cursor (Some j) \<Rightarrow> r = Dr_itor (Some \<lparr>node = nth_ptr t j\<rparr>))
        \<and> (case snd a of
              None \<Rightarrow> so = None
            | Some es \<Rightarrow> (\<exists>s' t'. so = Some s' \<and> pr_inv s' t' \<and> entries t' = es
                            \<and> kept (key_cmp s) t t'
                            \<and> key_cmp s' = key_cmp s \<and> del_func s' = del_func s)))"

section \<open>Lemmas: every call implements the abstract dictionary\<close>

lemma dict_simI:
  fixes s s' :: "('k, 'v) pr_state" and t t' :: "('k, 'v) ltree"
  shows "m = Some (r, Some s') \<Longrightarrow> pr_inv s' t' \<Longrightarrow> entries t' = es \<Longrightarrow>
    key_cmp s' = key_cmp s \<Longrightarrow> del_func s' = del_func s \<Longrightarrow> kept (key_cmp s) t t' \<Longrightarrow>
    dict_sim m s t (Ar r, Some es)"
  unfolding dict_sim_def by (simp only: fst_conv snd_conv dict_ares.case option.case) blast

lemma dict_sim_same:
  "pr_inv s t \<Longrightarrow> m = Some (r, Some s) \<Longrightarrow> dict_sim m s t (Ar r, Some (entries t))"
  by (rule dict_simI [where t' = t]) (simp_all add: kept_refl pr_invD(3))

lemma card_heap: "pr_inv s t \<Longrightarrow> card (dom (heap s)) = size t"
  using distinct_card [of "addrs t"] by (simp add: pr_inv_def repr_def)

lemma alloc_okD:
  assumes "pr_inv s t" and "alloc_ok op s" and "op = D_insert k v ov (Some a) \<or> op = D_probe k v (Some a)"
  shows "a \<notin> dom (heap s)" and "size t + 2 < 2 ^ 64"
  using assms card_heap [OF assms(1)] by (auto simp: alloc_ok_def)

lemma sim_insert:
  fixes s :: "('k, 'v) pr_state"
  assumes inv: "pr_inv s t" and ok: "alloc_ok (D_insert k v ov m) s"
  shows "dict_sim (pr_tree_vtable (D_insert k v ov m) s) s t
    (abs_dict (key_cmp s) (D_insert k v ov m) (entries t))"
proof (cases "lookup_by (key_cmp s) k (entries t)")
  case None
  with inv obtain ctx rv where p: "path_to (key_cmp s) k t [] 0 = (ctx, Tip, rv)"
    by (rule lookup_by_vacant)
  show ?thesis
  proof (cases m)
    case N: None
    with None insert_nomem(1) [OF inv p, of v ov] dict_sim_same [OF inv] show ?thesis
      by (simp add: pr_tree_vtable_def abs_dict_def)
  next
    case (Some a)
    note A = alloc_okD [OF inv ok [unfolded Some], of k v ov a]
    from pr_tree_insert_vacant [OF inv p A(1,2), of v ov] obtain s' where
      run: "pr_tree_insert s k v ov (Some a) = Some (0, s')"
      and s': "pr_inv s' (ins (key_cmp s) k v a t)"
      "entries (ins (key_cmp s) k v a t) = upd_by (key_cmp s) k v (entries t)"
      "key_cmp s' = key_cmp s" "del_func s' = del_func s"
      by auto
    from dict_simI [OF refl s' kept_ins_vacant [OF pr_invD(3,2) [OF inv] p A(2)]] None Some run
    show ?thesis
      by (simp add: pr_tree_vtable_def abs_dict_def)
  qed
next
  case (Some y)
  with inv obtain ctx l b x w r rv where
    p: "path_to (key_cmp s) k t [] 0 = (ctx, Nd l b x y w r, rv)"
    by (rule lookup_by_found)
  show ?thesis
  proof (cases "ov = 0")
    case True
    with Some insert_found(1) [OF inv p, of v m] dict_sim_same [OF inv] show ?thesis
      by (simp add: pr_tree_vtable_def abs_dict_def)
  next
    case False
    from pr_tree_insert_overwrite [OF inv p False, of v m b] obtain s' where
      run: "pr_tree_insert s k v ov m = Some (0, s')"
      and s': "pr_inv s' (ins (key_cmp s) k v b t)"
      "entries (ins (key_cmp s) k v b t) = upd_by (key_cmp s) k v (entries t)"
      "key_cmp s' = key_cmp s" "del_func s' = del_func s"
      by auto
    from dict_simI [OF refl s' kept_ins_found [OF pr_invD(3) [OF inv] p]] Some False run
    show ?thesis
      by (simp add: pr_tree_vtable_def abs_dict_def)
  qed
qed

lemma sim_probe:
  fixes s :: "('k, 'v) pr_state"
  assumes inv: "pr_inv s t" and ok: "alloc_ok (D_probe k v m) s"
  shows "dict_sim (pr_tree_vtable (D_probe k v m) s) s t
    (abs_dict (key_cmp s) (D_probe k v m) (entries t))"
proof (cases "lookup_by (key_cmp s) k (entries t)")
  case None
  with inv obtain ctx rv where p: "path_to (key_cmp s) k t [] 0 = (ctx, Tip, rv)"
    by (rule lookup_by_vacant)
  show ?thesis
  proof (cases m)
    case N: None
    with None insert_nomem(2) [OF inv p, of v] dict_sim_same [OF inv] show ?thesis
      by (simp add: pr_tree_vtable_def abs_dict_def)
  next
    case (Some a)
    note A = alloc_okD [OF inv ok [unfolded Some], of k v 0 a]
    from pr_tree_probe_vacant [OF inv p A(1,2), of v] obtain s' where
      run: "pr_tree_probe s k v (Some a) = Some (1, v, s')"
      and s': "pr_inv s' (ins (key_cmp s) k v a t)"
      "entries (ins (key_cmp s) k v a t) = upd_by (key_cmp s) k v (entries t)"
      "key_cmp s' = key_cmp s" "del_func s' = del_func s"
      by auto
    from dict_simI [OF refl s' kept_ins_vacant [OF pr_invD(3,2) [OF inv] p A(2)]] None Some run
    show ?thesis
      by (simp add: pr_tree_vtable_def abs_dict_def)
  qed
next
  case (Some y)
  with inv obtain ctx l b x w r rv where
    p: "path_to (key_cmp s) k t [] 0 = (ctx, Nd l b x y w r, rv)"
    by (rule lookup_by_found)
  with Some insert_found(2) [OF inv p, of v m] dict_sim_same [OF inv] show ?thesis
    by (simp add: pr_tree_vtable_def abs_dict_def)
qed

lemma sim_remove:
  fixes s :: "('k, 'v) pr_state"
  assumes inv: "pr_inv s t"
  shows "dict_sim (pr_tree_vtable (D_remove k) s) s t (abs_dict (key_cmp s) (D_remove k) (entries t))"
proof (cases "lookup_by (key_cmp s) k (entries t)")
  case None
  with inv obtain ctx rv where p: "path_to (key_cmp s) k t [] 0 = (ctx, Tip, rv)"
    by (rule lookup_by_vacant)
  with None pr_tree_remove_vacant [OF inv p] dict_sim_same [OF inv] show ?thesis
    by (simp add: pr_tree_vtable_def abs_dict_def)
next
  case (Some y)
  with inv obtain ctx l b x w r rv where
    p: "path_to (key_cmp s) k t [] 0 = (ctx, Nd l b x y w r, rv)"
    by (rule lookup_by_found)
  from pr_tree_remove_found [OF inv p] obtain s' where
    run: "pr_tree_remove s (Some k) = Some (0, s')"
    and s': "pr_inv s' (del (key_cmp s) k t)"
    "entries (del (key_cmp s) k t) = del_by (key_cmp s) k (entries t)"
    "key_cmp s' = key_cmp s" "del_func s' = del_func s"
    by auto
  note I = pr_invD [OF inv]
  from dict_simI [OF refl s' kept_del [OF I(3,4,2) reprD(3) [OF I(1)] p]] Some run show ?thesis
    by (simp add: pr_tree_vtable_def abs_dict_def)
qed

lemma sim_empty:
  fixes s :: "('k, 'v) pr_state"
  assumes inv: "pr_inv s t"
  shows "dict_sim (pr_tree_vtable D_empty s) s t (abs_dict (key_cmp s) D_empty (entries t))"
proof -
  from pr_tree_empty_inv [OF inv] obtain s' where
    run: "pr_tree_empty s = Some (of_nat (size t), s')"
    and s': "pr_inv s' Tip" "key_cmp s' = key_cmp s" "del_func s' = del_func s"
    by auto
  from dict_simI [OF refl s'(1) _ s'(2,3) kept_Tip, of "[]"] run show ?thesis
    by (simp add: pr_tree_vtable_def abs_dict_def)
qed

lemma vtable_sim:
  fixes s :: "('k, 'v) pr_state"
  assumes inv: "pr_inv s t" and ok: "alloc_ok op s"
  shows "dict_sim (pr_tree_vtable op s) s t (abs_dict (key_cmp s) op (entries t))"
proof (cases op)
  case (D_inew mem junk)
  with inv pr_itor_new_refines [OF pr_invD(1) [OF inv], of junk] kept_refl [OF pr_invD(3) [OF inv], of t]
  show ?thesis
    by (auto simp: pr_tree_vtable_def abs_dict_def dict_sim_def)
next
  case D_destroy
  with pr_tree_destroy_refines [OF inv] show ?thesis
    by (simp add: pr_tree_vtable_def abs_dict_def dict_sim_def)
next
  case (D_insert k v ov m)
  with sim_insert [OF inv] ok show ?thesis by simp
next
  case (D_probe k v m)
  with sim_probe [OF inv] ok show ?thesis by simp
next
  case (D_search k)
  with pr_tree_search_refines [OF pr_invD(1) [OF inv], of k] lookup_sorted [OF pr_invD(3,4) [OF inv], of k]
    dict_sim_same [OF inv] show ?thesis
    by (simp add: pr_tree_vtable_def abs_dict_def)
next
  case (D_csearch k)
  with pr_tree_search_refines [OF pr_invD(1) [OF inv], of k] lookup_sorted [OF pr_invD(3,4) [OF inv], of k]
    dict_sim_same [OF inv] show ?thesis
    by (simp add: pr_tree_vtable_def abs_dict_def pr_tree_csearch_def)
next
  case (D_remove k)
  with sim_remove [OF inv] show ?thesis by simp
next
  case D_empty
  with sim_empty [OF inv] show ?thesis by simp
next
  case (D_walk p)
  with pr_tree_walk_refines [OF pr_invD(1) [OF inv], of p] dict_sim_same [OF inv] show ?thesis
    by (simp add: pr_tree_vtable_def abs_dict_def)
next
  case D_count
  with pr_invD(5) [OF inv] dict_sim_same [OF inv] show ?thesis
    by (simp add: pr_tree_vtable_def abs_dict_def pr_tree_count_def)
qed

section \<open>Lemmas: runs\<close>

lemma abs_trace_snoc:
  "abs_trace c es (tr @ [(op, r)]) =
     (case abs_trace c es tr of None \<Rightarrow> None | Some es' \<Rightarrow> abs_trace c es' [(op, r)])"
  by (induction c es tr rule: abs_trace.induct)
    (auto split: prod.splits option.splits dict_ares.splits)

lemma dict_sim_step:
  fixes s s' :: "('k, 'v) pr_state" and t :: "('k, 'v) ltree"
  assumes "dict_sim m s t (abs_dict c op es)" and "m = Some (r, Some s')"
  shows "\<exists>t'. pr_inv s' t' \<and> abs_trace c es [(op, r)] = Some (entries t')
    \<and> key_cmp s' = key_cmp s \<and> del_func s' = del_func s"
  using assms unfolding dict_sim_def
  by (cases "abs_dict c op es")
    (auto split: dict_ares.splits option.splits)

lemma dict_call_vtable:
  "dict_vtable d = pr_tree_vtable \<Longrightarrow> dict_call op d = Some (r, Some d') \<Longrightarrow>
   \<exists>s'. pr_tree_vtable op (dict_object d) = Some (r, Some s') \<and> d' = d\<lparr>dict_object := s'\<rparr>"
  by (auto simp: dict_call_def)

lemma dict_run_inv:
  fixes d0 d :: "('k, 'v) dict"
  assumes "dict_run d0 tr d" and "dict_vtable d0 = pr_tree_vtable" and "pr_inv (dict_object d0) t0"
  shows "dict_vtable d = pr_tree_vtable \<and> key_cmp (dict_object d) = key_cmp (dict_object d0)
    \<and> del_func (dict_object d) = del_func (dict_object d0)
    \<and> (\<exists>t. pr_inv (dict_object d) t
          \<and> abs_trace (key_cmp (dict_object d0)) (entries t0) tr = Some (entries t))"
  using assms
proof (induction rule: dict_run.induct)
  case start
  then show ?case by auto
next
  case (step tr d op r d')
  from step.IH [OF step.prems] obtain t where
    d: "dict_vtable d = pr_tree_vtable" "key_cmp (dict_object d) = key_cmp (dict_object d0)"
    "del_func (dict_object d) = del_func (dict_object d0)" "pr_inv (dict_object d) t"
    "abs_trace (key_cmp (dict_object d0)) (entries t0) tr = Some (entries t)"
    by blast
  from dict_call_vtable [OF d(1) step.hyps(3)] obtain s' where
    s': "pr_tree_vtable op (dict_object d) = Some (r, Some s')" "d' = d\<lparr>dict_object := s'\<rparr>"
    by blast
  from dict_sim_step [OF vtable_sim [OF d(4) step.hyps(2)] s'(1)] obtain t' where
    "pr_inv s' t'" "abs_trace (key_cmp (dict_object d)) (entries t) [(op, r)] = Some (entries t')"
    "key_cmp s' = key_cmp (dict_object d)" "del_func s' = del_func (dict_object d)"
    by blast
  with d s'(2) show ?case by (auto simp: abs_trace_snoc)
qed

lemma pr_dict_new_cases:
  fixes dflt :: "'k \<Rightarrow> 'k \<Rightarrow> int"
  shows "pr_dict_new dflt cmp dl m mem live =
    (case m of
       None \<Rightarrow> (None, live)
     | Some dct \<Rightarrow>
         if mem
         then (Some \<lparr>dict_object = \<lparr>root = None, count = 0,
                       key_cmp = (case cmp of None \<Rightarrow> dflt | Some c \<Rightarrow> c), del_func = dl,
                       heap = Map.empty, freed = []\<rparr>,
                     dict_vtable = pr_tree_vtable\<rparr>, insert dct live)
         else (None, live - {dct}))"
  by (simp add: pr_dict_new_def pr_tree_new_def split: option.splits)

lemma pr_dict_itor_new_refines:
  assumes "repr s t"
  shows "pr_dict_itor_new s m mem junk live =
    Some (case m of
            None \<Rightarrow> (None, live)
          | Some itor \<Rightarrow>
              if mem
              then (Some \<lparr>itor_object = \<lparr>node = nth_ptr t 0\<rparr>, itor_vtable = pr_tree_itor_vtable\<rparr>,
                    insert itor live)
              else (None, live - {itor}))"
  using pr_itor_new_refines [OF assms, of junk]
  by (simp add: pr_dict_itor_new_def split: option.splits)

lemma abs_dict_gone: "(snd (abs_dict c op es) = None) = (op = D_destroy)"
  by (cases op) (simp_all add: abs_dict_def split: option.splits)

lemma vtable_total:
  fixes s :: "('k, 'v) pr_state"
  assumes "pr_inv s t" and "alloc_ok op s"
  shows "\<exists>r so. pr_tree_vtable op s = Some (r, so) \<and>
    (case so of
       None \<Rightarrow> op = D_destroy
     | Some s' \<Rightarrow> op \<noteq> D_destroy \<and> (\<exists>t'. pr_inv s' t') \<and> key_cmp s' = key_cmp s
         \<and> del_func s' = del_func s)"
proof (cases "op = D_destroy")
  case True
  with pr_tree_destroy_refines [OF assms(1)] show ?thesis by (simp add: pr_tree_vtable_def)
next
  case False
  then obtain a es where a: "abs_dict (key_cmp s) op (entries t) = (a, Some es)"
    using abs_dict_gone [of "key_cmp s" op "entries t"]
    by (cases "abs_dict (key_cmp s) op (entries t)") auto
  from vtable_sim [OF assms] False show ?thesis
    unfolding dict_sim_def a by (auto split: option.splits)
qed

text \<open>Every run can be continued by every operation the allocator permits.\<close>

lemma dict_run_extend:
  fixes d0 d :: "('k, 'v) dict"
  assumes "dict_run d0 tr d" and "dict_vtable d0 = pr_tree_vtable" and "pr_inv (dict_object d0) t0"
    and "alloc_ok op (dict_object d)" and "op \<noteq> D_destroy"
  shows "\<exists>r d'. dict_run d0 (tr @ [(op, r)]) d'"
proof -
  from dict_run_inv [OF assms(1-3)] obtain t where
    d: "dict_vtable d = pr_tree_vtable" "pr_inv (dict_object d) t" by blast
  from vtable_total [OF d(2) assms(4)] assms(5) obtain r s' where
    "pr_tree_vtable op (dict_object d) = Some (r, Some s')"
    by (auto split: option.splits)
  with d(1) have "dict_call op d = Some (r, Some (d\<lparr>dict_object := s'\<rparr>))"
    by (simp add: dict_call_def)
  from dict_run.step [OF assms(1,4) this] show ?thesis by blast
qed

section \<open>Properties\<close>

definition ex_dict :: "(int, nat) dict" where
  "ex_dict = \<lparr>dict_object = state_of int_cmp True Tip, dict_vtable = pr_tree_vtable\<rparr>"

lemma ex_dict_inv: "dict_vtable ex_dict = pr_tree_vtable" "pr_inv (dict_object ex_dict) Tip"
  by (simp_all add: ex_dict_def pr_inv_state_of)

text \<open>
  C3 (refinement): the dictionary implements a sorted association list. For a
  dictionary whose table is \<^verbatim>\<open>pr_tree_vtable\<close> and whose tree satisfies the
  tree invariant, after every run of calls through the table (with an
  allocator that answers \<^verbatim>\<open>NULL\<close> or a fresh address) the table, the
  comparator and the deleter are unchanged, the tree satisfies the tree
  invariant, every recorded result is the result of the abstract dictionary
  \<open>abs_dict\<close>, and the in-order entries are the abstract entries after the run.
\<close>

theorem dict_run_refines:
  fixes d0 d :: "('k, 'v) dict"
  assumes "dict_run d0 tr d" and "dict_vtable d0 = pr_tree_vtable" and "pr_inv (dict_object d0) t0"
  shows "dict_vtable d = pr_tree_vtable \<and> key_cmp (dict_object d) = key_cmp (dict_object d0)
    \<and> del_func (dict_object d) = del_func (dict_object d0)
    \<and> (\<exists>t. pr_inv (dict_object d) t
          \<and> abs_trace (key_cmp (dict_object d0)) (entries t0) tr = Some (entries t))"
  using assms by (rule dict_run_inv)

theorem dict_run_refines_witness:
  "\<exists>r1 r2 d t. dict_run ex_dict [(D_insert 10 1 0 (Some 0), r1), (D_probe 10 5 None, r2)] d
     \<and> r1 = Dr_int 0 \<and> r2 = Dr_probe 0 1 \<and> repr (dict_object d) t \<and> entries t = [(10, 1)]"
proof -
  note E = ex_dict_inv
  have "alloc_ok (D_insert 10 1 0 (Some 0)) (dict_object ex_dict)"
    by (simp add: alloc_ok_def ex_dict_def)
  from dict_run_extend [OF dict_run.start E this] obtain r1 d1 where
    r1: "dict_run ex_dict [(D_insert 10 1 0 (Some 0), r1)] d1" by auto
  have "alloc_ok (D_probe 10 5 None) (dict_object d1)" by (simp add: alloc_ok_def)
  from dict_run_extend [OF r1 E this] obtain r2 d2 where
    r2: "dict_run ex_dict [(D_insert 10 1 0 (Some 0), r1), (D_probe 10 5 None, r2)] d2" by auto
  from dict_run_refines [OF r2 E] obtain t where "pr_inv (dict_object d2) t"
    "abs_trace int_cmp [] [(D_insert 10 1 0 (Some 0), r1), (D_probe 10 5 None, r2)] = Some (entries t)"
    by (auto simp: ex_dict_def)
  then have "r1 = Dr_int 0 \<and> r2 = Dr_probe 0 1 \<and> repr (dict_object d2) t \<and> entries t = [(10, 1)]"
    by (auto simp: abs_dict_def int_cmp_def dest: pr_invD(1) split: if_splits)
  with r2 show ?thesis by blast
qed

text \<open>
  C15 (type): the tree invariant is the well-formedness condition of the
  dictionary. On a state that satisfies it, every call through a slot of
  \<^verbatim>\<open>pr_tree_vtable\<close> returns, provided the allocator answers \<^verbatim>\<open>NULL\<close> or a
  fresh address; the state after the call satisfies the invariant again, with
  the same comparator and deleter; only \<^verbatim>\<open>destroy\<close> leaves no tree.
\<close>

theorem vtable_preserves_inv:
  fixes s :: "('k, 'v) pr_state"
  assumes "pr_inv s t" and "alloc_ok op s"
  shows "\<exists>r so. pr_tree_vtable op s = Some (r, so) \<and>
    (case so of
       None \<Rightarrow> op = D_destroy
     | Some s' \<Rightarrow> op \<noteq> D_destroy \<and> (\<exists>t'. pr_inv s' t') \<and> key_cmp s' = key_cmp s
         \<and> del_func s' = del_func s)"
  using assms by (rule vtable_total)

theorem vtable_preserves_inv_witness:
  "\<exists>r s' t'. pr_tree_vtable (D_remove 20) ex_state = Some (r, Some s') \<and> pr_inv s' t'"
proof -
  have "alloc_ok (D_remove 20) ex_state" by (simp add: alloc_ok_def)
  from vtable_preserves_inv [OF pr_inv_ex_state this] show ?thesis
    by (auto split: option.splits)
qed

text \<open>
  C40 (error): \<^verbatim>\<open>pr_dict_new\<close>. \<^verbatim>\<open>MALLOC\<close> returns \<^verbatim>\<open>NULL\<close> or the address
  of a handle that is not allocated. If both allocations succeed the result is
  a dictionary with the table \<^verbatim>\<open>pr_tree_vtable\<close> and an empty tree that
  satisfies the tree invariant under the given comparator (the default
  comparator when none is given) and deleter, and the new handle is the one
  handle allocated in addition. If either allocation fails the result is
  \<^verbatim>\<open>NULL\<close> and the set of allocated handles is what it was: the handle is
  freed when the tree cannot be allocated.
\<close>

theorem pr_dict_new_correct:
  fixes dflt :: "'k \<Rightarrow> 'k \<Rightarrow> int"
  assumes "total_cmp (case cmp of None \<Rightarrow> dflt | Some c \<Rightarrow> c)" and "\<forall>a. m = Some a \<longrightarrow> a \<notin> live"
  shows "case pr_dict_new dflt cmp dl m mem live :: ('k, 'v) dict option \<times> addr set of
      (None, live') \<Rightarrow> live' = live \<and> (m = None \<or> \<not> mem)
    | (Some d, live') \<Rightarrow> (\<exists>a. m = Some a \<and> live' = insert a live) \<and> mem
        \<and> dict_vtable d = pr_tree_vtable
        \<and> pr_inv (dict_object d) Tip \<and> del_func (dict_object d) = dl
        \<and> key_cmp (dict_object d) = (case cmp of None \<Rightarrow> dflt | Some c \<Rightarrow> c)"
  using assms by (cases m) (simp_all add: pr_dict_new_cases pr_inv_def)

theorem pr_dict_new_correct_witness:
  "(\<exists>d. (pr_dict_new int_cmp None True (Some 7) True {3} :: (int, nat) dict option \<times> addr set)
          = (Some d, {3, 7}) \<and> key_cmp (dict_object d) = int_cmp)
   \<and> (pr_dict_new int_cmp None True (Some 7) False {3} :: (int, nat) dict option \<times> addr set)
       = (None, {3})
   \<and> (pr_dict_new int_cmp None True None True {3} :: (int, nat) dict option \<times> addr set)
       = (None, {3})"
  using pr_dict_new_correct [where 'v = nat and cmp = None and dflt = int_cmp and dl = True
      and m = "Some 7" and mem = True and live = "{3}"]
    pr_dict_new_correct [where 'v = nat and cmp = None and dflt = int_cmp and dl = True
      and m = "Some 7" and mem = False and live = "{3}"]
    pr_dict_new_correct [where 'v = nat and cmp = None and dflt = int_cmp and dl = True
      and m = None and mem = True and live = "{3}"]
  by (auto split: option.splits prod.splits)

end
