(* ===== verification/PR_Client.thy ===== *)
theory PR_Client
  imports PR_Dict
begin

text \<open>
  A dictionary and a cursor used together. The client of \<^verbatim>\<open>pr_tree.c\<close> holds a
  tree and a cursor bound to it, and interleaves calls through the table of
  the tree (\<open>Dict\<close>), calls through the table of the cursor (\<open>Itor\<close>) and
  \<^verbatim>\<open>pr_itor_search\<close> (\<open>Seek\<close>), which has no slot. \<^verbatim>\<open>pr_tree_remove\<close> and
  \<^verbatim>\<open>pr_tree_empty\<close> free nodes without looking for cursors, so a run is
  \<open>permitted\<close> only while no call frees the node under the cursor. The
  specification is a sorted association list with a position; after a call
  that changes the dictionary the position is the \<open>rank\<close> of the key the cursor
  stood on. The theorems show that permitted runs implement it, that every
  permitted call returns, and that the restriction is needed.
\<close>

section \<open>The client machine\<close>

datatype ('k, 'v) client_op = Dict "('k, 'v) dict_op" | Itor "('k, 'v) itor_op" | Seek 'k

datatype ('k, 'v) client_res = Cr_dict "('k, 'v) dict_res" | Cr_itor "('k, 'v) itor_res"

type_synonym ('k, 'v) client = "('k, 'v) pr_state \<times> pr_itor"

text \<open>A call; the second result is \<open>None\<close> when the call has freed the tree or the cursor.\<close>

definition client_call ::
  "('k, 'v) client_op \<Rightarrow> ('k, 'v) client \<Rightarrow> (('k, 'v) client_res \<times> ('k, 'v) client option) option" where
  "client_call op cl =
     (case op of
        Dict d \<Rightarrow> map_option (\<lambda>(r, so). (Cr_dict r, map_option (\<lambda>s'. (s', snd cl)) so))
                    (pr_tree_vtable d (fst cl))
      | Itor i \<Rightarrow> map_option (\<lambda>(r, s', c). (Cr_itor r, map_option (\<lambda>it'. (s', it')) c))
                    (itor_call i (fst cl) (snd cl))
      | Seek k \<Rightarrow> map_option (\<lambda>(r, it'). (Cr_itor (R_int r), Some (fst cl, it')))
                    (pr_itor_search (fst cl) (snd cl) k))"

text \<open>
  A call through the tree table keeps the cursor when the cursor is unbound, or
  the call is not \<^verbatim>\<open>empty\<close> and does not remove the key under the cursor.
\<close>

definition keeps_cursor :: "('k, 'v) dict_op \<Rightarrow> ('k, 'v) pr_state \<Rightarrow> pr_itor \<Rightarrow> bool" where
  "keeps_cursor d s it =
     (case node it of
        None \<Rightarrow> True
      | Some a \<Rightarrow>
          (case d of
             D_remove k \<Rightarrow> (case heap s a of None \<Rightarrow> False | Some n \<Rightarrow> key_cmp s k (key n) \<noteq> 0)
           | D_empty \<Rightarrow> False
           | _ \<Rightarrow> True))"

definition permitted :: "('k, 'v) client_op \<Rightarrow> ('k, 'v) client \<Rightarrow> bool" where
  "permitted op cl =
     (case op of Dict d \<Rightarrow> alloc_ok d (fst cl) \<and> keeps_cursor d (fst cl) (snd cl) | _ \<Rightarrow> True)"

inductive client_run ::
  "('k, 'v) client \<Rightarrow> (('k, 'v) client_op \<times> ('k, 'v) client_res) list \<Rightarrow> ('k, 'v) client \<Rightarrow> bool"
  for c0 :: "('k, 'v) client" where
  start: "client_run c0 [] c0"
| step: "client_run c0 tr cl \<Longrightarrow> permitted op cl \<Longrightarrow> client_call op cl = Some (r, Some cl')
         \<Longrightarrow> client_run c0 (tr @ [(op, r)]) cl'"

section \<open>The specification: a sorted list with a position\<close>

datatype ('k, 'v) client_ares = Ca_dict "('k, 'v) dict_ares" | Ca_itor "('k, 'v) itor_res"

type_synonym ('k, 'v) aclient = "('k \<times> 'v) list \<times> nat"

text \<open>Where the cursor stands in the new entries: on the key it stood on.\<close>

definition follow :: "('k \<Rightarrow> 'k \<Rightarrow> int) \<Rightarrow> ('k, 'v) aclient \<Rightarrow> ('k \<times> 'v) list \<Rightarrow> nat" where
  "follow c a es' =
     (case a of (es, i) \<Rightarrow> if i < length es then rank c (fst (es ! i)) es' else length es')"

definition abs_client ::
  "('k \<Rightarrow> 'k \<Rightarrow> int) \<Rightarrow> ('k, 'v) client_op \<Rightarrow> ('k, 'v) aclient
    \<Rightarrow> (('k, 'v) client_ares \<times> ('k, 'v) aclient option) option" where
  "abs_client c op a =
     (case op of
        Dict d \<Rightarrow> (case abs_dict c d (fst a) of
                     (r, eso) \<Rightarrow> Some (Ca_dict r, map_option (\<lambda>es'. (es', follow c a es')) eso))
      | Itor i \<Rightarrow> map_option (\<lambda>(r, es', p). (Ca_itor r, map_option (\<lambda>j. (es', j)) p))
                    (abs_call i (fst a) (snd a))
      | Seek k \<Rightarrow>
          (case lookup_by c k (fst a) of
             None \<Rightarrow> Some (Ca_itor (R_int 0), Some (fst a, length (fst a)))
           | Some v \<Rightarrow> Some (Ca_itor (R_int 1), Some (fst a, rank c k (fst a)))))"

text \<open>The abstract form of \<open>permitted\<close>: the entry under the cursor stays in the list.\<close>

definition abs_permitted ::
  "('k \<Rightarrow> 'k \<Rightarrow> int) \<Rightarrow> ('k, 'v) client_op \<Rightarrow> ('k, 'v) aclient \<Rightarrow> bool" where
  "abs_permitted c op a =
     (case op of
        Dict d \<Rightarrow> (case a of (es, i) \<Rightarrow>
                     i < length es \<longrightarrow>
                     (case snd (abs_dict c d es) of
                        None \<Rightarrow> True
                      | Some es' \<Rightarrow> lookup_by c (fst (es ! i)) es' \<noteq> None))
      | _ \<Rightarrow> True)"

text \<open>Results agree; a new cursor is compared by whether there is one.\<close>

fun res_ok :: "('k, 'v) client_res \<Rightarrow> ('k, 'v) client_ares \<Rightarrow> bool" where
  "res_ok (Cr_dict (Dr_itor c)) (Ca_dict (Ar_cursor p)) = ((c = None) = (p = None))"
| "res_ok (Cr_dict r) (Ca_dict (Ar x)) = (r = x)"
| "res_ok (Cr_itor r) (Ca_itor x) = (r = x)"
| "res_ok r a = False"

fun abs_run ::
  "('k \<Rightarrow> 'k \<Rightarrow> int) \<Rightarrow> ('k, 'v) aclient \<Rightarrow> (('k, 'v) client_op \<times> ('k, 'v) client_res) list
    \<Rightarrow> ('k, 'v) aclient option" where
  "abs_run c a [] = Some a"
| "abs_run c a ((op, r) # tr) =
     (case abs_client c op a of
        Some (x, Some a') \<Rightarrow> if abs_permitted c op a \<and> res_ok r x then abs_run c a' tr else None
      | _ \<Rightarrow> None)"

text \<open>The client \<open>cl\<close> holds the entries and stands at the position of \<open>a\<close>.\<close>

definition client_rel :: "('k, 'v) client \<Rightarrow> ('k, 'v) aclient \<Rightarrow> bool" where
  "client_rel cl a \<longleftrightarrow>
     (\<exists>t. pr_inv (fst cl) t \<and> entries t = fst a \<and> snd a \<le> size t
        \<and> node (snd cl) = nth_ptr t (snd a))"

text \<open>What a call must deliver to implement an abstract outcome.\<close>

definition client_sim ::
  "(('k, 'v) client_res \<times> ('k, 'v) client option) option \<Rightarrow> ('k \<Rightarrow> 'k \<Rightarrow> int)
    \<Rightarrow> (('k, 'v) client_ares \<times> ('k, 'v) aclient option) option \<Rightarrow> bool" where
  "client_sim m c x =
     (case x of
        None \<Rightarrow> m = None
      | Some (ar, ao) \<Rightarrow>
          (\<exists>r co. m = Some (r, co) \<and> res_ok r ar
             \<and> (case ao of
                   None \<Rightarrow> co = None
                 | Some a' \<Rightarrow> (\<exists>cl'. co = Some cl' \<and> client_rel cl' a' \<and> key_cmp (fst cl') = c))))"

section \<open>Lemmas: the entry under the cursor\<close>

lemma lookup_by_mem:
  assumes c: "total_cmp c"
  shows "sorted_by c es \<Longrightarrow> (x, v) \<in> set es \<Longrightarrow> c k x = 0 \<Longrightarrow> lookup_by c k es = Some v"
proof (induction es)
  case (Cons p ps)
  obtain a b where p: "p = (a, b)" by (cases p)
  show ?case
  proof (cases "(x, v) = (a, b)")
    case True
    with Cons.prems p show ?thesis by simp
  next
    case False
    with Cons.prems p have m: "(x, v) \<in> set ps" and "c a x < 0" by auto
    with Cons.prems(3) have "c a k < 0" by (auto intro: cmp_lt_eq [OF c] simp: cmp_sym [OF c, of k x])
    then have "c k a \<noteq> 0" using cmp_sym [OF c, of k a] by auto
    with Cons.IH [OF _ m Cons.prems(3)] Cons.prems(1) p show ?thesis by simp
  qed
qed simp

lemma lookup_by_nth:
  "total_cmp c \<Longrightarrow> sorted_by c es \<Longrightarrow> i < length es \<Longrightarrow>
   lookup_by c (fst (es ! i)) es = Some (snd (es ! i))"
  by (rule lookup_by_mem) (auto simp: in_set_conv_nth intro: cmp_refl)

text \<open>The node of a heap cell.\<close>

lemma heap_node:
  assumes "pr_inv s t" and "heap s a = Some n"
  shows "\<exists>i. i < size t \<and> addrs t ! i = a \<and> entries t ! i = (key n, datum n)"
proof -
  note I = pr_invD [OF assms(1)]
  from assms(2) have "a \<in> dom (heap s)" by (rule domI)
  with I(6) obtain i where i: "i < size t" "addrs t ! i = a"
    by (auto simp: in_set_conv_nth)
  from tree_at_key [OF reprD(2) [OF I(1)] i(1)] assms(2) i show ?thesis
    by (auto simp: prod_eq_iff)
qed

section \<open>Lemmas: calls through the tree table\<close>

text \<open>What \<open>permitted\<close> guarantees of the abstract dictionary.\<close>

lemma keeps_cursor_abs:
  fixes s :: "('k, 'v) pr_state"
  assumes inv: "pr_inv s t" and i: "i < size t" and n: "node it = nth_ptr t i"
    and k: "keeps_cursor d s it" and a: "snd (abs_dict (key_cmp s) d (entries t)) = Some es'"
  shows "lookup_by (key_cmp s) (fst (entries t ! i)) es' \<noteq> None"
proof -
  note I = pr_invD [OF inv]
  let ?c = "key_cmp s" and ?x = "fst (entries t ! i)"
  from lookup_by_nth [OF I(3,4), of i] i have here: "lookup_by ?c ?x (entries t) \<noteq> None" by simp
  from tree_at_key [OF reprD(2) [OF I(1)] i] obtain m where
    m: "heap s (addrs t ! i) = Some m" "key m = ?x" by blast
  show ?thesis
  proof (cases d)
    case (D_insert k v ov p)
    with a here show ?thesis
      by (auto simp: abs_dict_def lookup_by_upd_by [OF I(3,4)] split: option.splits if_splits)
  next
    case (D_probe k v p)
    with a here show ?thesis
      by (auto simp: abs_dict_def lookup_by_upd_by [OF I(3,4)] split: option.splits if_splits)
  next
    case (D_remove k)
    with k n i m have "?c k ?x \<noteq> 0" by (simp add: keeps_cursor_def nth_ptr_def)
    then have "?c ?x k \<noteq> 0" by (simp add: cmp_sym [OF I(3), of k])
    with D_remove a here show ?thesis
      by (auto simp: abs_dict_def lookup_by_del_by [OF I(3,4)] split: option.splits)
  next
    case D_empty
    with k n i show ?thesis by (simp add: keeps_cursor_def nth_ptr_def)
  qed (use a here in \<open>auto simp: abs_dict_def\<close>)
qed

lemma dict_simE:
  fixes s :: "('k, 'v) pr_state" and t :: "('k, 'v) ltree"
  assumes "dict_sim m s t (ar, eso)"
  obtains r so where "m = Some (r, so)" and "res_ok (Cr_dict r) (Ca_dict ar)"
    and "case eso of None \<Rightarrow> so = None
      | Some es \<Rightarrow> (\<exists>s' (t' :: ('k, 'v) ltree). so = Some s' \<and> pr_inv s' t' \<and> entries t' = es
          \<and> kept (key_cmp s) t t' \<and> key_cmp s' = key_cmp s)"
proof -
  from assms obtain r so where m: "m = Some (r, so)"
    and A: "case ar of Ar x \<Rightarrow> r = x | Ar_cursor None \<Rightarrow> r = Dr_itor None
      | Ar_cursor (Some j) \<Rightarrow> r = Dr_itor (Some \<lparr>node = nth_ptr t j\<rparr>)"
    and B: "case eso of None \<Rightarrow> so = None
      | Some es \<Rightarrow> (\<exists>s' (t' :: ('k, 'v) ltree). so = Some s' \<and> pr_inv s' t' \<and> entries t' = es
          \<and> kept (key_cmp s) t t' \<and> key_cmp s' = key_cmp s \<and> del_func s' = del_func s)"
    unfolding dict_sim_def fst_conv snd_conv by blast
  from A have "res_ok (Cr_dict r) (Ca_dict ar)" by (cases ar) (auto split: option.splits)
  moreover from B have "case eso of None \<Rightarrow> so = None
      | Some es \<Rightarrow> (\<exists>s' (t' :: ('k, 'v) ltree). so = Some s' \<and> pr_inv s' t' \<and> entries t' = es
          \<and> kept (key_cmp s) t t' \<and> key_cmp s' = key_cmp s)"
    by (cases eso) auto
  ultimately show thesis using that m by blast
qed

lemma dict_call_sim:
  fixes s :: "('k, 'v) pr_state"
  assumes inv: "pr_inv s t" and n: "node it = nth_ptr t i" and le: "i \<le> size t"
    and p: "permitted (Dict d) (s, it)"
  shows "client_sim (client_call (Dict d) (s, it)) (key_cmp s)
    (abs_client (key_cmp s) (Dict d) (entries t, i))"
proof -
  let ?c = "key_cmp s"
  from p have ok: "alloc_ok d s" and k: "keeps_cursor d s it" by (simp_all add: permitted_def)
  obtain ar eso where a: "abs_dict ?c d (entries t) = (ar, eso)" by (cases "abs_dict ?c d (entries t)")
  from vtable_sim [OF inv ok, unfolded a] obtain r so where
    m: "pr_tree_vtable d s = Some (r, so)" and r: "res_ok (Cr_dict r) (Ca_dict ar)"
    and so: "case eso of None \<Rightarrow> so = None
      | Some es \<Rightarrow> (\<exists>s' (t' :: ('k, 'v) ltree). so = Some s' \<and> pr_inv s' t' \<and> entries t' = es
          \<and> kept ?c t t' \<and> key_cmp s' = ?c)"
    by (rule dict_simE)
  show ?thesis
  proof (cases eso)
    case None
    with so m r a show ?thesis by (simp add: client_sim_def client_call_def abs_client_def)
  next
    case (Some es')
    with so obtain s' and t' :: "('k, 'v) ltree" where
      s': "so = Some s'" "pr_inv s' t'" "entries t' = es'" "kept ?c t t'" "key_cmp s' = ?c"
      by auto
    note I = pr_invD [OF s'(2)]
    have "node it = nth_ptr t' (follow ?c (entries t, i) es')"
    proof (cases "i < size t")
      case True
      from keeps_cursor_abs [OF inv True n k] a Some
      have "lookup_by ?c (fst (entries t ! i)) (entries t') \<noteq> None" by (simp add: s'(3))
      from nth_ptr_kept [OF _ _ s'(4) True this] I(3,4) True n show ?thesis
        by (simp add: follow_def s'(3,5))
    next
      case False
      with le n arg_cong [OF s'(3), of length] show ?thesis by (simp add: follow_def)
    qed
    moreover have "follow ?c (entries t, i) es' \<le> size t'"
      using arg_cong [OF s'(3), of length] by (simp add: follow_def rank_def)
    ultimately have "client_rel (s', it) (es', follow ?c (entries t, i) es')"
      using s'(2,3) by (auto simp: client_rel_def)
    with m r a Some s'(1,5) show ?thesis
      by (simp add: client_sim_def client_call_def abs_client_def)
  qed
qed

section \<open>Lemmas: calls through the cursor table and \<^verbatim>\<open>pr_itor_search\<close>\<close>

lemma itor_call_client_sim:
  fixes s :: "('k, 'v) pr_state"
  assumes "pr_inv s t" and "node it = nth_ptr t i" and "i \<le> size t"
  shows "client_sim (client_call (Itor op) (s, it)) (key_cmp s)
    (abs_client (key_cmp s) (Itor op) (entries t, i))"
proof (cases "abs_call op (entries t) i")
  case None
  with itor_call_sim [OF assms, of op] show ?thesis
    by (simp add: sim_step_def client_sim_def client_call_def abs_client_def)
next
  case (Some x)
  obtain r es p where x: "x = (r, es, p)" by (cases x)
  from itor_call_sim [OF assms, of op] Some x obtain s' c and t' :: "('k, 'v) ltree" where
    m: "itor_call op s it = Some (r, s', c)" and t': "pr_inv s' t'" "entries t' = es"
    "cur_rel t' c p" "key_cmp s' = key_cmp s"
    by (auto simp: sim_step_def)
  from t' have "case p of None \<Rightarrow> c = None
      | Some j \<Rightarrow> (\<exists>it'. c = Some it' \<and> client_rel (s', it') (es, j))"
    by (auto simp: cur_rel_def client_rel_def split: option.splits)
  with m Some x t'(4) show ?thesis
    by (auto simp: client_sim_def client_call_def abs_client_def split: option.splits)
qed

lemma seek_client_sim:
  fixes s :: "('k, 'v) pr_state"
  assumes inv: "pr_inv s t"
  shows "client_sim (client_call (Seek k) (s, it)) (key_cmp s)
    (abs_client (key_cmp s) (Seek k) (entries t, i))"
proof -
  note I = pr_invD [OF inv]
  let ?c = "key_cmp s"
  note run = pr_itor_search_refines [OF I(1), of it k]
  show ?thesis
  proof (cases "lookup_addr ?c k t")
    case None
    from lookup_addr_None [OF None] lookup_sorted [OF I(3,4), of k]
    have "lookup_by ?c k (entries t) = None" by simp
    moreover have "client_rel (s, it\<lparr>node := None\<rparr>) (entries t, size t)"
      using inv by (auto simp: client_rel_def)
    ultimately show ?thesis using run None
      by (simp add: client_sim_def client_call_def abs_client_def)
  next
    case (Some a)
    from lookup_addr_Some [OF Some] lookup_sorted [OF I(3,4), of k] obtain j where
      j: "j < size t" "a = addrs t ! j" "?c k (fst (entries t ! j)) = 0"
      "lookup_by ?c k (entries t) = Some (snd (entries t ! j))"
      by auto
    from rank_nth [OF I(3,4), of j] rank_eq_cong [OF I(3) j(3), of "entries t"] j(1)
    have "rank ?c k (entries t) = j" by simp
    with j(1,2) inv have "client_rel (s, it\<lparr>node := Some a\<rparr>) (entries t, rank ?c k (entries t))"
      by (auto simp: client_rel_def nth_ptr_def)
    with run Some j(4) show ?thesis
      by (simp add: client_sim_def client_call_def abs_client_def)
  qed
qed

section \<open>Lemmas: every call and every run\<close>

lemma client_call_sim:
  fixes cl :: "('k, 'v) client"
  assumes "client_rel cl a" and "permitted op cl"
  shows "client_sim (client_call op cl) (key_cmp (fst cl)) (abs_client (key_cmp (fst cl)) op a)"
proof -
  obtain s it where cl: "cl = (s, it)" by (cases cl)
  from assms(1) obtain t where t: "pr_inv s t" "a = (entries t, snd a)" "snd a \<le> size t"
    "node it = nth_ptr t (snd a)"
    unfolding client_rel_def cl by (cases a) auto
  show ?thesis
  proof (cases op)
    case (Dict d)
    from dict_call_sim [OF t(1,4,3) assms(2) [unfolded cl Dict]] t(2) show ?thesis
      unfolding cl Dict by simp
  next
    case (Itor i)
    from itor_call_client_sim [OF t(1,4,3), of i] t(2) show ?thesis unfolding cl Itor by simp
  next
    case (Seek k)
    from seek_client_sim [OF t(1), of k it "snd a"] t(2) show ?thesis unfolding cl Seek by simp
  qed
qed

lemma permitted_abs:
  fixes cl :: "('k, 'v) client"
  assumes "client_rel cl a" and "permitted op cl"
  shows "abs_permitted (key_cmp (fst cl)) op a"
proof (cases op)
  case (Dict d)
  obtain es i where a: "a = (es, i)" by (cases a)
  from assms(1) obtain t where t: "pr_inv (fst cl) t" "entries t = es" "node (snd cl) = nth_ptr t i"
    unfolding client_rel_def a by auto
  from assms(2) Dict have k: "keeps_cursor d (fst cl) (snd cl)" by (simp add: permitted_def)
  from keeps_cursor_abs [OF t(1) _ t(3) k] t(2) show ?thesis
    unfolding abs_permitted_def Dict a by (auto split: option.splits)
qed (simp_all add: abs_permitted_def)

lemma client_simD:
  fixes cl' :: "('k, 'v) client"
  assumes "client_sim m c x" and "m = Some (r, Some cl')"
  shows "\<exists>ar a'. x = Some (ar, Some a') \<and> res_ok r ar \<and> client_rel cl' a' \<and> key_cmp (fst cl') = c"
  using assms unfolding client_sim_def by (auto split: option.splits)

lemma abs_run_snoc:
  "abs_run c a (tr @ [(op, r)]) =
     (case abs_run c a tr of None \<Rightarrow> None | Some a' \<Rightarrow> abs_run c a' [(op, r)])"
  by (induction c a tr rule: abs_run.induct) (auto split: option.splits prod.splits)

lemma client_run_sim:
  fixes c0 cl :: "('k, 'v) client"
  assumes "client_run c0 tr cl" and "client_rel c0 a0"
  shows "key_cmp (fst cl) = key_cmp (fst c0)
    \<and> (\<exists>a. client_rel cl a \<and> abs_run (key_cmp (fst c0)) a0 tr = Some a)"
  using assms
proof (induction rule: client_run.induct)
  case start
  then show ?case by (simp del: split_paired_Ex)
next
  case (step tr cl op r cl')
  from step.IH [OF step.prems] obtain a where
    a: "key_cmp (fst cl) = key_cmp (fst c0)" "client_rel cl a"
    "abs_run (key_cmp (fst c0)) a0 tr = Some a"
    by blast
  from client_simD [OF client_call_sim [OF a(2) step.hyps(2)] step.hyps(3)] obtain ar a' where
    "abs_client (key_cmp (fst cl)) op a = Some (ar, Some a')" "res_ok r ar" "client_rel cl' a'"
    "key_cmp (fst cl') = key_cmp (fst cl)"
    by blast
  with a permitted_abs [OF a(2) step.hyps(2)] show ?case
    by (simp add: abs_run_snoc del: split_paired_Ex)
qed

text \<open>Only the two empty slots of the cursor table have no result.\<close>

lemma abs_client_None:
  "(abs_client c op a = None) = (op = Itor Op_iremove \<or> op = Itor Op_compare)"
proof (cases op)
  case (Itor i)
  then show ?thesis by (cases i) (simp_all add: abs_client_def abs_call_def goto_def)
qed (simp_all add: abs_client_def split: prod.splits option.splits)

lemma client_call_total:
  fixes cl :: "('k, 'v) client"
  assumes "client_rel cl a" and "permitted op cl" and "op \<noteq> Itor Op_iremove" and "op \<noteq> Itor Op_compare"
  shows "\<exists>r co. client_call op cl = Some (r, co)
    \<and> (case co of None \<Rightarrow> True | Some cl' \<Rightarrow> \<exists>a'. client_rel cl' a')"
proof -
  from assms(3,4) abs_client_None [of "key_cmp (fst cl)" op a] obtain ar ao where
    "abs_client (key_cmp (fst cl)) op a = Some (ar, ao)" by fastforce
  with client_call_sim [OF assms(1,2)] obtain r co where
    m: "client_call op cl = Some (r, co)"
    and co: "case ao of None \<Rightarrow> co = None
      | Some a' \<Rightarrow> (\<exists>cl'. co = Some cl' \<and> client_rel cl' a' \<and> key_cmp (fst cl') = key_cmp (fst cl))"
    unfolding client_sim_def by auto
  from co have "case co of None \<Rightarrow> True | Some cl' \<Rightarrow> \<exists>a'. client_rel cl' a'"
    by (cases ao) (auto simp del: split_paired_Ex)
  with m show ?thesis by (simp del: split_paired_Ex)
qed

section \<open>Lemmas: a cursor whose node is removed\<close>

lemma remove_under_cursor:
  fixes s :: "('k, 'v) pr_state"
  assumes inv: "pr_inv s t" and n: "heap s a = Some n" and k: "key_cmp s k (key n) = 0"
  shows "\<exists>s' t'. pr_tree_remove s (Some k) = Some (0, s') \<and> pr_inv s' t' \<and> heap s' a = None"
proof -
  note I = pr_invD [OF inv]
  let ?c = "key_cmp s"
  from heap_node [OF inv n] obtain i where
    i: "i < size t" "addrs t ! i = a" "entries t ! i = (key n, datum n)" by blast
  with nth_in_nodes [of i t] have na: "(a, key n, datum n) \<in> set (nodes t)" by simp
  from i have "(key n, datum n) \<in> set (entries t)" by (auto simp: in_set_conv_nth)
  from inv lookup_by_mem [OF I(3,4) this k] obtain ctx l b x w r rv where
    p: "path_to ?c k t [] 0 = (ctx, Nd l b x (datum n) w r, rv)" and kx: "?c k x = 0"
    by (rule lookup_by_found)
  from nodes_del_found [OF I(2) p] have "(b, x, datum n) \<in> set (nodes t)" by simp
  moreover from k kx have "?c x (key n) = 0" by (metis cmp_eq_cong [OF I(3)] cmp_sym [OF I(3)])
  ultimately have "b = a" by (rule node_of_key [OF I(3,4) na])
  with pr_tree_remove_found [OF inv p] show ?thesis by (auto simp: domIff)
qed

lemma cursor_dangles:
  fixes s :: "('k, 'v) pr_state"
  assumes "pr_inv s t" and "node it = Some a" and "heap s a = Some n" and "key_cmp s k (key n) = 0"
  shows "\<exists>s'. pr_tree_remove s (Some k) = Some (0, s') \<and> pr_itor_key s' it = None
    \<and> pr_itor_data s' it = None \<and> itor_call Op_next s' it = None
    \<and> itor_call Op_prev s' it = None"
proof -
  from remove_under_cursor [OF assms(1,3,4)] obtain s' where
    "pr_tree_remove s (Some k) = Some (0, s')" "heap s' a = None" by blast
  with assms(2) show ?thesis
    by (simp add: pr_itor_key_def pr_itor_data_def itor_call_def pr_tree_itor_vtable_def moved_def
        pr_itor_next_def pr_itor_prev_def node_next_def node_prev_def)
qed

section \<open>Lemmas: continuing a run\<close>

lemma abs_client_gone:
  "(\<exists>ar. abs_client c op a = Some (ar, None)) = (op = Dict D_destroy \<or> op = Itor Op_destroy)"
proof (cases op)
  case (Dict d)
  with abs_dict_gone [of c d "fst a"] show ?thesis
    by (cases "abs_dict c d (fst a)") (auto simp: abs_client_def)
next
  case (Itor i)
  then show ?thesis by (cases i) (auto simp: abs_client_def abs_call_def goto_def)
qed (simp add: abs_client_def split: option.splits)

lemma client_run_extend:
  fixes c0 cl :: "('k, 'v) client"
  assumes run: "client_run c0 tr cl" and rel: "client_rel c0 a0" and p: "permitted op cl"
    and op: "op \<notin> {Dict D_destroy, Itor Op_destroy, Itor Op_iremove, Itor Op_compare}"
  shows "\<exists>r cl'. client_run c0 (tr @ [(op, r)]) cl'"
proof -
  from client_run_sim [OF run rel] obtain a where a: "client_rel cl a" by blast
  let ?c = "key_cmp (fst cl)"
  from op abs_client_None [of ?c op a] obtain ar ao where
    x: "abs_client ?c op a = Some (ar, ao)" by fastforce
  with op abs_client_gone [of ?c op a] obtain a' where "ao = Some a'" by (cases ao) auto
  with client_call_sim [OF a p] x obtain r cl' where "client_call op cl = Some (r, Some cl')"
    unfolding client_sim_def by auto
  from client_run.step [OF run p this] show ?thesis by blast
qed

lemma res_ok_Ar [simp]: "res_ok r (Ca_dict (Ar x)) = (r = Cr_dict x)"
  by (cases "(r, Ca_dict (Ar x))" rule: res_ok.cases) auto

lemma res_ok_itor [simp]: "res_ok r (Ca_itor x) = (r = Cr_itor x)"
  by (cases "(r, Ca_itor x)" rule: res_ok.cases) auto

section \<open>Results\<close>

text \<open>
  Refinement. Every permitted run of a client that starts with a tree
  satisfying the tree invariant and a cursor at position \<open>i\<close> of its entries is
  a run of the sorted list with a position: every recorded result is the
  abstract one, every call was permitted abstractly, and at the end the tree
  satisfies the invariant for the abstract entries and the cursor stands at the
  abstract position. In particular the cursor never dangles.
\<close>

theorem client_run_refines:
  fixes s0 s :: "('k, 'v) pr_state"
  assumes "client_run (s0, it0) tr (s, it)" and "pr_inv s0 t0" and "node it0 = nth_ptr t0 i"
    and "i \<le> size t0"
  shows "\<exists>t j. abs_run (key_cmp s0) (entries t0, i) tr = Some (entries t, j) \<and> pr_inv s t
    \<and> j \<le> size t \<and> node it = nth_ptr t j \<and> itor_ok t it \<and> key_cmp s = key_cmp s0"
proof -
  from assms(2-4) have "client_rel (s0, it0) (entries t0, i)" by (auto simp: client_rel_def)
  from client_run_sim [OF assms(1) this] obtain a where
    a: "client_rel (s, it) a" "abs_run (key_cmp s0) (entries t0, i) tr = Some a"
    and c: "key_cmp s = key_cmp s0" by auto
  from a(1) obtain t where "pr_inv s t" "entries t = fst a" "snd a \<le> size t"
    "node it = nth_ptr t (snd a)" by (auto simp: client_rel_def)
  with a(2) c itor_ok_nth [of it t "snd a"] show ?thesis
    by (intro exI [of _ t] exI [of _ "snd a"]) simp
qed

text \<open>
  Progress. In a state reached by a permitted run every permitted call returns,
  except through the two empty slots of the cursor table: no pointer that is
  \<^verbatim>\<open>NULL\<close> or freed is followed and every loop ends.
\<close>

theorem client_run_total:
  fixes c0 cl :: "('k, 'v) client"
  assumes "client_run c0 tr cl" and "client_rel c0 a0" and "permitted op cl"
    and "op \<noteq> Itor Op_iremove" and "op \<noteq> Itor Op_compare"
  shows "\<exists>r co. client_call op cl = Some (r, co)"
proof -
  from client_run_sim [OF assms(1,2)] obtain a where "client_rel cl a" by blast
  from client_call_total [OF this assms(3-5)] show ?thesis by blast
qed

text \<open>
  The run of the example: on the tree with keys 10, 20, 30 and the cursor on
  key 20, key 25 is inserted and the cursor is moved on. The insertion returns
  0, the move returns 1, and the cursor then reads the new key.
\<close>

lemma client_run_example:
  "\<exists>r1 r2 s it.
     client_run (ex_state, \<lparr>node = Some 0\<rparr>)
       [(Dict (D_insert 25 7 0 (Some 3)), r1), (Itor Op_next, r2)] (s, it)
     \<and> r1 = Cr_dict (Dr_int 0) \<and> r2 = Cr_itor (R_int 1) \<and> pr_itor_key s it = Some (Some 25)"
proof -
  let ?c0 = "(ex_state, \<lparr>node = Some 0\<rparr>)"
  let ?o1 = "Dict (D_insert 25 7 0 (Some 3)) :: (int, nat) client_op"
  let ?o2 = "Itor Op_next :: (int, nat) client_op"
  have rel: "client_rel ?c0 (entries ex_tree, 1)"
    using pr_inv_ex_state ex_pos(1) by (auto simp: client_rel_def ex_tree_def)
  have "permitted ?o1 ?c0"
    by (simp add: permitted_def alloc_ok_def keeps_cursor_def ex_state_def state_of_def ex_tree_def)
  from client_run_extend [OF client_run.start rel this] obtain r1 cl1 where
    r1: "client_run ?c0 [(?o1, r1)] cl1" by auto
  have "permitted ?o2 cl1" by (simp add: permitted_def)
  from client_run_extend [OF r1 rel this] obtain r2 cl2 where
    r2: "client_run ?c0 [(?o1, r1), (?o2, r2)] cl2" by auto
  obtain s it where cl2: "cl2 = (s, it)" by (cases cl2)
  from client_run_refines [OF r2 [unfolded cl2] pr_inv_ex_state ex_pos(1)] obtain t j where
    a: "abs_run int_cmp (entries ex_tree, 1) [(?o1, r1), (?o2, r2)] = Some (entries t, j)"
    and t: "pr_inv s t" "node it = nth_ptr t j"
    by (auto simp: ex_tree_def ex_state_def state_of_def)
  from a have r: "r1 = Cr_dict (Dr_int 0)" "r2 = Cr_itor (R_int 1)"
    and e: "entries t = [(10, 1), (20, 2), (25, 7), (30, 3)]" "j = 2"
    by (auto simp: abs_client_def abs_dict_def abs_permitted_def follow_def rank_def abs_call_def
        goto_def next_pos_def ex_tree_def int_cmp_def split: if_splits)
  from arg_cong [OF e(1), of length] have "size t = 4" by simp
  with pr_itor_access(1) [OF pr_invD(1) [OF t(1)] t(2)] e
  have "pr_itor_key s it = Some (Some 25)" by simp
  with r have "r1 = Cr_dict (Dr_int 0) \<and> r2 = Cr_itor (R_int 1) \<and> pr_itor_key s it = Some (Some 25)"
    by simp
  with r2 cl2 show ?thesis by blast
qed

end
