(* ===== verification/Spec2Isabelle.thy ===== *)
theory Spec2Isabelle
  imports PR_Prelude PR_Heap PR_Tree PR_Rotate PR_Fixup PR_Search PR_Insert PR_Remove PR_Metrics
    PR_Life PR_Walk PR_Itor PR_Balance PR_Nodes PR_Dict PR_Client
begin

text \<open>
  \<^bold>\<open>A verification development for the path-reduction tree of libdict\<close>

  \<^bigskip>
  \<^bold>\<open>The program.\<close> \<^verbatim>\<open>src/src/pr_tree.c\<close> implements an ordered dictionary as a
  binary search tree of heap-allocated nodes (\<^verbatim>\<open>struct pr_node\<close>: key, datum,
  parent, llink, rlink, weight). The tree object (\<^verbatim>\<open>struct pr_tree\<close>) holds the
  root pointer, a 32-bit element count, the caller's comparator and an optional
  deleter. Every node stores its weight, the number of external (null) positions
  below it; \<^verbatim>\<open>WEIGHT\<close> of a null pointer is 1. Insertion walks down, links a new
  leaf, then walks up through the parent pointers, incrementing weights and
  running the rebalancing pass \<^verbatim>\<open>FIXUP\<close> (a macro copy of \<^verbatim>\<open>fixup\<close>), which
  applies single and double rotations (\<^verbatim>\<open>rot_left\<close>, \<^verbatim>\<open>rot_right\<close>) where they
  shorten the internal path length. Removal rotates the victim down until it has
  at most one child, unlinks and frees it, and decrements the weights above it.
  \<^verbatim>\<open>pr_tree_empty\<close> frees all nodes bottom-up without recursion. A cursor
  (\<^verbatim>\<open>struct pr_itor\<close>) walks the tree in key order through \<^verbatim>\<open>node_next\<close> and
  \<^verbatim>\<open>node_prev\<close>. Two dispatch tables (\<^verbatim>\<open>pr_tree_vtable\<close>,
  \<^verbatim>\<open>pr_tree_itor_vtable\<close>) make tree and cursor usable through the generic
  dictionary handle. \<^verbatim>\<open>src/include/hb_tree.h\<close> only declares the interface of a
  different tree and has no code.

  \<^bigskip>
  \<^bold>\<open>How the program is modelled.\<close>

  \<^item> \<open>PR_Prelude\<close>: machine types (\<open>addr\<close>, \<open>ptr = addr option\<close> with \<open>None\<close> for
    \<^verbatim>\<open>NULL\<close>, \<open>weight_t = 64 word\<close>, \<open>count_t = 32 word\<close>), the comparator
    contract \<open>total_cmp\<close>, and sorted association lists (\<open>lookup_by\<close>, \<open>upd_by\<close>,
    \<open>del_by\<close>), the abstract dictionary every operation is specified against.
  \<^item> \<open>PR_Heap\<close>: the records \<open>pr_node\<close>, \<open>pr_tree\<close> and \<open>pr_state\<close> (the tree
    object extended by the heap \<open>addr \<rightharpoonup> pr_node\<close> and the log \<open>freed\<close> of deleter
    calls), the macros \<open>WEIGHT\<close> and \<open>REWEIGH\<close>, \<open>node_new\<close> (the address that
    \<^verbatim>\<open>MALLOC\<close> returns is an argument, \<open>None\<close> for failure), \<open>node_free\<close>, and
    the two idioms the C code repeats: \<open>link_parent\<close> and \<open>replace_child\<close>.
  \<^item> \<open>PR_Tree\<close>: the abstraction. \<open>ltree\<close> is a binary tree labelled with
    address, key, datum and stored weight; \<open>tree_at\<close> and \<open>repr\<close> say that a heap
    holds exactly that linked structure, parent pointers included; one-hole
    contexts (\<open>plug\<close>, \<open>ctx_at\<close>) describe a node together with the path above
    it; \<open>wt_inv\<close> is the weight invariant and \<open>pr_inv\<close> the invariant of the
    tree object (representation, weights, sorted keys, count, no other node
    allocated); \<open>balanced\<close> is the balance condition of the specification;
    \<open>yields\<close> is the form of a refinement statement; \<open>heap_of\<close> and \<open>state_of\<close>
    write a tree into a heap and provide the concrete states of the witnesses.
  \<^item> \<open>PR_Rotate\<close>: \<open>rot_left\<close>, \<open>rot_right\<close> statement by statement, and \<open>rotl\<close>,
    \<open>rotr\<close> on \<open>ltree\<close>.
  \<^item> \<open>PR_Fixup\<close>: \<open>fixup\<close> and \<open>FIXUP\<close> as partial functions of the state, and the
    same algorithm \<open>rebal\<close> on \<open>ltree\<close>.
  \<^item> \<open>PR_Search\<close>: \<open>pr_tree_search\<close>, \<open>pr_tree_csearch\<close>, \<open>node_min\<close>, \<open>node_max\<close>,
    \<open>pr_tree_min\<close>, \<open>pr_tree_max\<close>, and the descents \<open>lookup\<close>, \<open>first_addr\<close>,
    \<open>last_addr\<close> on \<open>ltree\<close>.
  \<^item> \<open>PR_Insert\<close>: \<open>pr_tree_insert\<close> and \<open>pr_tree_probe\<close> (descent \<open>descend\<close>,
    linking \<open>link_new\<close>, upward walk \<open>insert_up\<close>), and the algorithm \<open>ins\<close> on
    \<open>ltree\<close>.
  \<^item> \<open>PR_Remove\<close>: \<open>pr_tree_remove\<close> (\<open>remove_loop\<close>, \<open>unlink\<close>, \<open>weight_down\<close>),
    and the algorithm \<open>del\<close> on \<open>ltree\<close>. The key argument of \<open>pr_tree_remove\<close>
    is a pointer, because the function asserts that it is not \<^verbatim>\<open>NULL\<close>.
  \<^item> \<open>PR_Life\<close>: \<open>pr_tree_new\<close>, \<open>pr_tree_empty\<close> (\<open>empty_loop\<close>) and
    \<open>pr_tree_destroy\<close>; the order of disposal \<open>postorder\<close>.
  \<^item> \<open>PR_Metrics\<close>: \<open>pr_tree_count\<close>, \<open>pr_tree_height\<close>, \<open>pr_tree_mheight\<close>,
    \<open>pr_tree_pathlen\<close> and the recursive \<open>node_height\<close>, \<open>node_mheight\<close>,
    \<open>node_pathlen\<close>; the quantities \<open>ht\<close>, \<open>mht\<close>, \<open>ipl\<close> on \<open>ltree\<close>.
  \<^item> \<open>PR_Walk\<close>: \<open>node_next\<close>, \<open>node_prev\<close> (\<open>climb_right\<close>, \<open>climb_left\<close>) and
    \<open>pr_tree_walk\<close>; a node is identified with its index in the in-order list
    (\<open>nth_ptr\<close>).
  \<^item> \<open>PR_Itor\<close>: the record \<open>pr_itor\<close>, every function \<^verbatim>\<open>pr_itor_*\<close>, the table
    \<open>pr_tree_itor_vtable\<close> as a function from operation names (\<open>itor_op\<close>) to
    cursor functions with \<open>None\<close> for the \<^verbatim>\<open>NULL\<close> slots, the machine of calls
    through the table (\<open>itor_call\<close>, \<open>itor_reach\<close>), and its specification: a
    cursor over a list, a position \<open>0 \<dots> n\<close> with \<open>n\<close> for the unbound cursor
    (\<open>abs_call\<close>).
  \<^item> \<open>PR_Balance\<close>: what the rebalancing achieves: the effect of \<^verbatim>\<open>fixup\<close> and
    of an insertion on the internal path length, and facts about \<open>balanced\<close>
    and the code, with the trees \<open>bal14\<close> and \<open>unbal15\<close>.
  \<^item> \<open>PR_Nodes\<close>: the nodes of a tree with their addresses (\<open>nodes\<close>), the
    position of a key in sorted entries (\<open>rank\<close>), and \<open>kept\<close>: a node whose
    key stays in the dictionary stays the holder of that key.
  \<^item> \<open>PR_Dict\<close>: the table \<open>pr_tree_vtable\<close> over operation names (\<open>dict_op\<close>),
    \<open>pr_dict_new\<close>, \<open>pr_dict_itor_new\<close> (the handles they allocate and free are
    addresses in a set \<open>live\<close>), the records \<open>dict\<close> and \<open>dict_itor\<close>, runs
    of calls through the table (\<open>dict_call\<close>, \<open>dict_run\<close>), and the
    specification of the dictionary on sorted association lists (\<open>abs_dict\<close>,
    \<open>abs_trace\<close>).
  \<^item> \<open>PR_Client\<close>: a tree and a cursor used together: calls through both
    tables and \<^verbatim>\<open>pr_itor_search\<close>, interleaved (\<open>client_call\<close>, \<open>client_run\<close>),
    the condition under which a call leaves the cursor valid (\<open>permitted\<close>),
    and the specification: sorted entries with a position (\<open>abs_client\<close>,
    \<open>abs_run\<close>).

  \<^bigskip>
  \<^bold>\<open>Results and errors.\<close> Every C function is a function into \<open>option\<close>. \<open>None\<close>
  stands for "no defined result": a dereference of \<^verbatim>\<open>NULL\<close> or of a freed node, a
  failed \<^verbatim>\<open>ASSERT\<close>, a call through a \<^verbatim>\<open>NULL\<close> slot, or a loop that does not end.
  All loops that follow pointers are \<open>partial_function (option)\<close> definitions
  with no fuel; that an operation returns is part of each theorem
  (\<open>\<dots> = Some \<dots>\<close>), proved by induction on the represented tree (for
  \<open>empty_loop\<close> on the number of remaining iterations,
  \<open>2 * size (plug c t) - length c\<close>). The counting loop of \<^verbatim>\<open>pr_itor_nextn\<close> and
  \<^verbatim>\<open>pr_itor_prevn\<close> is a total function with a termination proof. The only
  definition with fuel is \<open>itor_collect\<close>, a client loop over a cursor; \<open>size t\<close>
  is shown to be enough and \<open>size t - 1\<close> too little. Return codes (\<^verbatim>\<open>0\<close>, \<^verbatim>\<open>1\<close>,
  \<^verbatim>\<open>-1\<close>) are \<open>int\<close> results beside the new state; where a C function returns
  \<^verbatim>\<open>NULL\<close> for "no object" (\<^verbatim>\<open>pr_tree_new\<close>, \<^verbatim>\<open>pr_itor_new\<close>, \<^verbatim>\<open>pr_dict_new\<close>)
  the result is an inner \<open>None\<close>.

  Keys and data are values of the type variables \<open>'k\<close> and \<open>'v\<close>. They stand
  for pointers that are not \<^verbatim>\<open>NULL\<close>: a node always holds a key and a datum,
  and \<^verbatim>\<open>NULL\<close> as the result of a search means that the key is absent. The
  one place where the code tests a key pointer is \<^verbatim>\<open>ASSERT(key != NULL)\<close> in
  \<^verbatim>\<open>pr_tree_remove\<close>, whose key argument is therefore an \<open>option\<close>; the
  dispatch table is called with keys. The assertions on the tree, node and
  cursor pointers hold by typing (a state, an address, a cursor record), and
  those on \<^verbatim>\<open>node->rlink\<close>, \<^verbatim>\<open>node->llink\<close> and \<^verbatim>\<open>tree->count\<close> are cases
  with the result \<open>None\<close>.

  \<^bigskip>
  \<^bold>\<open>Bounds.\<close> Weights are \<^verbatim>\<open>unsigned long\<close>, taken as 64-bit words (an LP64
  target; with a 32-bit \<^verbatim>\<open>unsigned long\<close> every \<open>2 ^ 64\<close> below reads \<open>2 ^ 32\<close>),
  and wrap. The weight invariant \<open>wt_inv\<close>
  asks that every stored weight is the sum of the weights below it and that the
  tree has fewer than \<open>2 ^ 64 - 1\<close> nodes; under it the word comparisons of
  \<^verbatim>\<open>fixup\<close> are comparisons of subtree sizes (\<open>wt_inv_less\<close>). Insertion needs
  room for one more node (\<open>size t + 2 < 2 ^ 64\<close>; \<open>alloc_ok\<close> in runs). The element
  count, height, minimal height and path length are 32-bit words: count and
  path length are specified modulo \<open>2 ^ 32\<close>, the heights for trees of fewer than
  \<open>2 ^ 32\<close> nodes.

  \<^bigskip>
  \<^bold>\<open>What the lemmas show.\<close>

  \<^item> Rotations (\<open>rot_left_refines\<close>, \<open>rot_right_refines\<close>): executed at a node
    anywhere in a represented tree, the C rotation returns and the heap then
    represents the rotated tree; nothing is allocated or freed.
  \<^item> Rebalancing (\<open>fixup_refines\<close>, \<open>FIXUP_refines\<close>, \<open>rebal_keeps\<close>,
    \<open>FIXUP_eq_fixup\<close>): on a tree with the weight invariant \<^verbatim>\<open>fixup\<close> terminates
    and implements \<open>rebal\<close>, which keeps the in-order entries, the addresses, the
    size and the weight invariant; the macro and the function agree on every
    heap.
  \<^item> Queries (\<open>pr_tree_search_refines\<close>, \<open>lookup_sorted\<close>, \<open>pr_tree_min_refines\<close>,
    \<open>pr_tree_max_refines\<close>): the search loop returns on every represented tree
    and computes the dictionary lookup when the entries are sorted; minimum and
    maximum return the first and last key in order.
  \<^item> Insertion and removal (\<open>pr_tree_insert_total\<close>, \<open>pr_tree_insert_vacant\<close>,
    \<open>pr_tree_insert_overwrite\<close>, \<open>pr_tree_remove_total\<close>, \<open>pr_tree_remove_found\<close>):
    on a state with \<open>pr_inv\<close> both return on every branch, implement \<open>upd_by\<close>
    and \<open>del_by\<close> on the sorted entries, and keep \<open>pr_inv\<close>; failures (duplicate,
    allocation failure, absent key) leave the state unchanged.
  \<^item> Disposal (\<open>empty_loop_refines\<close>, \<open>pr_tree_empty_inv\<close>): the loop ends, frees
    exactly the nodes of the tree and calls the deleter in post-order.
  \<^item> Measurements (\<open>node_height_refines\<close>, \<open>height_w_ht\<close>, \<open>pathlen_w_ipl\<close>): the
    recursive functions return the word-arithmetic value of \<open>ht\<close>, \<open>mht\<close>,
    \<open>ipl 0\<close>.
  \<^item> Traversal (\<open>node_next_refines\<close>, \<open>node_prev_refines\<close>, \<open>walk_loop_refines\<close>):
    successor and predecessor are the neighbours in the in-order list; the walk
    calls the visitor on a prefix of the entries.
  \<^item> Cursor (\<open>itor_call_sim\<close>, \<open>itor_reach_inv\<close>, \<open>itor_collect_refines\<close>): every
    call through the cursor table simulates \<open>abs_call\<close>; reachable states keep
    \<open>pr_inv\<close> and a cursor that is unbound or points into the tree.
  \<^item> Dictionary (\<open>vtable_sim\<close>, \<open>dict_run_inv\<close>, \<open>dict_run_extend\<close>): every call
    through the tree table simulates \<open>abs_dict\<close>, runs keep \<open>pr_inv\<close> and compute
    the abstract entries, and every run can be continued.
  \<^item> Path reduction (\<open>rebal_ipl\<close>, \<open>fixup_pathlen\<close>, \<open>ins_ipl\<close>,
    \<open>insert_pathlen\<close>): where \<^verbatim>\<open>fixup\<close> changes the tree, the internal path
    length becomes strictly smaller, and elsewhere it changes nothing; an
    insertion lengthens the paths by at most the depth of the new node.
  \<^item> Balance (\<open>rebal_balanced\<close>, \<open>balanced_height\<close>): \<^verbatim>\<open>fixup\<close> is the identity on
    balanced trees, and a balanced tree of \<open>n\<close> nodes has height at most
    \<open>log\<^bsub>3/2\<^esub> ((n + 1) / 2)\<close>.
  \<^item> Node identity (\<open>kept_ins_vacant\<close>, \<open>kept_ins_found\<close>, \<open>kept_del\<close>,
    \<open>nth_ptr_kept\<close>): insertion and removal leave every other node at its
    address with its key, so a pointer to it stands at the rank of that key
    afterwards.
  \<^item> Tree and cursor together (\<open>client_call_sim\<close>, \<open>client_run_refines\<close>,
    \<open>client_run_total\<close>, \<open>cursor_dangles\<close>): permitted runs implement the sorted
    list with a position and every permitted call returns; after the removal
    of the key under the cursor the cursor points to a freed node and the
    cursor functions have no defined result.

  \<^bigskip>
  \<^bold>\<open>What modelling showed.\<close> The balance condition of the specification is not an
  invariant of the code: \<^verbatim>\<open>pr_tree_remove\<close> never rebalances, and after a
  double rotation \<^verbatim>\<open>fixup\<close> recurses into a subtree the rotations did not change
  instead of the node \<^verbatim>\<open>temp\<close> (\<open>insert_breaks_balance\<close>,
  \<open>remove_breaks_balance\<close>). \<^verbatim>\<open>pr_tree_pathlen\<close> counts the root at depth 0 and
  \<^verbatim>\<open>pr_tree_mheight\<close> counts a missing child as a path of length 0
  (\<open>pathlen_single_node\<close>, \<open>mheight_one_child\<close>). The count is a 32-bit field and
  wraps. \<^verbatim>\<open>pr_itor_set_data\<close> does not call the deleter. A cursor is not told
  when its node is removed: it stays usable across insertions and across
  removals of other keys, and dangles after a removal of its own key or
  \<^verbatim>\<open>pr_tree_empty\<close>.

  \<^bigskip>
  \<^bold>\<open>Not modelled.\<close> The struct definitions and calling macros of the generic
  dictionary (\<^verbatim>\<open>dict.h\<close>) are not part of the sources: the records \<open>dict\<close>,
  \<open>dict_itor\<close> and the calls \<open>dict_call\<close>, \<open>itor_call\<close> follow the specification.
  \<^verbatim>\<open>MALLOC\<close> and \<^verbatim>\<open>FREE\<close> are represented by their effect on the heap map (for
  nodes), on the set of live handles (for the handles of the generic layer)
  and by the outcome of the call (for tree and cursor objects); the default comparator \<^verbatim>\<open>dict_ptr_cmp\<close> is a parameter. The user
  callbacks \<^verbatim>\<open>key_cmp\<close> and \<^verbatim>\<open>visit\<close> are pure functions and \<^verbatim>\<open>del_func\<close> is a log
  of the pairs handed to it, so callbacks that modify the tree are outside the
  model. Keys and data that are \<^verbatim>\<open>NULL\<close> are not values of the model, apart
  from the key argument of \<^verbatim>\<open>pr_tree_remove\<close>. \<^verbatim>\<open>src/include/hb_tree.h\<close> declares functions whose code is not among the
  sources. Which balance guarantee the code does maintain under insertion is
  not characterised.
\<close>

section \<open>Properties that span components\<close>

text \<open>
  C7 (roundtrip): insert then search. After \<^verbatim>\<open>pr_tree_insert\<close> has returned 0 on a
  state that satisfies the tree invariant, \<^verbatim>\<open>pr_tree_search\<close> returns the
  inserted datum for every key that compares equal to the inserted key, and for
  every other key what the dictionary held before.
\<close>

theorem insert_then_search:
  assumes "pr_inv s t" and "case m of None \<Rightarrow> True | Some a \<Rightarrow> a \<notin> dom (heap s)"
    and "size t + 2 < 2 ^ 64" and "pr_tree_insert s k v ov m = Some (0, s')"
  shows "pr_tree_search s' k' =
    Some (if key_cmp s k' k = 0 then Some v else lookup_by (key_cmp s) k' (entries t))"
proof -
  from pr_tree_insert_total [OF assms(1-3), of k v ov] assms(4) obtain t' where
    inv': "pr_inv s' t'" and c: "key_cmp s' = key_cmp s"
    and e: "entries t' = upd_by (key_cmp s) k v (entries t)"
    by auto
  note I = pr_invD [OF assms(1)] and I' = pr_invD [OF inv']
  have "pr_tree_search s' k' = Some (lookup_by (key_cmp s) k' (entries t'))"
    using pr_tree_search_refines [OF I'(1)] lookup_sorted [OF I'(3,4)] by (simp add: c)
  then show ?thesis by (simp add: e lookup_by_upd_by [OF I(3,4)])
qed

theorem insert_then_search_witness:
  "\<exists>s'. pr_tree_insert (state_of int_cmp False chain2) 30 3 0 (Some 2) = Some (0, s')
     \<and> pr_tree_search s' 30 = Some (Some 3) \<and> pr_tree_search s' 10 = Some (Some 1)
     \<and> pr_tree_search s' 15 = Some None"
proof -
  let ?s = "state_of int_cmp False chain2"
  have m: "case Some 2 of None \<Rightarrow> True | Some a \<Rightarrow> a \<notin> dom (heap ?s)"
    and sz: "size chain2 + 2 < 2 ^ 64"
    and l: "lookup_by (key_cmp ?s) 30 (entries chain2) = None"
    by (simp_all add: chain2_def int_cmp_def)
  from pr_inv_chain2 l obtain ctx rv where "path_to (key_cmp ?s) 30 chain2 [] 0 = (ctx, Tip, rv)"
    by (rule lookup_by_vacant)
  from pr_tree_insert_vacant [OF pr_inv_chain2 this _ sz, of 2 3 0] obtain s' where
    run: "pr_tree_insert ?s 30 3 0 (Some 2) = Some (0, s')"
    by (auto simp: chain2_def)
  with insert_then_search [OF pr_inv_chain2 m sz run] show ?thesis
    by (auto simp: chain2_def int_cmp_def)
qed

text \<open>
  C8 (roundtrip): remove then search. After \<^verbatim>\<open>pr_tree_remove\<close> has returned 0 on a
  state that satisfies the tree invariant, \<^verbatim>\<open>pr_tree_search\<close> finds nothing under
  any key that compares equal to the removed key, and for every other key what
  the dictionary held before.
\<close>

theorem remove_then_search:
  assumes "pr_inv s t" and "pr_tree_remove s (Some k) = Some (0, s')"
  shows "pr_tree_search s' k' =
    Some (if key_cmp s k' k = 0 then None else lookup_by (key_cmp s) k' (entries t))"
proof -
  from pr_tree_remove_total [OF assms(1), of k] assms(2) obtain t' where
    inv': "pr_inv s' t'" and c: "key_cmp s' = key_cmp s"
    and e: "entries t' = del_by (key_cmp s) k (entries t)"
    by auto
  note I = pr_invD [OF assms(1)] and I' = pr_invD [OF inv']
  have "pr_tree_search s' k' = Some (lookup_by (key_cmp s) k' (entries t'))"
    using pr_tree_search_refines [OF I'(1)] lookup_sorted [OF I'(3,4)] by (simp add: c)
  then show ?thesis by (simp add: e lookup_by_del_by [OF I(3,4)])
qed

theorem remove_then_search_witness:
  "\<exists>s'. pr_tree_remove (state_of int_cmp False tree4) (Some 20) = Some (0, s')
     \<and> pr_tree_search s' 20 = Some None \<and> pr_tree_search s' 30 = Some (Some 3)"
proof -
  let ?s = "state_of int_cmp False tree4"
  have "lookup_by (key_cmp ?s) 20 (entries tree4) = Some 2"
    by (simp add: tree4_def int_cmp_def)
  with pr_inv_tree4 obtain ctx l b x w r rv where
    "path_to (key_cmp ?s) 20 tree4 [] 0 = (ctx, Nd l b x 2 w r, rv)"
    by (rule lookup_by_found)
  from pr_tree_remove_found [OF pr_inv_tree4 this] obtain s' where
    run: "pr_tree_remove ?s (Some 20) = Some (0, s')"
    by auto
  with remove_then_search [OF pr_inv_tree4 run] show ?thesis
    by (auto simp: tree4_def int_cmp_def)
qed

text \<open>
  C18 (liveness): a traversal by cursor visits every entry and ends. On a
  represented tree, a cursor set by \<^verbatim>\<open>pr_itor_first\<close> and advanced by
  \<^verbatim>\<open>pr_itor_next\<close> until it is unbound is unbound after exactly as many steps
  as the tree has nodes, and the pairs read through \<^verbatim>\<open>pr_itor_key\<close> and
  \<^verbatim>\<open>pr_itor_data\<close> on the way are the in-order entries: the sequence on which
  \<^verbatim>\<open>pr_tree_walk\<close> calls a callback that never stops the walk.
\<close>

theorem cursor_walk_agree:
  assumes "repr s t"
  shows "\<exists>r it1. pr_itor_first s it = Some (r, it1)
    \<and> itor_collect (size t) s it1 = Some (entries t)
    \<and> (0 < size t \<longrightarrow> itor_collect (size t - 1) s it1 = None)
    \<and> pr_tree_walk s (\<lambda>k v. True) = Some (of_nat (size t), entries t)"
proof -
  have "visited (\<lambda>k v. True) (entries t) = entries t" by (rule visited_all) simp
  with pr_tree_walk_refines [OF assms, of "\<lambda>k v. True"]
  have "pr_tree_walk s (\<lambda>k v. True) = Some (of_nat (size t), entries t)" by simp
  moreover have "itor_collect (size t) s (it\<lparr>node := nth_ptr t 0\<rparr>) = Some (entries t)"
    using itor_collect_refines [OF assms, of "it\<lparr>node := nth_ptr t 0\<rparr>" 0 "size t"] by simp
  moreover have "0 < size t \<longrightarrow> itor_collect (size t - 1) s (it\<lparr>node := nth_ptr t 0\<rparr>) = None"
    using itor_collect_short [OF assms, of "it\<lparr>node := nth_ptr t 0\<rparr>" 0 "size t - 1"] by simp
  ultimately show ?thesis using pr_itor_first_refines [OF assms, of it] by simp
qed

theorem cursor_walk_agree_witness:
  "\<exists>r it1. pr_itor_first ex_state \<lparr>node = None\<rparr> = Some (r, it1)
     \<and> itor_collect 3 ex_state it1 = Some [(10, 1), (20, 2), (30, 3)]
     \<and> itor_collect 2 ex_state it1 = None
     \<and> pr_tree_walk ex_state (\<lambda>k v. True) = Some (3, [(10, 1), (20, 2), (30, 3)])"
  using cursor_walk_agree [OF repr_ex_state, of "\<lparr>node = None\<rparr>"]
  by (simp add: ex_tree_def numeral_3_eq_3 numeral_2_eq_2)

end
